(* ===== verification/Prelude.thy ===== *)
theory Prelude
  imports Main "HOL-Library.Word"
begin

text \<open>
  Shared vocabulary of the development: bytes and byte strings, the result type in which
  the C++ exceptions and error returns are values, readers over a byte stream, and the
  little-endian encoding on which serialization, script numbers and script pushes rest.

  Machine integers are kept as \<open>'w word\<close> where the code stores or wraps them; sizes
  and counters that the code bounds are \<open>nat\<close>; \<open>CAmount\<close> and \<open>CScriptNum\<close> are
  \<open>int\<close>, with their 64-bit range stated where it matters.
\<close>

unbundle bit_operations_syntax

section \<open>Bytes and results\<close>

type_synonym byte = "8 word"
type_synonym bytes = "byte list"
type_synonym uint16 = "16 word"
type_synonym uint32 = "32 word"
type_synonym uint64 = "64 word"
type_synonym uint256 = "256 word"
type_synonym CAmount = int

named_theorems le_simps
  \<open>facts on the little-endian encoding\<close>

named_theorems reader_simps
  \<open>unfolding of readers and of their sequencing\<close>

text \<open>A computation that may throw: \<open>Inl\<close> is the exception, \<open>Inr\<close> the result.\<close>

fun bind_res :: "'e + 'a \<Rightarrow> ('a \<Rightarrow> 'e + 'b) \<Rightarrow> 'e + 'b" where
  "bind_res (Inl e) f = Inl e"
| "bind_res (Inr x) f = f x"

lemma bind_res_Inr_conv [simp]:
  "bind_res m f = Inr y \<longleftrightarrow> (\<exists>x. m = Inr x \<and> f x = Inr y)"
  by (cases m) auto

lemma Inr_eq_bind_res [simp]: "Inr y = bind_res m f \<longleftrightarrow> (\<exists>x. m = Inr x \<and> f x = Inr y)"
  by (cases m) auto

lemma bind_res_Inl_conv:
  "bind_res m f = Inl e \<longleftrightarrow> m = Inl e \<or> (\<exists>x. m = Inr x \<and> f x = Inl e)"
  by (cases m) auto

lemma bind_res_assoc: "bind_res (bind_res m f) g = bind_res m (\<lambda>x. bind_res (f x) g)"
  by (cases m) auto

section \<open>Little-endian numbers\<close>

text \<open>
  \<open>le_bytes k v\<close> is the memory image of the \<open>k\<close>-byte unsigned integer \<open>v\<close> in
  little-endian order (what \<^verbatim>\<open>htole16/32/64\<close> followed by a byte copy leaves), \<open>le_nat\<close>
  reads such an image back.
\<close>

fun le_bytes :: "nat \<Rightarrow> nat \<Rightarrow> bytes" where
  "le_bytes 0 v = []"
| "le_bytes (Suc k) v = of_nat (v mod 256) # le_bytes k (v div 256)"

fun le_nat :: "bytes \<Rightarrow> nat" where
  "le_nat [] = 0"
| "le_nat (b # bs) = unat b + 256 * le_nat bs"

lemma unat_byte_lt [simp]: "unat (b :: byte) < 256"
  using unsigned_less [of b] by simp

lemma unat_of_nat_byte [simp]: "unat (of_nat (v mod 256) :: byte) = v mod 256"
  by (simp add: unat_of_nat)

lemma length_le_bytes [simp, le_simps]: "length (le_bytes k v) = k"
  by (induction k arbitrary: v) auto

lemma le_nat_le_bytes [le_simps]: "le_nat (le_bytes k v) = v mod 256 ^ k"
proof (induction k arbitrary: v)
  case 0
  then show ?case by simp
next
  case (Suc k)
  have "v mod 256 ^ Suc k = v mod 256 + 256 * (v div 256 mod 256 ^ k)"
    by (simp add: mod_mult2_eq)
  with Suc.IH show ?case by simp
qed

lemma le_nat_le_bytes_id [simp]: "v < 256 ^ k \<Longrightarrow> le_nat (le_bytes k v) = v"
  by (simp add: le_nat_le_bytes)

lemma le_bytes_le_nat [simp]: "length bs = k \<Longrightarrow> le_bytes k (le_nat bs) = bs"
proof (induction bs arbitrary: k)
  case Nil
  then show ?case by simp
next
  case (Cons b bs)
  have "(unat b + 256 * le_nat bs) mod 256 = unat b"
    and "(unat b + 256 * le_nat bs) div 256 = le_nat bs"
    by simp_all
  with Cons show ?case by (auto simp del: mod_mult_self2)
qed

lemma le_nat_less [le_simps]: "le_nat bs < 256 ^ length bs"
proof (induction bs)
  case Nil
  then show ?case by simp
next
  case (Cons b bs)
  have "unat b + 256 * le_nat bs < 256 + 256 * le_nat bs" by simp
  also have "\<dots> \<le> 256 * 256 ^ length bs"
    using Cons.IH by (simp add: Suc_le_eq [symmetric] del: Suc_le_eq)
  finally show ?case by simp
qed

lemma le_nat_append [le_simps]:
  "le_nat (xs @ ys) = le_nat xs + 256 ^ length xs * le_nat ys"
  by (induction xs) (auto simp: algebra_simps)

lemma le_nat_inject:
  assumes "length xs = length ys" and "le_nat xs = le_nat ys"
  shows "xs = ys"
  using assms by (metis le_bytes_le_nat)

section \<open>Readers over a byte stream\<close>

text \<open>
  The input side of a stream (\<^verbatim>\<open>CDataStream\<close>, \<^verbatim>\<open>VectorReader\<close>): the bytes not read
  yet. A reader consumes a prefix of them or throws.
\<close>

datatype ser_error =
    EndOfData
  | NonCanonicalCompactSize
  | CompactSizeTooLarge
  | VarIntTooLarge
  | SuperfluousWitness
  | UnknownOptionalData

type_synonym 'a reader = "bytes \<Rightarrow> ser_error + ('a \<times> bytes)"

definition rreturn :: "'a \<Rightarrow> 'a reader" where
  "rreturn x s = Inr (x, s)"

definition rthrow :: "ser_error \<Rightarrow> 'a reader" where
  "rthrow e s = Inl e"

definition rbind :: "'a reader \<Rightarrow> ('a \<Rightarrow> 'b reader) \<Rightarrow> 'b reader" where
  "rbind m f s = (case m s of Inl e \<Rightarrow> Inl e | Inr (x, s') \<Rightarrow> f x s')"

definition rmap :: "('a \<Rightarrow> 'b) \<Rightarrow> 'a reader \<Rightarrow> 'b reader" where
  "rmap f m = rbind m (\<lambda>x. rreturn (f x))"

lemmas reader_defs = rreturn_def rthrow_def rbind_def rmap_def

lemma rreturn_apply [simp]: "rreturn x s = Inr (x, s)"
  by (simp add: rreturn_def)

lemma rthrow_apply [simp]: "rthrow e s = Inl e"
  by (simp add: rthrow_def)

lemma rbind_Inr [simp]: "m s = Inr (x, s') \<Longrightarrow> rbind m f s = f x s'"
  by (simp add: rbind_def)

lemma rbind_Inl [simp]: "m s = Inl e \<Longrightarrow> rbind m f s = Inl e"
  by (simp add: rbind_def)

lemma rbind_eq_InrE:
  assumes "rbind m f s = Inr (y, t)"
  obtains x s' where "m s = Inr (x, s')" and "f x s' = Inr (y, t)"
  using assms by (auto simp: rbind_def split: sum.splits prod.splits)

end
