(* ===== verification/Serialize.thy ===== *)
theory Serialize
  imports Prelude
begin

text \<open>
  The wire format primitives of \<^verbatim>\<open>src/serialize.h\<close>: fixed-width integers, the compact
  size prefix, variable-length integers, byte vectors and vectors of serializable items.
  Every writer is a function to the bytes it appends; every reader consumes a prefix of
  the stream or throws. The locale \<open>codec\<close> is the contract between the two sides, and
  \<open>canonical_codec\<close> adds that no other byte string is read as the same value.
\<close>

section \<open>Fixed-width integers\<close>

text \<open>\<^verbatim>\<open>CDataStream::read\<close>: exactly \<open>k\<close> bytes or the exception.\<close>

definition stream_read :: "nat \<Rightarrow> bytes reader" where
  "stream_read k s = (if k \<le> length s then Inr (take k s, drop k s) else Inl EndOfData)"

definition ser_writedata8 :: "byte \<Rightarrow> bytes" where
  "ser_writedata8 obj = [obj]"

definition ser_writedata16 :: "uint16 \<Rightarrow> bytes" where
  "ser_writedata16 obj = le_bytes 2 (unat obj)"

definition ser_writedata32 :: "uint32 \<Rightarrow> bytes" where
  "ser_writedata32 obj = le_bytes 4 (unat obj)"

definition ser_writedata64 :: "uint64 \<Rightarrow> bytes" where
  "ser_writedata64 obj = le_bytes 8 (unat obj)"

definition ser_readdata8 :: "byte reader" where
  "ser_readdata8 = rmap (\<lambda>bs. of_nat (le_nat bs)) (stream_read 1)"

definition ser_readdata16 :: "uint16 reader" where
  "ser_readdata16 = rmap (\<lambda>bs. of_nat (le_nat bs)) (stream_read 2)"

definition ser_readdata32 :: "uint32 reader" where
  "ser_readdata32 = rmap (\<lambda>bs. of_nat (le_nat bs)) (stream_read 4)"

definition ser_readdata64 :: "uint64 reader" where
  "ser_readdata64 = rmap (\<lambda>bs. of_nat (le_nat bs)) (stream_read 8)"

text \<open>A 256-bit blob is written as its 32 bytes, least significant first.\<close>

definition ser_uint256 :: "uint256 \<Rightarrow> bytes" where
  "ser_uint256 obj = le_bytes 32 (unat obj)"

definition unser_uint256 :: "uint256 reader" where
  "unser_uint256 = rmap (\<lambda>bs. of_nat (le_nat bs)) (stream_read 32)"

section \<open>Compact size\<close>

definition MAX_SIZE :: uint64 where
  "MAX_SIZE = 0x02000000"

definition GetSizeOfCompactSize :: "uint64 \<Rightarrow> nat" where
  "GetSizeOfCompactSize nSize =
     (if nSize < 253 then 1
      else if nSize \<le> 0xFFFF then 1 + 2
      else if nSize \<le> 0xFFFFFFFF then 1 + 4
      else 1 + 8)"

definition WriteCompactSize :: "uint64 \<Rightarrow> bytes" where
  "WriteCompactSize nSize =
     (if nSize < 253 then ser_writedata8 (ucast nSize)
      else if nSize \<le> 0xFFFF then ser_writedata8 253 @ ser_writedata16 (ucast nSize)
      else if nSize \<le> 0xFFFFFFFF then ser_writedata8 254 @ ser_writedata32 (ucast nSize)
      else ser_writedata8 255 @ ser_writedata64 nSize)"

definition ReadCompactSize :: "uint64 reader" where
  "ReadCompactSize = rbind ser_readdata8 (\<lambda>chSize.
     rbind
       (if chSize < 253 then rreturn (ucast chSize)
        else if chSize = 253 then
          rbind ser_readdata16 (\<lambda>x. let nSizeRet = ucast x in
            if nSizeRet < 253 then rthrow NonCanonicalCompactSize else rreturn nSizeRet)
        else if chSize = 254 then
          rbind ser_readdata32 (\<lambda>x. let nSizeRet = ucast x in
            if nSizeRet < 0x10000 then rthrow NonCanonicalCompactSize else rreturn nSizeRet)
        else
          rbind ser_readdata64 (\<lambda>nSizeRet.
            if nSizeRet < 0x100000000 then rthrow NonCanonicalCompactSize
            else rreturn nSizeRet))
       (\<lambda>nSizeRet. if nSizeRet > MAX_SIZE then rthrow CompactSizeTooLarge
                   else rreturn nSizeRet))"

section \<open>Variable-length integers\<close>

text \<open>
  The template is instantiated at unsigned types of different widths, so the model is
  over \<open>'w word\<close>. \<open>varint_tmp\<close> is the first loop of \<^verbatim>\<open>WriteVarInt\<close>, which fills the
  buffer \<^verbatim>\<open>tmp\<close> from the least significant group on; its flag is \<^verbatim>\<open>len != 0\<close>.
\<close>

lemma unat_drop_bit_7: "unat (drop_bit 7 (n :: 'w::len word)) = unat n div 128"
  by (simp only: unat_drop_bit_eq) (simp add: drop_bit_eq_div)

lemma varint_step_less:
  fixes n :: "'w::len word"
  assumes "\<not> unat n \<le> 0x7F"
  shows "unat (drop_bit 7 n - 1) < unat n"
proof -
  have "unat (drop_bit 7 n) \<noteq> 0"
    using assms by (simp add: unat_drop_bit_7)
  then have "unat (drop_bit 7 n - 1) < unat (drop_bit 7 n)"
    by (intro measure_unat) auto
  then show ?thesis by (simp add: unat_drop_bit_7)
qed

function varint_tmp :: "bool \<Rightarrow> 'w::len word \<Rightarrow> bytes" where
  "varint_tmp cont n =
     (ucast (n AND 0x7F) OR (if cont then 0x80 else 0x00)) #
     (if unat n \<le> 0x7F then [] else varint_tmp True (drop_bit 7 n - 1))"
  by pat_completeness auto
termination
  by (relation "measure (\<lambda>(_, n). unat n)") (auto dest: varint_step_less)

declare varint_tmp.simps [simp del]

text \<open>The second loop writes the buffer backwards.\<close>

definition WriteVarInt :: "'w::len word \<Rightarrow> bytes" where
  "WriteVarInt n = rev (varint_tmp False n)"

function GetSizeOfVarInt :: "'w::len word \<Rightarrow> nat" where
  "GetSizeOfVarInt n = 1 + (if unat n \<le> 0x7F then 0 else GetSizeOfVarInt (drop_bit 7 n - 1))"
  by pat_completeness auto
termination
  by (relation "measure unat") (auto dest: varint_step_less)

declare GetSizeOfVarInt.simps [simp del]

fun ReadVarInt_loop :: "'w::len word \<Rightarrow> 'w word reader" where
  "ReadVarInt_loop n [] = Inl EndOfData"
| "ReadVarInt_loop n (chData # s) =
     (if n > drop_bit 7 (- 1) then Inl VarIntTooLarge
      else let n' = push_bit 7 n OR ucast (chData AND 0x7F) in
        if chData AND 0x80 \<noteq> 0
        then (if n' = - 1 then Inl VarIntTooLarge else ReadVarInt_loop (n' + 1) s)
        else Inr (n', s))"

definition ReadVarInt :: "'w::len word reader" where
  "ReadVarInt = ReadVarInt_loop 0"

section \<open>Vectors\<close>

text \<open>
  A vector of bytes is read in blocks of at most five million, so that a bogus size does
  not allocate at once; a vector of other items is read item by item.
\<close>

definition Serialize_bytes :: "bytes \<Rightarrow> bytes" where
  "Serialize_bytes v = WriteCompactSize (of_nat (length v)) @ v"

function read_blocks :: "nat \<Rightarrow> bytes reader" where
  "read_blocks k s =
     (if k = 0 then Inr ([], s)
      else let blk = min k (1 + 4999999) in
        case stream_read blk s of
          Inl e \<Rightarrow> Inl e
        | Inr (x, s') \<Rightarrow>
            (case read_blocks (k - blk) s' of Inl e \<Rightarrow> Inl e | Inr (y, s'') \<Rightarrow> Inr (x @ y, s'')))"
  by pat_completeness auto
termination
  by (relation "measure fst") (auto split: if_splits)

declare read_blocks.simps [simp del]

definition Unserialize_bytes :: "bytes reader" where
  "Unserialize_bytes = rbind ReadCompactSize (\<lambda>nSize. read_blocks (unat nSize))"

definition Serialize_vector :: "('a \<Rightarrow> bytes) \<Rightarrow> 'a list \<Rightarrow> bytes" where
  "Serialize_vector ser v = WriteCompactSize (of_nat (length v)) @ concat (map ser v)"

fun read_items :: "'a reader \<Rightarrow> nat \<Rightarrow> 'a list reader" where
  "read_items unser 0 s = Inr ([], s)"
| "read_items unser (Suc k) s =
     (case unser s of
        Inl e \<Rightarrow> Inl e
      | Inr (x, s') \<Rightarrow>
          (case read_items unser k s' of Inl e \<Rightarrow> Inl e | Inr (xs, s'') \<Rightarrow> Inr (x # xs, s'')))"

definition Unserialize_vector :: "'a reader \<Rightarrow> 'a list reader" where
  "Unserialize_vector unser = rbind ReadCompactSize (\<lambda>nSize. read_items unser (unat nSize))"

section \<open>The contract of a codec\<close>

text \<open>
  \<open>dec\<close> reads back what \<open>enc\<close> wrote, whatever follows in the stream, for every value
  that satisfies \<open>ok\<close> (the values the format can carry).
\<close>

locale codec =
  fixes enc :: "'a \<Rightarrow> bytes"
    and dec :: "'a reader"
    and ok :: "'a \<Rightarrow> bool"
  assumes dec_enc: "ok x \<Longrightarrow> dec (enc x @ s) = Inr (x, s)"
begin

lemma enc_prefix_free:
  assumes "ok x" and "ok y" and "enc x @ s = enc y @ t"
  shows "x = y \<and> s = t"
  using dec_enc [OF assms(1), of s] dec_enc [OF assms(2), of t]
  unfolding assms(3) by simp

lemma items_dec_enc:
  "list_all ok xs \<Longrightarrow> read_items dec (length xs) (concat (map enc xs) @ s) = Inr (xs, s)"
  by (induction xs) (auto simp: dec_enc)

end

text \<open>
  A canonical codec accepts no encoding but the writer's: what is read is what the writer
  would have produced for the value read.
\<close>

locale canonical_codec = codec +
  assumes enc_dec: "dec s = Inr (x, t) \<Longrightarrow> s = enc x @ t \<and> ok x"
begin

lemma items_enc_dec:
  "read_items dec k s = Inr (xs, t) \<Longrightarrow> s = concat (map enc xs) @ t \<and> list_all ok xs \<and> length xs = k"
proof (induction k arbitrary: s xs)
  case 0
  then show ?case by simp
next
  case (Suc k)
  from Suc.prems obtain x s' xs' where x: "dec s = Inr (x, s')"
    and xs': "read_items dec k s' = Inr (xs', t)" and xs: "xs = x # xs'"
    by (auto split: sum.splits prod.splits)
  from enc_dec [OF x] Suc.IH [OF xs'] xs show ?case by simp
qed

end

section \<open>Fixed-width integers are canonical codecs\<close>

lemma stream_read_append: "length xs = k \<Longrightarrow> stream_read k (xs @ s) = Inr (xs, s)"
  by (simp add: stream_read_def)

lemma stream_read_Inr:
  "stream_read k s = Inr (xs, t) \<longleftrightarrow> s = xs @ t \<and> length xs = k"
  by (auto simp: stream_read_def split: if_splits)

text \<open>The width-generic codec behind \<^verbatim>\<open>ser_writedata*\<close> and \<^verbatim>\<open>ser_readdata*\<close>.\<close>

lemma le_word_dec_enc:
  assumes "LENGTH('w::len) = 8 * k"
  shows "rmap (\<lambda>bs. of_nat (le_nat bs)) (stream_read k) (le_bytes k (unat x) @ s) =
    Inr (x :: 'w word, s)"
proof -
  have "unat x < 256 ^ k"
    using unsigned_less [of x] assms by (simp add: power_mult)
  then show ?thesis by (simp add: rmap_def stream_read_append)
qed

lemma le_word_enc_dec:
  assumes "LENGTH('w::len) = 8 * k"
    and "rmap (\<lambda>bs. of_nat (le_nat bs)) (stream_read k) s = Inr (x :: 'w word, t)"
  shows "s = le_bytes k (unat x) @ t"
proof -
  from assms(2) obtain bs where bs: "s = bs @ t" "length bs = k" "x = of_nat (le_nat bs)"
    by (auto simp: rmap_def stream_read_Inr elim!: rbind_eq_InrE)
  have "le_nat bs < 2 ^ (8 * k)"
    using le_nat_less [of bs] bs(2) by (simp add: power_mult)
  then have "unat x = le_nat bs"
    unfolding bs(3) unat_of_nat assms(1) by simp
  then show ?thesis using bs(1,2) by simp
qed

text \<open>The width-generic codec behind \<^verbatim>\<open>ser_writedata*\<close> and \<^verbatim>\<open>ser_readdata*\<close>.\<close>

lemma canonical_le_word:
  assumes "LENGTH('w::len) = 8 * k"
  shows "canonical_codec (\<lambda>x :: 'w word. le_bytes k (unat x))
           (rmap (\<lambda>bs. of_nat (le_nat bs)) (stream_read k)) (\<lambda>_. True)"
  by unfold_locales (simp_all only: le_word_dec_enc [OF assms] le_word_enc_dec [OF assms] simp_thms)

interpretation ser8: canonical_codec ser_writedata8 ser_readdata8 "\<lambda>_. True"
proof -
  have "ser_writedata8 = (\<lambda>x. le_bytes 1 (unat x))"
    by (auto simp: ser_writedata8_def fun_eq_iff)
  then show "canonical_codec ser_writedata8 ser_readdata8 (\<lambda>_. True)"
    using canonical_le_word [where ?'w = 8 and k = 1] by (simp add: ser_readdata8_def)
qed

interpretation ser16: canonical_codec ser_writedata16 ser_readdata16 "\<lambda>_. True"
  using canonical_le_word [where ?'w = 16 and k = 2]
  by (simp add: ser_readdata16_def ser_writedata16_def [abs_def])

interpretation ser32: canonical_codec ser_writedata32 ser_readdata32 "\<lambda>_. True"
  using canonical_le_word [where ?'w = 32 and k = 4]
  by (simp add: ser_readdata32_def ser_writedata32_def [abs_def])

interpretation ser64: canonical_codec ser_writedata64 ser_readdata64 "\<lambda>_. True"
  using canonical_le_word [where ?'w = 64 and k = 8]
  by (simp add: ser_readdata64_def ser_writedata64_def [abs_def])

interpretation ser256: canonical_codec ser_uint256 unser_uint256 "\<lambda>_. True"
  using canonical_le_word [where ?'w = 256 and k = 32]
  by (simp add: unser_uint256_def ser_uint256_def [abs_def])

lemmas fixed_width_dec_enc [reader_simps] =
  ser8.dec_enc ser16.dec_enc ser32.dec_enc ser64.dec_enc ser256.dec_enc

lemmas fixed_width_enc_dec =
  ser8.enc_dec ser16.enc_dec ser32.enc_dec ser64.enc_dec ser256.enc_dec

section \<open>Compact size: correctness\<close>

lemma ucast_ucast_id:
  fixes n :: "'a::len word"
  assumes "unat n < 2 ^ LENGTH('b::len)"
  shows "ucast (ucast n :: 'b word) = n"
  using assms by (intro word_unat_eq_iff [THEN iffD2]) (simp add: unsigned_ucast_eq unsigned_take_bit_eq take_bit_nat_eq_self)

lemma unat_ucast_up:
  fixes x :: "'a::len word"
  assumes "LENGTH('a) \<le> LENGTH('b::len)"
  shows "unat (ucast x :: 'b word) = unat x"
proof -
  have "unat x < 2 ^ LENGTH('b)"
    by (rule less_le_trans [OF unsigned_less]) (simp add: assms)
  then show ?thesis by (simp add: unsigned_ucast_eq take_bit_nat_eq_self)
qed

lemma length_WriteCompactSize: "length (WriteCompactSize n) = GetSizeOfCompactSize n"
  by (simp add: WriteCompactSize_def GetSizeOfCompactSize_def ser_writedata8_def
      ser_writedata16_def ser_writedata32_def ser_writedata64_def)

lemma ReadCompactSize_WriteCompactSize:
  assumes "n \<le> MAX_SIZE"
  shows "ReadCompactSize (WriteCompactSize n @ s) = Inr (n, s)"
proof -
  have le: "unat n \<le> 0x02000000"
    using assms by (simp add: MAX_SIZE_def word_le_nat_alt)
  consider "unat n < 253" | "253 \<le> unat n" "unat n \<le> 0xFFFF" | "0xFFFF < unat n"
    by linarith
  then show ?thesis
  proof cases
    case 1
    then have "ucast (ucast n :: byte) = n" by (intro ucast_ucast_id) simp
    moreover have "(ucast n :: byte) < 253"
      using 1 by (simp add: word_less_nat_alt unsigned_ucast_eq take_bit_nat_eq_self)
    ultimately show ?thesis using 1 assms
      by (simp add: WriteCompactSize_def ReadCompactSize_def reader_simps word_less_nat_alt
          word_le_nat_alt)
  next
    case 2
    then have "ucast (ucast n :: uint16) = n" by (intro ucast_ucast_id) simp
    with 2 assms show ?thesis
      by (simp add: WriteCompactSize_def ReadCompactSize_def reader_simps word_less_nat_alt
          word_le_nat_alt)
  next
    case 3
    then have "ucast (ucast n :: uint32) = n" using le by (intro ucast_ucast_id) simp
    with 3 assms le show ?thesis
      by (simp add: WriteCompactSize_def ReadCompactSize_def reader_simps word_less_nat_alt
          word_le_nat_alt)
  qed
qed


lemma WriteCompactSize_ReadCompactSize:
  assumes "ReadCompactSize s = Inr (n, t)"
  shows "s = WriteCompactSize n @ t \<and> n \<le> MAX_SIZE"
proof -
  from assms obtain c s' where c: "ser_readdata8 s = Inr (c, s')"
    and rest: "(if c < 253 then rreturn (ucast c)
        else if c = 253 then rbind ser_readdata16 (\<lambda>x. let nSizeRet = ucast x in
            if nSizeRet < 253 then rthrow NonCanonicalCompactSize else rreturn nSizeRet)
        else if c = 254 then rbind ser_readdata32 (\<lambda>x. let nSizeRet = ucast x in
            if nSizeRet < 0x10000 then rthrow NonCanonicalCompactSize else rreturn nSizeRet)
        else rbind ser_readdata64 (\<lambda>nSizeRet.
            if nSizeRet < 0x100000000 then rthrow NonCanonicalCompactSize
            else rreturn nSizeRet)) s' = Inr (n, t)"
    and bound: "n \<le> MAX_SIZE"
    unfolding ReadCompactSize_def
    by (auto elim!: rbind_eq_InrE split: if_splits)
  note s = ser8.enc_dec [OF c, THEN conjunct1]
  consider "c < 253" | "c = 253" | "c = 254" | "\<not> c < 253" "c \<noteq> 253" "c \<noteq> 254" by blast
  then show ?thesis
  proof cases
    case 1
    with rest have n: "n = ucast c" and "s' = t" by simp_all
    moreover have "unat n < 253"
      using 1 n by (simp add: word_less_nat_alt unat_ucast_up)
    moreover have "(ucast (ucast c :: uint64) :: byte) = c"
      by (intro ucast_ucast_id) (rule less_trans [OF unat_byte_lt], simp)
    ultimately show ?thesis using s bound
      by (simp add: WriteCompactSize_def word_less_nat_alt)
  next
    case 2
    with rest obtain x where x: "ser_readdata16 s' = Inr (x, t)" and n: "n = ucast x" and "\<not> n < 253"
      by (auto simp: Let_def elim!: rbind_eq_InrE split: if_splits)
    moreover have "n \<le> 0xFFFF"
      using unsigned_less [where ?'a = nat, of x] n by (simp add: word_le_nat_alt unat_ucast_up)
    moreover have "(ucast (ucast x :: uint64) :: uint16) = x"
      by (intro ucast_ucast_id) (rule less_trans [OF unsigned_less], simp)
    ultimately show ?thesis using s bound 2 ser16.enc_dec [OF x]
      by (simp add: WriteCompactSize_def)
  next
    case 3
    with rest obtain x where x: "ser_readdata32 s' = Inr (x, t)" and n: "n = ucast x"
      and big: "\<not> n < 0x10000"
      by (auto simp: Let_def elim!: rbind_eq_InrE split: if_splits)
    moreover have "n \<le> 0xFFFFFFFF"
      using unsigned_less [where ?'a = nat, of x] n by (simp add: word_le_nat_alt unat_ucast_up)
    moreover have "\<not> n < 253" "\<not> n \<le> 0xFFFF"
      using big by (simp_all add: word_less_nat_alt word_le_nat_alt)
    moreover have "(ucast (ucast x :: uint64) :: uint32) = x"
      by (intro ucast_ucast_id) (rule less_trans [OF unsigned_less], simp)
    ultimately show ?thesis using s bound 3 ser32.enc_dec [OF x]
      by (simp add: WriteCompactSize_def)
  next
    case 4
    with rest have "\<not> n < 0x100000000"
      by (auto elim!: rbind_eq_InrE split: if_splits)
    with bound have False
      by (simp add: MAX_SIZE_def word_less_nat_alt word_le_nat_alt)
    then show ?thesis ..
  qed
qed

interpretation cs: canonical_codec WriteCompactSize ReadCompactSize "\<lambda>n. n \<le> MAX_SIZE"
  by unfold_locales (auto simp: ReadCompactSize_WriteCompactSize dest: WriteCompactSize_ReadCompactSize)


section \<open>Variable-length integers: correctness\<close>

lemma and_0x7F_mask: "n AND 0x7F = take_bit 7 (n :: 'w::len word)"
proof -
  have "(0x7F :: 'w word) = mask 7" by (simp add: mask_eq_exp_minus_1)
  then show ?thesis by (simp add: take_bit_eq_mask)
qed

lemma unat_take_bit_7: "unat (take_bit 7 (n :: 'w::len word)) = unat n mod 128"
  by (simp only: unsigned_take_bit_eq) (simp add: take_bit_eq_mod)

lemma push_drop_take_7: "push_bit 7 (drop_bit 7 n) OR take_bit 7 n = (n :: 'w::len word)"
  by (rule bit_word_eqI) (auto simp: bit_simps)

text \<open>Reading back one written group restores the number before the shift.\<close>

lemma group_masked: "ucast (n AND 0x7F) AND 0x7F = (ucast (n AND 0x7F) :: byte)"
  for n :: "'w::len word"
  unfolding and_0x7F_mask by (rule bit_word_eqI) (auto simp: bit_simps)

lemma group_high_zero: "ucast (n AND 0x7F) AND 0x80 = (0 :: byte)"
  for n :: "'w::len word"
proof -
  have "ucast (n AND 0x7F) AND (0x80 :: byte) = ucast (n AND 0x7F) AND (0x7F AND 0x80)"
    by (simp only: group_masked and.assoc [symmetric])
  then show ?thesis by simp
qed

lemma group_or_cont:
  fixes n :: "'w::len word"
  shows "(ucast (n AND 0x7F) OR 0x80) AND 0x7F = (ucast (n AND 0x7F) :: byte)"
    and "(ucast (n AND 0x7F) OR 0x80) AND 0x80 \<noteq> (0 :: byte)"
  by (simp_all only: bit.conj_disj_distrib2 group_masked group_high_zero) simp_all

lemma ucast_group:
  fixes n :: "'w::len word"
  shows "ucast (ucast (n AND 0x7F) :: byte) = n AND 0x7F"
  unfolding and_0x7F_mask by (rule bit_word_eqI) (auto simp: bit_simps)

lemma drop_7_le_max: "\<not> drop_bit 7 (n :: 'w::len word) > drop_bit 7 (- 1)"
proof -
  have "unat n \<le> unat (- 1 :: 'w word)"
    by (simp add: word_le_nat_alt [symmetric])
  then have "unat n div 128 \<le> unat (- 1 :: 'w word) div 128"
    by (rule div_le_mono)
  then show ?thesis
    unfolding word_less_nat_alt unat_drop_bit_7 by simp
qed

lemma group_small:
  fixes n :: "'w::len word"
  assumes "unat n \<le> 0x7F"
  shows "n AND 0x7F = n"
  using assms by (intro word_unat_eq_iff [THEN iffD2]) (simp add: and_0x7F_mask unat_take_bit_7)

lemma join_group: "push_bit 7 (drop_bit 7 n) OR (n AND 0x7F) = n" for n :: "'w::len word"
  unfolding and_0x7F_mask by (rule push_drop_take_7)

lemma ReadVarInt_step_cont:
  fixes n :: "'w::len word"
  assumes "n \<noteq> - 1"
  shows "ReadVarInt_loop (drop_bit 7 n) ((ucast (n AND 0x7F) OR 0x80) # s) = ReadVarInt_loop (n + 1) s"
  using assms drop_7_le_max [of n]
  by (simp only: ReadVarInt_loop.simps Let_def group_or_cont ucast_group join_group if_False if_True simp_thms)

lemma ReadVarInt_step_last:
  fixes n :: "'w::len word"
  shows "ReadVarInt_loop (drop_bit 7 n) (ucast (n AND 0x7F) # s) = Inr (n, s)"
  using drop_7_le_max [of n]
  by (simp only: ReadVarInt_loop.simps Let_def group_masked group_high_zero ucast_group join_group
      if_False if_True simp_thms)


lemma ReadVarInt_cont:
  fixes n :: "'w::len word"
  assumes "n \<noteq> - 1" 
  shows "ReadVarInt_loop 0 (rev (varint_tmp True n) @ s) = ReadVarInt_loop (n + 1) s"
  using assms
proof (induction "True" n arbitrary: s rule: varint_tmp.induct)
  case (1 n)
  show ?case
  proof (cases "unat n \<le> 0x7F")
    case True
    then have "drop_bit 7 n = 0"
      by (intro word_unat_eq_iff [THEN iffD2]) (simp only: unat_drop_bit_7, simp)
    with ReadVarInt_step_cont [OF "1.prems", of s] True show ?thesis
      by (simp add: varint_tmp.simps [of True n])
  next
    case False
    have "unat (drop_bit 7 n - 1) < unat n"
      using False by (rule varint_step_less)
    then have "drop_bit 7 n - 1 \<noteq> - 1"
      by (metis word_le_nat_alt word_order.extremum not_le)
    then have "ReadVarInt_loop 0 (rev (varint_tmp True (drop_bit 7 n - 1)) @ t) =
        ReadVarInt_loop (drop_bit 7 n) t" for t
      using "1.hyps" [OF False, of t] by simp
    with ReadVarInt_step_cont [OF "1.prems", of s] False show ?thesis
      by (simp add: varint_tmp.simps [of True n])
  qed
qed

lemma ReadVarInt_WriteVarInt: "ReadVarInt (WriteVarInt n @ s) = Inr (n, s)"
proof (cases "unat n \<le> 0x7F")
  case True
  then have "drop_bit 7 n = 0"
    by (intro word_unat_eq_iff [THEN iffD2]) (simp only: unat_drop_bit_7, simp)
  with ReadVarInt_step_last [of n s] True show ?thesis
    by (simp add: ReadVarInt_def WriteVarInt_def varint_tmp.simps [of False n])
next
  case False
  have "unat (drop_bit 7 n - 1) < unat n"
    using False by (rule varint_step_less)
  then have "drop_bit 7 n - 1 \<noteq> - 1"
    by (metis word_le_nat_alt word_order.extremum not_le)
  from ReadVarInt_cont [OF this] ReadVarInt_step_last [of n s] False show ?thesis
    by (simp add: ReadVarInt_def WriteVarInt_def varint_tmp.simps [of False n])
qed

interpretation vi: codec WriteVarInt ReadVarInt "\<lambda>_. True"
  by unfold_locales (rule ReadVarInt_WriteVarInt)

text \<open>The buffer \<^verbatim>\<open>tmp[(sizeof(n)*8+6)/7]\<close> is large enough.\<close>

lemma length_varint_tmp: "128 ^ (length (varint_tmp c n) - 1) \<le> max 1 (unat n)"
proof (induction c n rule: varint_tmp.induct)
  case (1 c n)
  show ?case
  proof (cases "unat n \<le> 0x7F")
    case True
    then show ?thesis by (simp add: varint_tmp.simps [of c n])
  next
    case False
    let ?m = "drop_bit 7 n - 1"
    have "unat (drop_bit 7 n) \<noteq> 0"
      unfolding unat_drop_bit_7 using False by simp
    then have nz: "drop_bit 7 n \<noteq> 0" by auto
    have m: "unat ?m = unat n div 128 - 1"
      by (simp only: unat_minus_one [OF nz] unat_drop_bit_7)
    have "varint_tmp True ?m \<noteq> []"
      by (simp add: varint_tmp.simps [of True ?m])
    then have "128 ^ (length (varint_tmp c n) - 1) = 128 * 128 ^ (length (varint_tmp True ?m) - 1)"
      using False by (simp add: varint_tmp.simps [of c n] power_eq_if)
    also have "\<dots> \<le> 128 * max 1 (unat ?m)"
      using "1.IH" [OF False] by simp
    also have "\<dots> \<le> unat n"
      using False m by (auto simp: max_def)
    finally show ?thesis by simp
  qed
qed

lemma WriteVarInt_fits_buffer:
  fixes n :: "'w::len word"
  shows "length (WriteVarInt n) \<le> (LENGTH('w) + 6) div 7"
proof -
  let ?L = "length (varint_tmp False n) - 1"
  have "(128 :: nat) ^ ?L < 2 ^ LENGTH('w)"
    using length_varint_tmp [of False n] unsigned_less [where ?'a = nat, of n]
      one_less_power [of "2 :: nat" "LENGTH('w)"]
    by (auto simp: max_def split: if_splits intro: le_less_trans)
  then have "(2 :: nat) ^ (7 * ?L) < 2 ^ LENGTH('w)"
    by (simp add: power_mult)
  then have "7 * ?L < LENGTH('w)" by simp
  then show ?thesis by (simp add: WriteVarInt_def)
qed

lemma GetSizeOfVarInt_eq: "GetSizeOfVarInt n = length (WriteVarInt n)"
proof -
  have "GetSizeOfVarInt n = length (varint_tmp c n)" for c
    by (induction n arbitrary: c rule: GetSizeOfVarInt.induct)
      (simp add: GetSizeOfVarInt.simps varint_tmp.simps)
  then show ?thesis by (simp add: WriteVarInt_def)
qed

section \<open>Vectors: correctness\<close>

text \<open>Reading in blocks is reading at once.\<close>

lemma take_split: "m \<le> k \<Longrightarrow> take m s @ take (k - m) (drop m s) = take k s"
  by (metis le_add_diff_inverse take_add)

lemma read_blocks_stream_read: "read_blocks k s = stream_read k s"
proof (induction k s rule: read_blocks.induct)
  case (1 k s)
  show ?case
    by (subst read_blocks.simps) (use "1.IH" in \<open>auto simp: Let_def stream_read_def min_def take_split\<close>)
qed

definition size_ok :: "'a list \<Rightarrow> bool" where
  "size_ok v \<longleftrightarrow> length v \<le> unat MAX_SIZE"

lemma size_ok_unat: "size_ok v \<Longrightarrow> unat (of_nat (length v) :: uint64) = length v"
  by (simp add: size_ok_def MAX_SIZE_def unat_of_nat)

lemma size_ok_le: "size_ok v \<Longrightarrow> (of_nat (length v) :: uint64) \<le> MAX_SIZE"
  by (simp add: word_le_nat_alt size_ok_unat) (simp add: size_ok_def)

lemma unat_length_conv: "length v = unat (n :: uint64) \<Longrightarrow> of_nat (length v) = n"
  by simp

interpretation bytes_codec: canonical_codec Serialize_bytes Unserialize_bytes size_ok
proof
  fix x s
  assume "size_ok (x :: bytes)"
  then show "Unserialize_bytes (Serialize_bytes x @ s) = Inr (x, s)"
    by (simp add: Unserialize_bytes_def Serialize_bytes_def cs.dec_enc size_ok_le size_ok_unat
        read_blocks_stream_read stream_read_append)
next
  fix s x t
  assume "Unserialize_bytes s = Inr (x, t)"
  then obtain n s' where n: "ReadCompactSize s = Inr (n, s')" and "s' = x @ t" "length x = unat n"
    by (auto simp: Unserialize_bytes_def read_blocks_stream_read stream_read_Inr elim!: rbind_eq_InrE)
  with cs.enc_dec [OF n] show "s = Serialize_bytes x @ t \<and> size_ok x"
    by (simp add: Serialize_bytes_def size_ok_def word_le_nat_alt)
qed

context codec
begin

lemma vector_dec_enc:
  assumes "size_ok xs" and "list_all ok xs"
  shows "Unserialize_vector dec (Serialize_vector enc xs @ s) = Inr (xs, s)"
  using assms
  by (simp add: Unserialize_vector_def Serialize_vector_def cs.dec_enc size_ok_le size_ok_unat
      items_dec_enc)

end

context canonical_codec
begin

lemma vector_enc_dec:
  assumes "Unserialize_vector dec s = Inr (xs, t)"
  shows "s = Serialize_vector enc xs @ t \<and> size_ok xs \<and> list_all ok xs"
proof -
  from assms obtain n s' where n: "ReadCompactSize s = Inr (n, s')"
    and "read_items dec (unat n) s' = Inr (xs, t)"
    by (auto simp: Unserialize_vector_def elim!: rbind_eq_InrE)
  with cs.enc_dec [OF n] items_enc_dec show ?thesis
    by (fastforce simp: Serialize_vector_def size_ok_def word_le_nat_alt)
qed

end

section \<open>Variable-length integers have one encoding\<close>

lemma varint_join:
  fixes n :: "'w::len word"
  assumes "\<not> n > drop_bit 7 (- 1)" and "8 \<le> LENGTH('w)" and "n' = push_bit 7 n OR ucast (c AND 0x7F :: byte)"
  shows "drop_bit 7 n' = n" and "ucast (n' AND 0x7F) = c AND 0x7F"
proof -
  have "unat n \<le> unat (- 1 :: 'w word) div 128"
    using assms(1) unfolding word_less_nat_alt unat_drop_bit_7 by (simp only: not_less)
  also have "\<dots> \<le> (2 ^ LENGTH('w) - 1) div 128"
    using unsigned_less [where ?'a = nat, of "- 1 :: 'w word"] by (intro div_le_mono) linarith
  also have "(2 ^ LENGTH('w) - 1) div 128 < (2 :: nat) ^ (LENGTH('w) - 7)"
  proof -
    have "(2 :: nat) ^ LENGTH('w) = 2 ^ (LENGTH('w) - 7) * 128"
      using assms(2) power_add [of "2 :: nat" "LENGTH('w) - 7" 7] by simp
    then show ?thesis by (simp add: less_mult_imp_div_less)
  qed
  finally have "take_bit (LENGTH('w) - 7) n = n"
    by (intro word_unat_eq_iff [THEN iffD2]) (simp only: unsigned_take_bit_eq, simp add: take_bit_nat_eq_self)
  then have b: "bit n i \<Longrightarrow> i < LENGTH('w) - 7" for i
    by (metis bit_take_bit_iff)
  show "drop_bit 7 n' = n"
    unfolding assms(3) and_0x7F_mask
    by (rule bit_word_eqI) (auto simp: bit_simps dest: b)
  show "ucast (n' AND 0x7F) = c AND 0x7F"
    unfolding assms(3) and_0x7F_mask using assms(2)
    by (intro bit_word_eqI) (auto simp: bit_simps)
qed

text \<open>The groups that have been read when the loop is entered with \<open>n\<close>.\<close>

definition varint_prefix :: "'w::len word \<Rightarrow> bytes" where
  "varint_prefix n = (if n = 0 then [] else rev (varint_tmp True (n - 1)))"

lemma varint_tmp_join:
  fixes n :: "'w::len word"
  assumes "8 \<le> LENGTH('w)" and "drop_bit 7 n' = n" and "ucast (n' AND 0x7F) = c AND (0x7F :: byte)"
    and "k \<longleftrightarrow> c AND 0x80 \<noteq> 0"
  shows "rev (varint_tmp k n') = varint_prefix n @ [c]"
proof -
  have u: "unat n = unat n' div 128" using assms(2) unat_drop_bit_7 [of n'] by simp
  have c: "(c AND 0x7F) OR (if k then 0x80 else 0x00) = c"
  proof -
    have s: "c AND 0x80 = (if bit c 7 then 0x80 else 0)"
      by (rule bit_word_eqI) (auto simp: bit_simps numeral_eq_Suc less_Suc_eq)
    have "(c AND 0x7F) OR (c AND 0x80) = c AND (0x7F OR 0x80)" by (simp only: bit.conj_disj_distrib)
    also have "(0x7F OR 0x80 :: byte) = - 1" by code_simp
    finally show ?thesis using assms(4) s by (cases "bit c 7") auto
  qed
  have z: "n = 0 \<longleftrightarrow> unat n' \<le> 0x7F"
    using u by (auto simp: word_unat_eq_iff)
  show ?thesis
    by (subst varint_tmp.simps) (use assms(2,3) c z in \<open>auto simp: varint_prefix_def\<close>)
qed

lemma ReadVarInt_loop_canonical:
  fixes n :: "'w::len word"
  assumes "8 \<le> LENGTH('w)" and "ReadVarInt_loop n s = Inr (m, t)"
  shows "\<exists>p. s = p @ t \<and> WriteVarInt m = varint_prefix n @ p"
  using assms(2)
proof (induction n s rule: ReadVarInt_loop.induct)
  case (1 n)
  then show ?case by simp
next
  case (2 n c s)
  define n' where n': "n' = push_bit 7 n OR ucast (c AND 0x7F)"
  have le: "\<not> n > drop_bit 7 (- 1)" using "2.prems" by (auto split: if_splits)
  note j = varint_join [OF le assms(1) n']
  show ?case
  proof (cases "c AND 0x80 \<noteq> 0")
    case True
    then have "n' \<noteq> - 1" and rec: "ReadVarInt_loop (n' + 1) s = Inr (m, t)"
      using "2.prems" le n' by (auto simp: Let_def split: if_splits)
    from "2.IH" [OF le n' True this] obtain p where
      p: "s = p @ t" "WriteVarInt m = varint_prefix (n' + 1) @ p" by blast
    have "n' + 1 \<noteq> 0" using \<open>n' \<noteq> - 1\<close> by (metis add_eq_0_iff add.commute)
    then have "varint_prefix (n' + 1) = rev (varint_tmp True n')" by (simp add: varint_prefix_def)
    also have "\<dots> = varint_prefix n @ [c]"
      using True by (intro varint_tmp_join [OF assms(1) j]) simp
    finally show ?thesis using p by (intro exI [of _ "c # p"]) simp
  next
    case False
    then have "m = n'" "t = s" using "2.prems" le n' by (auto simp: Let_def)
    moreover have "rev (varint_tmp False n') = varint_prefix n @ [c]"
      using False by (intro varint_tmp_join [OF assms(1) j]) simp
    ultimately show ?thesis by (intro exI [of _ "[c]"]) (simp add: WriteVarInt_def)
  qed
qed

lemma WriteVarInt_ReadVarInt:
  fixes m :: "'w::len word"
  assumes "ReadVarInt s = Inr (m, t)" and "8 \<le> LENGTH('w)"
  shows "s = WriteVarInt m @ t"
  using ReadVarInt_loop_canonical [OF assms(2), of 0 s m t] assms(1)
  by (auto simp: ReadVarInt_def varint_prefix_def)

interpretation vi64: canonical_codec "WriteVarInt :: uint64 \<Rightarrow> bytes" ReadVarInt "\<lambda>_. True"
  by unfold_locales (simp_all add: WriteVarInt_ReadVarInt)

interpretation vi32: canonical_codec "WriteVarInt :: uint32 \<Rightarrow> bytes" ReadVarInt "\<lambda>_. True"
  by unfold_locales (simp_all add: WriteVarInt_ReadVarInt)

text \<open>
  Compact sizes are canonical: \<^verbatim>\<open>ReadCompactSize\<close> returns a size exactly when it is at most
  \<^verbatim>\<open>MAX_SIZE\<close> and the stream starts with the bytes \<^verbatim>\<open>WriteCompactSize\<close> writes for it; those
  are as many as \<^verbatim>\<open>GetSizeOfCompactSize\<close> says.
\<close>

theorem compact_size_canonical:
  "(ReadCompactSize s = Inr (n, t) \<longleftrightarrow> n \<le> MAX_SIZE \<and> s = WriteCompactSize n @ t) \<and>
   length (WriteCompactSize n) = GetSizeOfCompactSize n"
  using WriteCompactSize_ReadCompactSize [of s n t] ReadCompactSize_WriteCompactSize [of n t]
  by (auto simp: length_WriteCompactSize)

text \<open>
  Variable-length integers are a bijection, as the comment in \<^verbatim>\<open>serialize.h\<close> says: for every
  unsigned type of at least eight bits \<^verbatim>\<open>ReadVarInt\<close> returns \<open>n\<close> exactly when the stream
  starts with the encoding of \<open>n\<close>; that encoding has \<^verbatim>\<open>GetSizeOfVarInt\<close> bytes and fits the
  buffer \<^verbatim>\<open>tmp\<close> of \<^verbatim>\<open>WriteVarInt\<close>.
\<close>

theorem varint_bijective:
  fixes n :: "'w::len word"
  assumes "8 \<le> LENGTH('w)"
  shows "(ReadVarInt s = Inr (n, t) \<longleftrightarrow> s = WriteVarInt n @ t) \<and>
    length (WriteVarInt n) = GetSizeOfVarInt n \<and> length (WriteVarInt n) \<le> (LENGTH('w) + 6) div 7"
  using WriteVarInt_ReadVarInt [OF _ assms, of s n t] ReadVarInt_WriteVarInt [of n t]
    WriteVarInt_fits_buffer [of n] by (auto simp: GetSizeOfVarInt_eq)

theorem varint_bijective_witness:
  "ReadVarInt [0x82, 0xFE, 0x7F, 5] = Inr (65535 :: uint32, [5]) \<and>
   length (WriteVarInt (65535 :: uint32)) \<le> 5"
proof -
  have "WriteVarInt (65535 :: uint32) = [0x82, 0xFE, 0x7F]"
    by (simp add: WriteVarInt_def varint_tmp.simps drop_bit_eq_div)
  then show ?thesis
    using varint_bijective [of "[0x82, 0xFE, 0x7F, 5]" "65535 :: uint32" "[5]"] by simp
qed

end
