(* ===== verification/ScriptNum.thy ===== *)
theory ScriptNum
  imports Serialize
begin

text \<open>
  \<^verbatim>\<open>CScriptNum\<close> of \<^verbatim>\<open>src/script/script.h\<close>: the variable-length sign-magnitude
  numbers of the script machine. The stored value \<^verbatim>\<open>m_value\<close> is an \<open>int\<close> in the
  \<^verbatim>\<open>int64_t\<close> range; the byte loops are kept on 64-bit words, as in the code. The
  exception \<^verbatim>\<open>scriptnum_error\<close> is the error type.
\<close>

datatype scriptnum_error = ScriptNumOverflow | NonMinimalScriptNum | NegativeGasValue

definition nDefaultMaxNumSize :: nat where
  "nDefaultMaxNumSize = 4"

text \<open>\<^verbatim>\<open>std::numeric_limits<int64_t>\<close> and \<^verbatim>\<open>std::numeric_limits<int>\<close>.\<close>

definition int64_min :: int where "int64_min = - (2 ^ 63)"
definition int64_max :: int where "int64_max = 2 ^ 63 - 1"
definition int32_min :: int where "int32_min = - (2 ^ 31)"
definition int32_max :: int where "int32_max = 2 ^ 31 - 1"

section \<open>Decoding\<close>

text \<open>The loop \<^verbatim>\<open>result |= static_cast<int64_t>(vch[i]) << 8*i\<close>, from position \<open>i\<close> on.\<close>

fun or_bytes :: "nat \<Rightarrow> bytes \<Rightarrow> uint64 \<Rightarrow> uint64" where
  "or_bytes i [] result = result"
| "or_bytes i (b # vch) result = or_bytes (Suc i) vch (result OR push_bit (8 * i) (ucast b))"

definition set_vch :: "bytes \<Rightarrow> int" where
  "set_vch vch =
     (if vch = [] then 0
      else let result = or_bytes 0 vch 0 in
        if last vch AND 0x80 \<noteq> 0
        then - sint (result AND NOT (push_bit (8 * (length vch - 1)) 0x80))
        else sint result)"

text \<open>The constructor from a byte vector.\<close>

definition CScriptNum :: "bytes \<Rightarrow> bool \<Rightarrow> nat \<Rightarrow> scriptnum_error + int" where
  "CScriptNum vch fRequireMinimal nMaxNumSize =
     (if length vch > nMaxNumSize then Inl ScriptNumOverflow
      else if fRequireMinimal \<and> length vch > 0 \<and> last vch AND 0x7F = 0 \<and>
              (length vch \<le> 1 \<or> vch ! (length vch - 2) AND 0x80 = 0)
      then Inl NonMinimalScriptNum
      else Inr (set_vch vch))"

text \<open>Gas limits and gas prices of contract outputs are read as unsigned.\<close>

definition vch_to_uint64 :: "bytes \<Rightarrow> scriptnum_error + uint64" where
  "vch_to_uint64 vch =
     (if length vch > 8 then Inl ScriptNumOverflow
      else if vch = [] then Inr 0
      else let result = or_bytes 0 vch 0 in
        if last vch AND 0x80 \<noteq> 0 then Inl NegativeGasValue else Inr result)"

definition getint :: "int \<Rightarrow> int" where
  "getint m_value =
     (if m_value > int32_max then int32_max
      else if m_value < int32_min then int32_min
      else m_value)"

section \<open>Encoding\<close>

text \<open>The loop \<^verbatim>\<open>while(absvalue)\<close>.\<close>

fun abs_bytes :: "nat \<Rightarrow> bytes" where
  "abs_bytes absvalue =
     (if absvalue = 0 then [] else of_nat (absvalue mod 256) # abs_bytes (absvalue div 256))"

declare abs_bytes.simps [simp del]

definition serialize :: "int \<Rightarrow> bytes" where
  "serialize value =
     (if value = 0 then []
      else let neg = value < 0;
               result = abs_bytes (nat (if neg then - value else value))
        in if last result AND 0x80 \<noteq> 0 then result @ [if neg then 0x80 else 0]
           else if neg then butlast result @ [last result OR 0x80]
           else result)"

section \<open>Arithmetic\<close>

text \<open>
  The checked operators: an \<^verbatim>\<open>assert\<close> of the code that would fire is \<open>None\<close>. Plain
  \<^verbatim>\<open>operator+\<close> and \<^verbatim>\<open>operator-\<close> are unchecked in the code, so they are the integer
  operations wherever the result fits 64 bits.
\<close>

definition scriptnum_neg :: "int \<Rightarrow> int option" where
  "scriptnum_neg m_value = (if m_value \<noteq> int64_min then Some (- m_value) else None)"

definition scriptnum_plus_eq :: "int \<Rightarrow> int \<Rightarrow> int option" where
  "scriptnum_plus_eq m_value rhs =
     (if rhs = 0 \<or> (rhs > 0 \<and> m_value \<le> int64_max - rhs) \<or> (rhs < 0 \<and> m_value \<ge> int64_min - rhs)
      then Some (m_value + rhs) else None)"

definition scriptnum_minus_eq :: "int \<Rightarrow> int \<Rightarrow> int option" where
  "scriptnum_minus_eq m_value rhs =
     (if rhs = 0 \<or> (rhs > 0 \<and> m_value \<ge> int64_min + rhs) \<or> (rhs < 0 \<and> m_value \<le> int64_max + rhs)
      then Some (m_value - rhs) else None)"

section \<open>Sign bit and magnitude of a byte\<close>

lemma byte_sign_iff: "(t :: byte) AND 0x80 \<noteq> 0 \<longleftrightarrow> 128 \<le> unat t"
proof -
  have "(t AND 0x80 = 0) = (\<not> bit t 7)"
    using and_exp_eq_0_iff_not_bit [of t 7] by simp
  also have "bit t 7 \<longleftrightarrow> bit (unat t) 7"
    by (simp add: bit_unsigned_iff)
  also have "\<dots> \<longleftrightarrow> odd (unat t div 128)"
    unfolding bit_iff_odd by simp
  also have "\<dots> \<longleftrightarrow> 128 \<le> unat t"
  proof (cases "unat t < 128")
    case False
    then have "unat t div 128 = 1"
      using unat_byte_lt [of t] by (intro div_nat_eqI) (simp_all del: unat_byte_lt)
    with False show ?thesis by simp
  qed simp
  finally show ?thesis by blast
qed

lemma byte_magnitude: "unat ((t :: byte) AND 0x7F) = unat t mod 128"
  by (simp only: and_0x7F_mask unat_take_bit_7)

lemma byte_magnitude_sign: "((t :: byte) AND 0x7F) AND 0x80 = 0"
  by (simp add: and.assoc)

lemma byte_or_sign_unat: "(t :: byte) AND 0x80 = 0 \<Longrightarrow> unat (t OR 0x80) = unat t + 128"
proof -
  assume z: "t AND 0x80 = 0"
  then have "unat t < 128" using byte_sign_iff [of t] by auto
  then have "unat (t + 0x80) = unat t + 128"
    by (subst unat_add_lem [THEN iffD1]) simp_all
  with z show ?thesis by (simp only: disjunctive_add_eq_or)
qed

lemma byte_set_sign:
  assumes "(t :: byte) AND 0x80 \<noteq> 0"
  shows "(t AND 0x7F) OR 0x80 = t"
proof -
  have "128 \<le> unat t" using assms byte_sign_iff by blast
  then have "unat t mod 128 + 128 = unat t"
    using unat_byte_lt [of t] by (simp add: le_mod_geq del: unat_byte_lt)
  then have "unat ((t AND 0x7F) OR 0x80) = unat t"
    by (simp only: byte_or_sign_unat [OF byte_magnitude_sign] byte_magnitude)
  then show ?thesis by (simp only: word_unat_eq_iff)
qed

lemma byte_no_sign:
  assumes "(t :: byte) AND 0x80 = 0"
  shows "t AND 0x7F = t"
proof -
  have "unat t < 128" using assms byte_sign_iff [of t] by auto
  then have "unat (t AND 0x7F) = unat t"
    by (simp only: byte_magnitude mod_less)
  then show ?thesis by (simp only: word_unat_eq_iff)
qed

lemma byte_or_sign: "(t :: byte) AND 0x80 = 0 \<Longrightarrow> (t OR 0x80) AND 0x7F = t \<and> (t OR 0x80) AND 0x80 \<noteq> 0"
  by (simp add: bit.conj_disj_distrib2 byte_no_sign)

section \<open>The decoding loop is little-endian decoding\<close>

lemma or_bytes_snoc:
  "or_bytes i (vch @ [t]) r = or_bytes i vch r OR push_bit (8 * (i + length vch)) (ucast t)"
  by (induction vch arbitrary: i r) (simp_all add: algebra_simps)

lemma or_bytes_le_nat: "length vch \<le> 8 \<Longrightarrow> unat (or_bytes 0 vch 0) = le_nat vch"
proof (induction vch rule: rev_induct)
  case Nil
  then show ?case by simp
next
  case (snoc t vch)
  let ?k = "length vch" and ?r = "or_bytes 0 vch 0"
  have k: "?k \<le> 7" and r: "unat ?r = le_nat vch"
    using snoc by simp_all
  have pw: "(256 :: nat) ^ ?k = 2 ^ (8 * ?k)"
    by (simp add: power_mult)
  have lt: "unat ?r < 2 ^ (8 * ?k)"
    using le_nat_less [of vch] by (simp only: r pw)
  then have "take_bit (8 * ?k) ?r = ?r"
    by (intro word_unat_eq_iff [THEN iffD2]) (simp add: unsigned_take_bit_eq take_bit_nat_eq_self)
  then have "bit ?r n \<Longrightarrow> n < 8 * ?k" for n
    by (metis bit_take_bit_iff)
  then have "?r AND push_bit (8 * ?k) (ucast t :: uint64) = 0"
    by (intro bit_word_eqI) (fastforce simp: bit_and_iff bit_push_bit_iff)
  then have or: "?r OR push_bit (8 * ?k) (ucast t) = ?r + push_bit (8 * ?k) (ucast t)"
    by (simp only: disjunctive_add_eq_or)
  have "unat t * 2 ^ (8 * ?k) \<le> 255 * 2 ^ (8 * ?k)"
    using unat_byte_lt [of t] by (intro mult_le_mono1) linarith
  moreover have "(2 :: nat) ^ (8 * ?k) \<le> 72057594037927936"
    using k power_increasing [of "8 * ?k" 56 "2 :: nat"] by simp
  ultimately have "unat t * 2 ^ (8 * ?k) < 18446744073709551616"
    and "unat ?r + unat t * 2 ^ (8 * ?k) < 18446744073709551616"
    using lt by linarith+
  then have fits: "unat t * 2 ^ (8 * ?k) < 2 ^ 64" "unat ?r + unat t * 2 ^ (8 * ?k) < 2 ^ 64"
    by simp_all
  have push: "unat (push_bit (8 * ?k) (ucast t :: uint64)) = unat t * 2 ^ (8 * ?k)"
    using fits(1) by (simp only: unsigned_push_bit_eq)
      (simp add: push_bit_eq_mult unat_ucast_up take_bit_nat_eq_self)
  have "unat (or_bytes 0 (vch @ [t]) 0) = unat ?r + unat t * 2 ^ (8 * ?k)"
    unfolding or_bytes_snoc add_0 or using fits(2)
    by (subst unat_add_lem [THEN iffD1]) (simp_all only: push, simp)
  then show ?case
    by (simp add: le_nat_append r pw)
qed


section \<open>The reference semantics of script numbers\<close>

text \<open>
  A byte vector is a sign and a magnitude: the top bit of its last byte is the sign, the
  remaining bits are the little-endian magnitude. \<open>minimal\<close> is the well-formedness the
  constructor demands with \<^verbatim>\<open>fRequireMinimal\<close>.
\<close>

definition sm_value :: "bytes \<Rightarrow> int" where
  "sm_value vch =
     (if vch = [] then 0
      else let mag = int (le_nat (butlast vch @ [last vch AND 0x7F])) in
        if last vch AND 0x80 \<noteq> 0 then - mag else mag)"

definition minimal :: "bytes \<Rightarrow> bool" where
  "minimal vch \<longleftrightarrow> vch = [] \<or> last vch AND 0x7F \<noteq> 0 \<or>
     (2 \<le> length vch \<and> vch ! (length vch - 2) AND 0x80 \<noteq> 0)"

lemma clear_sign_bit:
  assumes "length m \<le> 7"
  shows "or_bytes 0 (m @ [t]) 0 AND NOT (push_bit (8 * length m) 0x80) =
    or_bytes 0 (m @ [t AND 0x7F]) 0"
proof -
  let ?k = "8 * length m" and ?r = "or_bytes 0 m 0"
  have "unat ?r < 2 ^ ?k"
    using assms le_nat_less [of m] by (simp add: or_bytes_le_nat power_mult)
  then have "take_bit ?k ?r = ?r"
    by (intro word_unat_eq_iff [THEN iffD2]) (simp add: unsigned_take_bit_eq take_bit_nat_eq_self)
  then have "bit ?r n \<Longrightarrow> n < ?k" for n
    by (metis bit_take_bit_iff)
  then have low: "?r AND NOT (push_bit ?k 0x80) = ?r"
    by (intro bit_word_eqI) (fastforce simp: bit_and_iff bit_not_iff bit_push_bit_iff)
  have "(ucast t :: uint64) AND NOT 0x80 = ucast (t AND NOT 0x80)"
    by (rule bit_word_eqI) (auto simp: bit_simps dest: bit_imp_le_length)
  also have "NOT 0x80 = (0x7F :: byte)" by code_simp
  finally have t: "(ucast t :: uint64) AND NOT 0x80 = ucast (t AND 0x7F)" .
  have "push_bit ?k a AND NOT (push_bit ?k b) = push_bit ?k (a AND NOT b)" for a b :: uint64
    by (rule bit_word_eqI) (auto simp: bit_and_iff bit_not_iff bit_push_bit_iff)
  note high = this [of "ucast t" "0x80", unfolded t]
  show ?thesis
    by (simp add: or_bytes_snoc bit.conj_disj_distrib2 low high)
qed


lemma sint_small: "unat (x :: uint64) < 2 ^ 63 \<Longrightarrow> sint x = int (unat x)"
proof -
  assume "unat x < 2 ^ 63"
  then have "int (unat x) < int (2 ^ 63)" by (simp only: of_nat_less_iff)
  then have "uint x < 2 ^ 63" by simp
  moreover have "- (2 ^ 63) \<le> uint x" by (rule order_trans [of _ 0]) simp_all
  ultimately have "signed_take_bit 63 (uint x) = uint x"
    by (intro signed_take_bit_int_eq_self)
  then show ?thesis by (simp add: sint_uint)
qed

lemma le_nat_magnitude_less:
  assumes "length m \<le> 7"
  shows "le_nat (m @ [t AND 0x7F]) < 2 ^ 63"
proof -
  have "unat t mod 128 \<le> 127"
    using mod_less_divisor [of 128 "unat t"] by linarith
  then have "le_nat (m @ [t AND 0x7F]) \<le> le_nat m + 256 ^ length m * 127"
    by (simp add: le_nat_append byte_magnitude)
  also have "\<dots> < 256 ^ length m * 128"
    using le_nat_less [of m] by linarith
  also have "\<dots> \<le> 256 ^ 7 * 128"
    using assms by (intro mult_le_mono1 power_increasing) auto
  finally show ?thesis by simp
qed

lemma set_vch_sm_value:
  assumes "length vch \<le> 8"
  shows "set_vch vch = sm_value vch"
proof (cases vch rule: rev_cases)
  case Nil
  then show ?thesis by (simp add: set_vch_def sm_value_def)
next
  case (snoc m t)
  with assms have m: "length m \<le> 7" by simp
  then have "unat (or_bytes 0 (m @ [t AND 0x7F]) 0) = le_nat (m @ [t AND 0x7F])"
    by (intro or_bytes_le_nat) simp
  then have mag: "sint (or_bytes 0 (m @ [t AND 0x7F]) 0) = int (le_nat (m @ [t AND 0x7F]))"
    using le_nat_magnitude_less [OF m, of t] sint_small by metis
  show ?thesis
  proof (cases "t AND 0x80 = 0")
    case True
    with mag snoc show ?thesis
      by (simp add: set_vch_def sm_value_def byte_no_sign)
  next
    case False
    with mag snoc clear_sign_bit [OF m, of t] show ?thesis
      by (simp add: set_vch_def sm_value_def Let_def)
  qed
qed

section \<open>Encoding: the digits of the magnitude\<close>

lemma le_nat_abs_bytes [simp]: "le_nat (abs_bytes k) = k"
  by (induction k rule: abs_bytes.induct) (subst abs_bytes.simps, simp)

lemma abs_bytes_eq_Nil [simp]: "abs_bytes k = [] \<longleftrightarrow> k = 0"
  by (subst abs_bytes.simps) simp

lemma of_nat_byte_eq_0: "k < 256 \<Longrightarrow> (of_nat k :: byte) = 0 \<longleftrightarrow> k = 0"
proof -
  assume "k < 256"
  then have "unat (of_nat k :: byte) = k" by (simp add: unat_of_nat)
  then show ?thesis by (simp only: word_unat_eq_iff unat_0)
qed

lemma last_abs_bytes: "k \<noteq> 0 \<Longrightarrow> last (abs_bytes k) \<noteq> 0"
proof (induction k rule: abs_bytes.induct)
  case (1 k)
  then show ?case
    by (subst abs_bytes.simps) (auto simp: of_nat_byte_eq_0)
qed

lemma le_nat_pos: "xs \<noteq> [] \<Longrightarrow> last xs \<noteq> 0 \<Longrightarrow> 0 < le_nat xs"
  by (induction xs) (auto simp: unat_gt_0 split: if_splits)

lemma abs_bytes_le_nat: "xs = [] \<or> last xs \<noteq> 0 \<Longrightarrow> abs_bytes (le_nat xs) = xs"
proof (induction xs)
  case Nil
  then show ?case by (simp add: abs_bytes.simps)
next
  case (Cons b bs)
  have "abs_bytes (le_nat bs) = bs"
    using Cons by (cases bs) auto
  moreover have "unat b + 256 * le_nat bs \<noteq> 0"
    using Cons.prems le_nat_pos [of "b # bs"] by simp
  ultimately show ?case
    by (subst abs_bytes.simps) simp
qed

lemma abs_bytes_length_bound: "k \<noteq> 0 \<Longrightarrow> 256 ^ (length (abs_bytes k) - 1) \<le> k"
proof (induction k rule: abs_bytes.induct)
  case (1 k)
  show ?case
  proof (cases "k div 256 = 0")
    case True
    with "1.prems" show ?thesis
      by (subst abs_bytes.simps) (simp add: abs_bytes.simps [of 0])
  next
    case False
    then have "256 * 256 ^ (length (abs_bytes (k div 256)) - 1) \<le> 256 * (k div 256)"
      using "1.IH" [OF "1.prems"] by simp
    also have "\<dots> \<le> k" by simp
    finally show ?thesis
      using False "1.prems" by (subst abs_bytes.simps) (simp add: power_eq_if)
  qed
qed


section \<open>Round trips\<close>

lemma sm_value_snoc:
  "sm_value (m @ [t]) =
     (if t AND 0x80 \<noteq> 0 then - int (le_nat (m @ [t AND 0x7F])) else int (le_nat (m @ [t])))"
  by (simp add: sm_value_def byte_no_sign)

lemma byte_zero_sign: "(0 :: byte) AND 0x80 = 0" "(0x80 :: byte) AND 0x80 \<noteq> 0" "(0x80 :: byte) AND 0x7F = 0"
  by simp_all

text \<open>The three shapes \<^verbatim>\<open>serialize\<close> can return for a non-zero value.\<close>

lemma serialize_cases:
  assumes "value \<noteq> 0"
  obtains (extend) m where "serialize value = m @ [if value < 0 then 0x80 else 0]"
      and "m \<noteq> []" and "last m AND 0x80 \<noteq> 0" and "le_nat m = nat \<bar>value\<bar>"
  | (in_place) m t where "serialize value = m @ [if value < 0 then t OR 0x80 else t]"
      and "t AND 0x80 = 0" and "t \<noteq> 0" and "le_nat (m @ [t]) = nat \<bar>value\<bar>"
proof -
  let ?r = "abs_bytes (nat (if value < 0 then - value else value))"
  have mag: "le_nat ?r = nat \<bar>value\<bar>" by simp
  have "nat (if value < 0 then - value else value) \<noteq> 0" using assms by simp
  then have nz: "?r \<noteq> []" "last ?r \<noteq> 0" by (simp, rule last_abs_bytes)
  show thesis
  proof (cases "last ?r AND 0x80 = 0")
    case False
    with assms nz mag show thesis
      by (intro extend [of ?r]) (simp_all add: serialize_def Let_def)
  next
    case True
    have "butlast ?r @ [last ?r] = ?r" using nz(1) by simp
    with assms True nz mag show thesis
      by (intro in_place [of "butlast ?r" "last ?r"]) (simp_all add: serialize_def Let_def)
  qed
qed

lemma sm_value_serialize: "sm_value (serialize value) = value"
proof (cases "value = 0")
  case True
  then show ?thesis by (simp add: serialize_def sm_value_def)
next
  case False
  then show ?thesis
  proof (cases rule: serialize_cases)
    case (extend m)
    then show ?thesis
      by (simp add: sm_value_snoc byte_zero_sign le_nat_append)
  next
    case (in_place m t)
    then show ?thesis
      by (simp add: sm_value_snoc byte_or_sign)
  qed
qed

lemma minimal_serialize: "minimal (serialize value)"
proof (cases "value = 0")
  case True
  then show ?thesis by (simp add: serialize_def minimal_def)
next
  case False
  then show ?thesis
  proof (cases rule: serialize_cases)
    case (extend m)
    then have "2 \<le> length (serialize value)"
      by (simp add: Suc_le_eq)
    moreover have "serialize value ! (length (serialize value) - 2) = last m"
      using extend by (simp add: nth_append last_conv_nth)
    ultimately show ?thesis using extend by (simp add: minimal_def)
  next
    case (in_place m t)
    then show ?thesis by (simp add: minimal_def byte_or_sign byte_no_sign)
  qed
qed

lemma serialize_sm_value:
  assumes "minimal vch"
  shows "serialize (sm_value vch) = vch"
proof (cases vch rule: rev_cases)
  case Nil
  then show ?thesis by (simp add: sm_value_def serialize_def)
next
  case (snoc m t)
  show ?thesis
  proof (cases "t AND 0x7F = 0")
    case True
    then have m: "m \<noteq> []" "last m AND 0x80 \<noteq> 0"
      using assms snoc by (auto simp: minimal_def nth_append last_conv_nth Suc_le_eq)
    then have lm: "last m \<noteq> 0" by auto
    have mag: "abs_bytes (le_nat (m @ [0])) = m"
      using abs_bytes_le_nat [of m] lm by (simp add: le_nat_append)
    have pos: "0 < le_nat (m @ [0])"
      using le_nat_pos [OF m(1) lm] by (simp add: le_nat_append)
    consider "t = 0" | "t = 0x80"
      using True byte_no_sign [of t] byte_set_sign [of t] by fastforce
    then show ?thesis
      by cases (use m mag pos snoc in \<open>simp_all add: sm_value_snoc serialize_def Let_def byte_zero_sign\<close>)
  next
    case False
    let ?u = "t AND 0x7F"
    have mag: "abs_bytes (le_nat (m @ [?u])) = m @ [?u]"
      using False by (intro abs_bytes_le_nat) simp
    have pos: "0 < le_nat (m @ [?u])"
      using False by (intro le_nat_pos) simp_all
    show ?thesis
    proof (cases "t AND 0x80 = 0")
      case True
      with mag pos snoc show ?thesis
        by (simp add: sm_value_snoc serialize_def Let_def byte_no_sign)
    next
      case False
      with mag pos snoc show ?thesis
        by (simp add: sm_value_snoc serialize_def Let_def byte_magnitude_sign byte_set_sign)
    qed
  qed
qed


section \<open>The constructor\<close>

lemma CScriptNum_minimal:
  assumes "nMaxNumSize \<le> 8"
  shows "CScriptNum vch True nMaxNumSize =
    (if length vch > nMaxNumSize then Inl ScriptNumOverflow
     else if \<not> minimal vch then Inl NonMinimalScriptNum
     else Inr (sm_value vch))"
  using assms by (auto simp: CScriptNum_def minimal_def set_vch_sm_value Suc_le_eq)

lemma CScriptNum_InrD:
  assumes "CScriptNum vch fRequireMinimal nMaxNumSize = Inr v" and "nMaxNumSize \<le> 8"
  shows "v = sm_value vch" and "length vch \<le> nMaxNumSize"
  using assms by (auto simp: CScriptNum_def set_vch_sm_value split: if_splits)

lemma sm_value_bound:
  assumes "length vch \<le> k" and "0 < k"
  shows "\<bar>sm_value vch\<bar> < 2 ^ (8 * k - 1)"
proof (cases vch rule: rev_cases)
  case Nil
  then show ?thesis by (simp add: sm_value_def)
next
  case (snoc m t)
  have "unat t mod 128 \<le> 127"
    using mod_less_divisor [of 128 "unat t"] by linarith
  then have "le_nat (m @ [t AND 0x7F]) \<le> le_nat m + 256 ^ length m * 127"
    by (simp add: le_nat_append byte_magnitude)
  also have "\<dots> < 256 ^ length m * 128"
    using le_nat_less [of m] by linarith
  also have "(256 :: nat) ^ length m * 128 = 2 ^ (8 * length m + 7)"
    by (simp add: power_add power_mult)
  also have "\<dots> \<le> 2 ^ (8 * k - 1)"
    using assms snoc by (intro power_increasing) auto
  finally have "int (le_nat (m @ [t AND 0x7F])) < int (2 ^ (8 * k - 1))"
    by (simp only: of_nat_less_iff)
  then have "int (le_nat (m @ [t AND 0x7F])) < 2 ^ (8 * k - 1)"
    by simp
  then show ?thesis
    unfolding snoc sm_value_snoc by (auto simp: byte_no_sign)
qed

lemma length_serialize_le:
  assumes "\<bar>v\<bar> < 2 ^ (8 * k - 1)" and "0 < k"
  shows "length (serialize v) \<le> k"
proof (cases "v = 0")
  case True
  then show ?thesis by (simp add: serialize_def)
next
  case False
  have nat: "nat \<bar>v\<bar> < 2 ^ (8 * k - 1)"
    using assms(1) by (simp add: nat_less_iff)
  from False show ?thesis
  proof (cases rule: serialize_cases)
    case (extend m)
    have "le_nat m = le_nat (butlast m) + 256 ^ (length m - 1) * unat (last m)"
      using extend(2) le_nat_append [of "butlast m" "[last m]"] by simp
    moreover have "128 \<le> unat (last m)" using extend(3) byte_sign_iff by blast
    then have "256 ^ (length m - 1) * 128 \<le> 256 ^ (length m - 1) * unat (last m)"
      by (intro mult_le_mono2)
    ultimately have "256 ^ (length m - 1) * 128 \<le> le_nat m" by linarith
    then have "256 ^ (length m - 1) * 128 < (2 :: nat) ^ (8 * k - 1)"
      using nat extend(4) by linarith
    then have "(2 :: nat) ^ (8 * (length m - 1) + 7) < 2 ^ (8 * k - 1)"
      by (simp add: power_add power_mult)
    then have "8 * (length m - 1) + 7 < 8 * k - 1" by simp
    then show ?thesis using extend by simp
  next
    case (in_place m t)
    have "1 \<le> unat t" using in_place(3) by (simp add: Suc_le_eq unat_gt_0)
    then have "256 ^ length m * 1 \<le> le_nat (m @ [t])"
      by (simp only: le_nat_append) (simp add: trans_le_add2)
    then have "256 ^ length m < (2 :: nat) ^ (8 * k - 1)"
      using nat in_place(4) by linarith
    then have "(2 :: nat) ^ (8 * length m) < 2 ^ (8 * k - 1)"
      by (simp add: power_mult)
    then have "8 * length m < 8 * k - 1" by simp
    then show ?thesis using in_place by simp
  qed
qed

lemma CScriptNum_serialize:
  assumes "0 < k" and "k \<le> 8" and "\<bar>v\<bar> < 2 ^ (8 * k - 1)"
  shows "CScriptNum (serialize v) fRequireMinimal k = Inr v"
proof -
  have len: "length (serialize v) \<le> k"
    using assms by (intro length_serialize_le)
  have "CScriptNum (serialize v) True k = Inr v"
    using len assms(2) by (simp add: CScriptNum_minimal minimal_serialize sm_value_serialize)
  moreover have "CScriptNum (serialize v) False k = Inr v"
    using len assms(2) by (simp add: CScriptNum_def set_vch_sm_value sm_value_serialize)
  ultimately show ?thesis by (cases fRequireMinimal) simp_all
qed

text \<open>
  Script numbers round-trip: every value of at most \<open>k\<close> bytes (\<open>k \<le> 8\<close>, the widths
  the code uses are 4, 5 and 8) is encoded by \<^verbatim>\<open>serialize\<close> in at most \<open>k\<close> bytes, and
  the constructor reads it back with or without the minimality requirement.
\<close>

theorem scriptnum_roundtrip:
  assumes "0 < k" and "k \<le> 8" and "\<bar>v\<bar> < 2 ^ (8 * k - 1)"
  shows "CScriptNum (serialize v) fRequireMinimal k = Inr v"
  using assms by (rule CScriptNum_serialize)

theorem scriptnum_roundtrip_witness:
  "(0::nat) < 4 \<and> (4::nat) \<le> 8 \<and> \<bar>- 255 :: int\<bar> < 2 ^ (8 * 4 - 1) \<and>
   CScriptNum (serialize (- 255)) True 4 = Inr (- 255)"
  using scriptnum_roundtrip [of 4 "- 255" True] by simp

text \<open>
  Minimally encoded script numbers are not malleable: when the constructor accepts a
  byte vector under \<^verbatim>\<open>fRequireMinimal\<close>, that vector is the one \<^verbatim>\<open>serialize\<close> produces
  for the value, and the value is in the symmetric range of the accepted width.
\<close>

theorem scriptnum_unique_encoding:
  assumes "CScriptNum vch True k = Inr v" and "0 < k" and "k \<le> 8"
  shows "serialize v = vch \<and> \<bar>v\<bar> < 2 ^ (8 * k - 1)"
proof -
  from assms have "minimal vch" and v: "v = sm_value vch" and len: "length vch \<le> k"
    by (auto simp: CScriptNum_minimal split: if_splits)
  then show ?thesis
    using serialize_sm_value sm_value_bound [OF len assms(2)] by simp
qed

theorem scriptnum_unique_encoding_witness:
  "CScriptNum [0xFF, 0x80] True 4 = Inr (- 255) \<and>
   serialize (- 255) = [0xFF, 0x80] \<and> \<bar>- 255 :: int\<bar> < 2 ^ (8 * 4 - 1)"
proof -
  have h: "CScriptNum [0xFF, 0x80] True 4 = Inr (- 255)"
    by (simp add: CScriptNum_def set_vch_def)
  show ?thesis using h scriptnum_unique_encoding [OF h] by simp
qed

end
