(* ===== verification/Script.thy ===== *)
theory Script
  imports ScriptNum
begin

text \<open>
  \<^verbatim>\<open>CScript\<close> (\<^verbatim>\<open>src/script/script.h\<close>, \<^verbatim>\<open>src/script/script.cpp\<close>): a script is its byte
  string, a \<^verbatim>\<open>const_iterator\<close> into it is the suffix from that position to the end (so
  \<^verbatim>\<open>end - pc\<close> is the length of the suffix). The opcode reader, the push operators, the
  signature-operation counters, the template tests and the contract parameter accessors
  of the code are below, one definition each.
\<close>

section \<open>Limits and opcodes\<close>

type_synonym opcodetype = byte
type_synonym valtype = bytes
type_synonym cscript = bytes

definition MAX_SCRIPT_ELEMENT_SIZE :: nat where "MAX_SCRIPT_ELEMENT_SIZE = 128000"
definition MAX_OPS_PER_SCRIPT :: nat where "MAX_OPS_PER_SCRIPT = 201"
definition MAX_PUBKEYS_PER_MULTISIG :: nat where "MAX_PUBKEYS_PER_MULTISIG = 20"
definition MAX_SCRIPT_SIZE :: nat where "MAX_SCRIPT_SIZE = 129000"
definition MAX_STACK_SIZE :: nat where "MAX_STACK_SIZE = 1000"
definition LOCKTIME_THRESHOLD :: int where "LOCKTIME_THRESHOLD = 500000000"

abbreviation OP_0 :: byte where "OP_0 \<equiv> 0x00"
abbreviation OP_FALSE :: byte where "OP_FALSE \<equiv> 0x00"
abbreviation OP_PUSHDATA1 :: byte where "OP_PUSHDATA1 \<equiv> 0x4c"
abbreviation OP_PUSHDATA2 :: byte where "OP_PUSHDATA2 \<equiv> 0x4d"
abbreviation OP_PUSHDATA4 :: byte where "OP_PUSHDATA4 \<equiv> 0x4e"
abbreviation OP_1NEGATE :: byte where "OP_1NEGATE \<equiv> 0x4f"
abbreviation OP_RESERVED :: byte where "OP_RESERVED \<equiv> 0x50"
abbreviation OP_1 :: byte where "OP_1 \<equiv> 0x51"
abbreviation OP_TRUE :: byte where "OP_TRUE \<equiv> 0x51"
abbreviation OP_2 :: byte where "OP_2 \<equiv> 0x52"
abbreviation OP_3 :: byte where "OP_3 \<equiv> 0x53"
abbreviation OP_4 :: byte where "OP_4 \<equiv> 0x54"
abbreviation OP_5 :: byte where "OP_5 \<equiv> 0x55"
abbreviation OP_6 :: byte where "OP_6 \<equiv> 0x56"
abbreviation OP_7 :: byte where "OP_7 \<equiv> 0x57"
abbreviation OP_8 :: byte where "OP_8 \<equiv> 0x58"
abbreviation OP_9 :: byte where "OP_9 \<equiv> 0x59"
abbreviation OP_10 :: byte where "OP_10 \<equiv> 0x5a"
abbreviation OP_11 :: byte where "OP_11 \<equiv> 0x5b"
abbreviation OP_12 :: byte where "OP_12 \<equiv> 0x5c"
abbreviation OP_13 :: byte where "OP_13 \<equiv> 0x5d"
abbreviation OP_14 :: byte where "OP_14 \<equiv> 0x5e"
abbreviation OP_15 :: byte where "OP_15 \<equiv> 0x5f"
abbreviation OP_16 :: byte where "OP_16 \<equiv> 0x60"
abbreviation OP_NOP :: byte where "OP_NOP \<equiv> 0x61"
abbreviation OP_VER :: byte where "OP_VER \<equiv> 0x62"
abbreviation OP_IF :: byte where "OP_IF \<equiv> 0x63"
abbreviation OP_NOTIF :: byte where "OP_NOTIF \<equiv> 0x64"
abbreviation OP_VERIF :: byte where "OP_VERIF \<equiv> 0x65"
abbreviation OP_VERNOTIF :: byte where "OP_VERNOTIF \<equiv> 0x66"
abbreviation OP_ELSE :: byte where "OP_ELSE \<equiv> 0x67"
abbreviation OP_ENDIF :: byte where "OP_ENDIF \<equiv> 0x68"
abbreviation OP_VERIFY :: byte where "OP_VERIFY \<equiv> 0x69"
abbreviation OP_RETURN :: byte where "OP_RETURN \<equiv> 0x6a"
abbreviation OP_TOALTSTACK :: byte where "OP_TOALTSTACK \<equiv> 0x6b"
abbreviation OP_FROMALTSTACK :: byte where "OP_FROMALTSTACK \<equiv> 0x6c"
abbreviation OP_2DROP :: byte where "OP_2DROP \<equiv> 0x6d"
abbreviation OP_2DUP :: byte where "OP_2DUP \<equiv> 0x6e"
abbreviation OP_3DUP :: byte where "OP_3DUP \<equiv> 0x6f"
abbreviation OP_2OVER :: byte where "OP_2OVER \<equiv> 0x70"
abbreviation OP_2ROT :: byte where "OP_2ROT \<equiv> 0x71"
abbreviation OP_2SWAP :: byte where "OP_2SWAP \<equiv> 0x72"
abbreviation OP_IFDUP :: byte where "OP_IFDUP \<equiv> 0x73"
abbreviation OP_DEPTH :: byte where "OP_DEPTH \<equiv> 0x74"
abbreviation OP_DROP :: byte where "OP_DROP \<equiv> 0x75"
abbreviation OP_DUP :: byte where "OP_DUP \<equiv> 0x76"
abbreviation OP_NIP :: byte where "OP_NIP \<equiv> 0x77"
abbreviation OP_OVER :: byte where "OP_OVER \<equiv> 0x78"
abbreviation OP_PICK :: byte where "OP_PICK \<equiv> 0x79"
abbreviation OP_ROLL :: byte where "OP_ROLL \<equiv> 0x7a"
abbreviation OP_ROT :: byte where "OP_ROT \<equiv> 0x7b"
abbreviation OP_SWAP :: byte where "OP_SWAP \<equiv> 0x7c"
abbreviation OP_TUCK :: byte where "OP_TUCK \<equiv> 0x7d"
abbreviation OP_CAT :: byte where "OP_CAT \<equiv> 0x7e"
abbreviation OP_SUBSTR :: byte where "OP_SUBSTR \<equiv> 0x7f"
abbreviation OP_LEFT :: byte where "OP_LEFT \<equiv> 0x80"
abbreviation OP_RIGHT :: byte where "OP_RIGHT \<equiv> 0x81"
abbreviation OP_SIZE :: byte where "OP_SIZE \<equiv> 0x82"
abbreviation OP_INVERT :: byte where "OP_INVERT \<equiv> 0x83"
abbreviation OP_AND :: byte where "OP_AND \<equiv> 0x84"
abbreviation OP_OR :: byte where "OP_OR \<equiv> 0x85"
abbreviation OP_XOR :: byte where "OP_XOR \<equiv> 0x86"
abbreviation OP_EQUAL :: byte where "OP_EQUAL \<equiv> 0x87"
abbreviation OP_EQUALVERIFY :: byte where "OP_EQUALVERIFY \<equiv> 0x88"
abbreviation OP_RESERVED1 :: byte where "OP_RESERVED1 \<equiv> 0x89"
abbreviation OP_RESERVED2 :: byte where "OP_RESERVED2 \<equiv> 0x8a"
abbreviation OP_1ADD :: byte where "OP_1ADD \<equiv> 0x8b"
abbreviation OP_1SUB :: byte where "OP_1SUB \<equiv> 0x8c"
abbreviation OP_2MUL :: byte where "OP_2MUL \<equiv> 0x8d"
abbreviation OP_2DIV :: byte where "OP_2DIV \<equiv> 0x8e"
abbreviation OP_NEGATE :: byte where "OP_NEGATE \<equiv> 0x8f"
abbreviation OP_ABS :: byte where "OP_ABS \<equiv> 0x90"
abbreviation OP_NOT :: byte where "OP_NOT \<equiv> 0x91"
abbreviation OP_0NOTEQUAL :: byte where "OP_0NOTEQUAL \<equiv> 0x92"
abbreviation OP_ADD :: byte where "OP_ADD \<equiv> 0x93"
abbreviation OP_SUB :: byte where "OP_SUB \<equiv> 0x94"
abbreviation OP_MUL :: byte where "OP_MUL \<equiv> 0x95"
abbreviation OP_DIV :: byte where "OP_DIV \<equiv> 0x96"
abbreviation OP_MOD :: byte where "OP_MOD \<equiv> 0x97"
abbreviation OP_LSHIFT :: byte where "OP_LSHIFT \<equiv> 0x98"
abbreviation OP_RSHIFT :: byte where "OP_RSHIFT \<equiv> 0x99"
abbreviation OP_BOOLAND :: byte where "OP_BOOLAND \<equiv> 0x9a"
abbreviation OP_BOOLOR :: byte where "OP_BOOLOR \<equiv> 0x9b"
abbreviation OP_NUMEQUAL :: byte where "OP_NUMEQUAL \<equiv> 0x9c"
abbreviation OP_NUMEQUALVERIFY :: byte where "OP_NUMEQUALVERIFY \<equiv> 0x9d"
abbreviation OP_NUMNOTEQUAL :: byte where "OP_NUMNOTEQUAL \<equiv> 0x9e"
abbreviation OP_LESSTHAN :: byte where "OP_LESSTHAN \<equiv> 0x9f"
abbreviation OP_GREATERTHAN :: byte where "OP_GREATERTHAN \<equiv> 0xa0"
abbreviation OP_LESSTHANOREQUAL :: byte where "OP_LESSTHANOREQUAL \<equiv> 0xa1"
abbreviation OP_GREATERTHANOREQUAL :: byte where "OP_GREATERTHANOREQUAL \<equiv> 0xa2"
abbreviation OP_MIN :: byte where "OP_MIN \<equiv> 0xa3"
abbreviation OP_MAX :: byte where "OP_MAX \<equiv> 0xa4"
abbreviation OP_WITHIN :: byte where "OP_WITHIN \<equiv> 0xa5"
abbreviation OP_RIPEMD160 :: byte where "OP_RIPEMD160 \<equiv> 0xa6"
abbreviation OP_SHA1 :: byte where "OP_SHA1 \<equiv> 0xa7"
abbreviation OP_SHA256 :: byte where "OP_SHA256 \<equiv> 0xa8"
abbreviation OP_HASH160 :: byte where "OP_HASH160 \<equiv> 0xa9"
abbreviation OP_HASH256 :: byte where "OP_HASH256 \<equiv> 0xaa"
abbreviation OP_CODESEPARATOR :: byte where "OP_CODESEPARATOR \<equiv> 0xab"
abbreviation OP_CHECKSIG :: byte where "OP_CHECKSIG \<equiv> 0xac"
abbreviation OP_CHECKSIGVERIFY :: byte where "OP_CHECKSIGVERIFY \<equiv> 0xad"
abbreviation OP_CHECKMULTISIG :: byte where "OP_CHECKMULTISIG \<equiv> 0xae"
abbreviation OP_CHECKMULTISIGVERIFY :: byte where "OP_CHECKMULTISIGVERIFY \<equiv> 0xaf"
abbreviation OP_NOP1 :: byte where "OP_NOP1 \<equiv> 0xb0"
abbreviation OP_CHECKLOCKTIMEVERIFY :: byte where "OP_CHECKLOCKTIMEVERIFY \<equiv> 0xb1"
abbreviation OP_NOP2 :: byte where "OP_NOP2 \<equiv> 0xb1"
abbreviation OP_CHECKSEQUENCEVERIFY :: byte where "OP_CHECKSEQUENCEVERIFY \<equiv> 0xb2"
abbreviation OP_NOP3 :: byte where "OP_NOP3 \<equiv> 0xb2"
abbreviation OP_NOP4 :: byte where "OP_NOP4 \<equiv> 0xb3"
abbreviation OP_NOP5 :: byte where "OP_NOP5 \<equiv> 0xb4"
abbreviation OP_NOP6 :: byte where "OP_NOP6 \<equiv> 0xb5"
abbreviation OP_NOP7 :: byte where "OP_NOP7 \<equiv> 0xb6"
abbreviation OP_NOP8 :: byte where "OP_NOP8 \<equiv> 0xb7"
abbreviation OP_NOP9 :: byte where "OP_NOP9 \<equiv> 0xb8"
abbreviation OP_NOP10 :: byte where "OP_NOP10 \<equiv> 0xb9"
abbreviation OP_CREATE :: byte where "OP_CREATE \<equiv> 0xc1"
abbreviation OP_CALL :: byte where "OP_CALL \<equiv> 0xc2"
abbreviation OP_SPEND :: byte where "OP_SPEND \<equiv> 0xc3"
abbreviation OP_COINSTAKE_CALL :: byte where "OP_COINSTAKE_CALL \<equiv> 0xc4"
abbreviation OP_SENDER :: byte where "OP_SENDER \<equiv> 0xc5"
abbreviation OP_ADDRESS_TYPE :: byte where "OP_ADDRESS_TYPE \<equiv> 0xf2"
abbreviation OP_ADDRESS :: byte where "OP_ADDRESS \<equiv> 0xf3"
abbreviation OP_SCRIPT_SIG :: byte where "OP_SCRIPT_SIG \<equiv> 0xf4"
abbreviation OP_GAS_PRICE :: byte where "OP_GAS_PRICE \<equiv> 0xf5"
abbreviation OP_VERSION :: byte where "OP_VERSION \<equiv> 0xf6"
abbreviation OP_GAS_LIMIT :: byte where "OP_GAS_LIMIT \<equiv> 0xf7"
abbreviation OP_DATA :: byte where "OP_DATA \<equiv> 0xf8"
abbreviation OP_SMALLINTEGER :: byte where "OP_SMALLINTEGER \<equiv> 0xfa"
abbreviation OP_PUBKEYS :: byte where "OP_PUBKEYS \<equiv> 0xfb"
abbreviation OP_PUBKEYHASH :: byte where "OP_PUBKEYHASH \<equiv> 0xfd"
abbreviation OP_PUBKEY :: byte where "OP_PUBKEY \<equiv> 0xfe"
abbreviation OP_INVALIDOPCODE :: byte where "OP_INVALIDOPCODE \<equiv> 0xff"
abbreviation MAX_OPCODE :: byte where "MAX_OPCODE \<equiv> OP_NOP10"

section \<open>Reading one instruction\<close>

text \<open>
  \<^verbatim>\<open>GetScriptOp\<close> with all its outputs: the return value, \<^verbatim>\<open>opcodeRet\<close>, \<^verbatim>\<open>*pvchRet\<close> and
  the iterator \<^verbatim>\<open>pc\<close>, which has moved past the bytes looked at even when it returns
  false. \<open>push_size\<close> is the branch that finds the size of an immediate operand; \<open>Inl\<close> is
  its early return.
\<close>

definition push_size :: "opcodetype \<Rightarrow> cscript \<Rightarrow> cscript + (nat \<times> cscript)" where
  "push_size opcode pc =
     (if opcode < OP_PUSHDATA1 then Inr (unat opcode, pc)
      else if opcode = OP_PUSHDATA1 then
        (if length pc < 1 then Inl pc else Inr (le_nat (take 1 pc), drop 1 pc))
      else if opcode = OP_PUSHDATA2 then
        (if length pc < 2 then Inl pc else Inr (le_nat (take 2 pc), drop 2 pc))
      else
        (if length pc < 4 then Inl pc else Inr (le_nat (take 4 pc), drop 4 pc)))"

definition GetScriptOp :: "cscript \<Rightarrow> bool \<times> opcodetype \<times> valtype \<times> cscript" where
  "GetScriptOp pc =
     (case pc of
        [] \<Rightarrow> (False, OP_INVALIDOPCODE, [], pc)
      | opcode # pc1 \<Rightarrow>
          if opcode \<le> OP_PUSHDATA4 then
            (case push_size opcode pc1 of
               Inl pc2 \<Rightarrow> (False, OP_INVALIDOPCODE, [], pc2)
             | Inr (nSize, pc2) \<Rightarrow>
                 if length pc2 < nSize then (False, OP_INVALIDOPCODE, [], pc2)
                 else (True, opcode, take nSize pc2, drop nSize pc2))
          else (True, opcode, [], pc1))"

text \<open>\<^verbatim>\<open>CScript::GetOp\<close> as the loops use it: nothing when it returns false.\<close>

definition GetOp :: "cscript \<Rightarrow> (opcodetype \<times> valtype \<times> cscript) option" where
  "GetOp pc = (case GetScriptOp pc of
     (True, opcode, vch, pc') \<Rightarrow> Some (opcode, vch, pc') | _ \<Rightarrow> None)"

lemma push_size_shrinks: "push_size opcode pc = Inr (k, pc') \<Longrightarrow> length pc' \<le> length pc"
  by (auto simp: push_size_def split: if_splits)

lemma GetOp_shrinks: "GetOp pc = Some (opcode, vch, pc') \<Longrightarrow> length pc' < length pc"
  by (fastforce simp: GetOp_def GetScriptOp_def dest!: push_size_shrinks
      split: list.splits if_splits sum.splits prod.splits bool.splits)

section \<open>Writing\<close>

text \<open>\<^verbatim>\<open>operator<<(const std::vector<unsigned char>&)\<close>: what it appends.\<close>

definition push_data :: "valtype \<Rightarrow> bytes" where
  "push_data b =
     (if length b < unat OP_PUSHDATA1 then [of_nat (length b)]
      else if length b \<le> 0xff then [OP_PUSHDATA1, of_nat (length b)]
      else if length b \<le> 0xffff then OP_PUSHDATA2 # le_bytes 2 (length b)
      else OP_PUSHDATA4 # le_bytes 4 (length b)) @ b"

definition push_int64 :: "int \<Rightarrow> bytes" where
  "push_int64 n =
     (if n = - 1 \<or> (n \<ge> 1 \<and> n \<le> 16) then [of_int (n + (int (unat OP_1) - 1))]
      else if n = 0 then [OP_0]
      else push_data (serialize n))"

definition push_opcode :: "opcodetype \<Rightarrow> bytes" where
  "push_opcode opcode = [opcode]"

text \<open>\<^verbatim>\<open>DecodeOP_N\<close> and \<^verbatim>\<open>EncodeOP_N\<close>; a failed \<^verbatim>\<open>assert\<close> is \<open>None\<close>.\<close>

definition DecodeOP_N :: "opcodetype \<Rightarrow> nat option" where
  "DecodeOP_N opcode =
     (if opcode = OP_0 then Some 0
      else if OP_1 \<le> opcode \<and> opcode \<le> OP_16 then Some (unat opcode - (unat OP_1 - 1))
      else None)"

definition EncodeOP_N :: "nat \<Rightarrow> opcodetype option" where
  "EncodeOP_N n =
     (if n \<le> 16 then (if n = 0 then Some OP_0 else Some (of_nat (unat OP_1 + n - 1))) else None)"

section \<open>Counting and classifying instructions\<close>

function Find :: "opcodetype \<Rightarrow> cscript \<Rightarrow> nat" where
  "Find op pc = (case GetOp pc of None \<Rightarrow> 0
     | Some (opcode, _, pc') \<Rightarrow> (if opcode = op then 1 else 0) + Find op pc')"
  by pat_completeness auto
termination
  by (relation "measure (\<lambda>(_, pc). length pc)") (auto dest: GetOp_shrinks)

function sigop_loop :: "bool \<Rightarrow> opcodetype \<Rightarrow> nat \<Rightarrow> cscript \<Rightarrow> nat" where
  "sigop_loop fAccurate lastOpcode n pc =
     (case GetOp pc of None \<Rightarrow> n
      | Some (opcode, _, pc') \<Rightarrow>
          sigop_loop fAccurate opcode
            (if opcode = OP_CHECKSIG \<or> opcode = OP_CHECKSIGVERIFY then n + 1
             else if opcode = OP_CHECKMULTISIG \<or> opcode = OP_CHECKMULTISIGVERIFY then
               (if fAccurate \<and> lastOpcode \<ge> OP_1 \<and> lastOpcode \<le> OP_16
                then n + the (DecodeOP_N lastOpcode)
                else n + MAX_PUBKEYS_PER_MULTISIG)
             else n) pc')"
  by pat_completeness auto
termination
  by (relation "measure (\<lambda>(_, _, _, pc). length pc)") (auto dest: GetOp_shrinks)

definition GetSigOpCount :: "bool \<Rightarrow> cscript \<Rightarrow> nat" where
  "GetSigOpCount fAccurate s = sigop_loop fAccurate OP_INVALIDOPCODE 0 s"

definition IsPayToScriptHash :: "cscript \<Rightarrow> bool" where
  "IsPayToScriptHash s \<longleftrightarrow>
     length s = 23 \<and> s ! 0 = OP_HASH160 \<and> s ! 1 = 0x14 \<and> s ! 22 = OP_EQUAL"

text \<open>The last item a push-only \<^verbatim>\<open>scriptSig\<close> pushes; \<open>None\<close> is \<^verbatim>\<open>return 0\<close>.\<close>

function last_push :: "valtype \<Rightarrow> cscript \<Rightarrow> valtype option" where
  "last_push vData pc =
     (if pc = [] then Some vData
      else case GetOp pc of None \<Rightarrow> None
        | Some (opcode, vData', pc') \<Rightarrow> if opcode > OP_16 then None else last_push vData' pc')"
  by pat_completeness auto
termination
  by (relation "measure (\<lambda>(_, pc). length pc)") (auto dest: GetOp_shrinks)

definition GetSigOpCount_p2sh :: "cscript \<Rightarrow> cscript \<Rightarrow> nat" where
  "GetSigOpCount_p2sh s scriptSig =
     (if \<not> IsPayToScriptHash s then GetSigOpCount True s
      else case last_push [] scriptSig of
        None \<Rightarrow> 0
      | Some vData \<Rightarrow> GetSigOpCount True vData)"

definition IsPayToPubkey :: "cscript \<Rightarrow> bool" where
  "IsPayToPubkey s \<longleftrightarrow>
     (length s = 35 \<and> s ! 0 = 33 \<and> s ! 34 = OP_CHECKSIG \<and> (s ! 1 = 0x02 \<or> s ! 1 = 0x03)) \<or>
     (length s = 67 \<and> s ! 0 = 65 \<and> s ! 66 = OP_CHECKSIG \<and> s ! 1 = 0x04)"

definition IsPayToPubkeyHash :: "cscript \<Rightarrow> bool" where
  "IsPayToPubkeyHash s \<longleftrightarrow>
     length s = 25 \<and> s ! 0 = OP_DUP \<and> s ! 1 = OP_HASH160 \<and> s ! 2 = 0x14 \<and>
     s ! 23 = OP_EQUALVERIFY \<and> s ! 24 = OP_CHECKSIG"

definition IsPayToWitnessScriptHash :: "cscript \<Rightarrow> bool" where
  "IsPayToWitnessScriptHash s \<longleftrightarrow> length s = 34 \<and> s ! 0 = OP_0 \<and> s ! 1 = 0x20"

definition IsPayToWitnessPubkeyHash :: "cscript \<Rightarrow> bool" where
  "IsPayToWitnessPubkeyHash s \<longleftrightarrow> length s = 22 \<and> s ! 0 = OP_0 \<and> s ! 1 = 0x14"

definition IsWitnessProgram :: "cscript \<Rightarrow> (nat \<times> valtype) option" where
  "IsWitnessProgram s =
     (if length s < 4 \<or> length s > 42 then None
      else if s ! 0 \<noteq> OP_0 \<and> (s ! 0 < OP_1 \<or> s ! 0 > OP_16) then None
      else if unat (s ! 1) + 2 = length s then Some (the (DecodeOP_N (s ! 0)), drop 2 s)
      else None)"

function IsPushOnly :: "cscript \<Rightarrow> bool" where
  "IsPushOnly pc =
     (if pc = [] then True
      else case GetOp pc of None \<Rightarrow> False
        | Some (opcode, _, pc') \<Rightarrow> if opcode > OP_16 then False else IsPushOnly pc')"
  by pat_completeness auto
termination
  by (relation "measure length") (auto dest: GetOp_shrinks)

function HasValidOps :: "cscript \<Rightarrow> bool" where
  "HasValidOps it =
     (if it = [] then True
      else case GetOp it of None \<Rightarrow> False
        | Some (opcode, item, it') \<Rightarrow>
            if opcode > MAX_OPCODE \<or> length item > MAX_SCRIPT_ELEMENT_SIZE then False
            else HasValidOps it')"
  by pat_completeness auto
termination
  by (relation "measure length") (auto dest: GetOp_shrinks)

definition IsUnspendable :: "cscript \<Rightarrow> bool" where
  "IsUnspendable s \<longleftrightarrow> (length s > 0 \<and> hd s = OP_RETURN) \<or> length s > MAX_SCRIPT_SIZE"

declare Find.simps [simp del] sigop_loop.simps [simp del] last_push.simps [simp del]
  IsPushOnly.simps [simp del] HasValidOps.simps [simp del]

section \<open>Contract outputs\<close>

definition HasOpCreate :: "cscript \<Rightarrow> bool" where "HasOpCreate s \<longleftrightarrow> Find OP_CREATE s = 1"
definition HasOpCoinstakeCall :: "cscript \<Rightarrow> bool" where
  "HasOpCoinstakeCall s \<longleftrightarrow> Find OP_COINSTAKE_CALL s = 1"
definition HasOpCall :: "cscript \<Rightarrow> bool" where "HasOpCall s \<longleftrightarrow> Find OP_CALL s = 1"
definition HasOpSpend :: "cscript \<Rightarrow> bool" where
  "HasOpSpend s \<longleftrightarrow> length s = 1 \<and> hd s = OP_SPEND"
definition HasOpSender :: "cscript \<Rightarrow> bool" where "HasOpSender s \<longleftrightarrow> Find OP_SENDER s = 1"

text \<open>
  \<^verbatim>\<open>ReplaceParam\<close>: \<^verbatim>\<open>opcodes\<close> holds the iterators to the instructions read so far and to
  the next one. \<open>prefix_to s it\<close> is \<^verbatim>\<open>CScript(begin(), it)\<close>.
\<close>

definition prefix_to :: "cscript \<Rightarrow> cscript \<Rightarrow> cscript" where
  "prefix_to s it = take (length s - length it) s"

function ReplaceParam_loop ::
  "opcodetype \<Rightarrow> nat \<Rightarrow> valtype \<Rightarrow> cscript \<Rightarrow> cscript list \<Rightarrow> cscript \<Rightarrow> cscript option" where
  "ReplaceParam_loop findOp posBefore vchParam s opcodes pc =
     (case GetOp pc of None \<Rightarrow> None
      | Some (opcode, _, pc') \<Rightarrow>
          if opcode = findOp then
            (let size = length opcodes in
             if size > posBefore + 1 then
               (let firstPart = size - 1 - posBefore; secondPart = size - posBefore in
                Some (prefix_to s (opcodes ! firstPart) @ push_data vchParam @ opcodes ! secondPart))
             else None)
          else ReplaceParam_loop findOp posBefore vchParam s (opcodes @ [pc']) pc')"
  by pat_completeness auto
termination
  by (relation "measure (\<lambda>(_, _, _, _, _, pc). length pc)") (auto dest: GetOp_shrinks)

definition ReplaceParam :: "opcodetype \<Rightarrow> int \<Rightarrow> valtype \<Rightarrow> cscript \<Rightarrow> cscript option" where
  "ReplaceParam findOp posBefore vchParam s =
     (if posBefore < 0 then None
      else ReplaceParam_loop findOp (nat posBefore) vchParam s [s] s)"

function FindParam_loop ::
  "opcodetype \<Rightarrow> nat \<Rightarrow> valtype list \<Rightarrow> cscript \<Rightarrow> valtype option" where
  "FindParam_loop findOp posBefore opcodes pc =
     (case GetOp pc of None \<Rightarrow> None
      | Some (opcode, tmpParam, pc') \<Rightarrow>
          let opcodes' = opcodes @ [tmpParam] in
          if opcode = findOp then
            (let size = length opcodes' in
             if size > posBefore + 1 then Some (opcodes' ! (size - 1 - posBefore)) else None)
          else FindParam_loop findOp posBefore opcodes' pc')"
  by pat_completeness auto
termination
  by (relation "measure (\<lambda>(_, _, _, pc). length pc)") (auto dest: GetOp_shrinks)

definition FindParam :: "opcodetype \<Rightarrow> int \<Rightarrow> cscript \<Rightarrow> valtype option" where
  "FindParam findOp posBefore s =
     (if posBefore < 0 then None else FindParam_loop findOp (nat posBefore) [] s)"

definition GetData :: "cscript \<Rightarrow> valtype option" where
  "GetData s =
     (if HasOpCreate s then FindParam OP_CREATE 1 s
      else if HasOpCall s then FindParam OP_CALL 2 s
      else None)"

definition SetData :: "valtype \<Rightarrow> cscript \<Rightarrow> cscript option" where
  "SetData data s =
     (if HasOpCreate s then ReplaceParam OP_CREATE 1 data s
      else if HasOpCall s then ReplaceParam OP_CALL 2 data s
      else None)"

definition UpdateSenderSig :: "valtype \<Rightarrow> cscript \<Rightarrow> cscript option" where
  "UpdateSenderSig scriptSig s = ReplaceParam OP_SENDER 1 scriptSig s"

definition WithoutSenderSig :: "cscript \<Rightarrow> cscript" where
  "WithoutSenderSig s = (case UpdateSenderSig [] s of Some scriptRet \<Rightarrow> scriptRet | None \<Rightarrow> s)"

declare ReplaceParam_loop.simps [simp del] FindParam_loop.simps [simp del]

section \<open>Instructions\<close>

text \<open>
  \<open>instr (op, d, raw)\<close>: the bytes \<open>raw\<close> are one complete instruction, read as opcode
  \<open>op\<close> with operand \<open>d\<close> whatever follows. \<open>asm\<close> lays a list of instructions out.
\<close>

type_synonym instruction = "opcodetype \<times> valtype \<times> bytes"

definition instr :: "instruction \<Rightarrow> bool" where
  "instr i \<longleftrightarrow> (case i of (opcode, d, raw) \<Rightarrow> \<forall>r. GetOp (raw @ r) = Some (opcode, d, r))"

definition asm :: "instruction list \<Rightarrow> bytes" where
  "asm ins = concat (map (\<lambda>(_, _, raw). raw) ins)"

abbreviation iop :: "instruction \<Rightarrow> opcodetype" where "iop i \<equiv> fst i"
abbreviation idata :: "instruction \<Rightarrow> valtype" where "idata i \<equiv> fst (snd i)"
abbreviation iraw :: "instruction \<Rightarrow> bytes" where "iraw i \<equiv> snd (snd i)"

lemma asm_simps [simp]:
  "asm [] = []" "asm (i # ins) = iraw i @ asm ins" "asm (ins @ js) = asm ins @ asm js"
  by (auto simp: asm_def split: prod.splits)

lemma GetOp_instr: "instr i \<Longrightarrow> GetOp (iraw i @ r) = Some (iop i, idata i, r)"
  by (cases i) (simp add: instr_def)

lemma GetOp_Nil [simp]: "GetOp [] = None"
  by (simp add: GetOp_def GetScriptOp_def)

lemma instr_nonempty: "instr i \<Longrightarrow> iraw i \<noteq> []"
  using GetOp_instr [of i "[]"] by auto

lemma push_size_width:
  obtains w f where "\<And>pc. push_size opcode pc =
    (if length pc < w then Inl pc else Inr (f (take w pc), drop w pc))"
proof -
  define w where "w = (if opcode < OP_PUSHDATA1 then 0 else if opcode = OP_PUSHDATA1 then 1
    else if opcode = OP_PUSHDATA2 then 2 else 4 :: nat)"
  have "push_size opcode pc = (if length pc < w then Inl pc else
      Inr ((if opcode < OP_PUSHDATA1 then \<lambda>_. unat opcode else le_nat) (take w pc), drop w pc))" for pc
    by (simp add: push_size_def w_def)
  then show thesis using that by blast
qed

lemma push_size_append:
  assumes "push_size opcode pc = Inr (k, pc')"
  obtains h where "pc = h @ pc'" and "\<And>r. push_size opcode (h @ r) = Inr (k, r)"
proof -
  obtain w f where w: "\<And>pc. push_size opcode pc =
      (if length pc < w then Inl pc else Inr (f (take w pc), drop w pc))"
    using push_size_width by blast
  with assms show thesis
    by (intro that [of "take w pc"]) (auto split: if_splits)
qed

lemma GetOp_SomeE:
  assumes "GetOp pc = Some (opcode, d, pc')"
  obtains raw where "pc = raw @ pc'" and "instr (opcode, d, raw)"
proof -
  from assms obtain rest where pc: "pc = opcode # rest"
    by (auto simp: GetOp_def GetScriptOp_def split: list.splits if_splits sum.splits prod.splits bool.splits)
  show thesis
  proof (cases "opcode \<le> OP_PUSHDATA4")
    case False
    with assms pc have "rest = pc'" "d = []"
      by (auto simp: GetOp_def GetScriptOp_def)
    with False pc show thesis
      by (intro that [of "[opcode]"]) (auto simp: instr_def GetOp_def GetScriptOp_def)
  next
    case True
    with assms pc obtain k r where k: "push_size opcode rest = Inr (k, r)" "k \<le> length r"
      and d: "d = take k r" "pc' = drop k r"
      by (auto simp: GetOp_def GetScriptOp_def split: if_splits sum.splits prod.splits bool.splits)
    from push_size_append [OF k(1)] obtain h where h: "rest = h @ r"
      and ph: "\<And>x. push_size opcode (h @ x) = Inr (k, x)" by blast
    have "instr (opcode, d, opcode # h @ d)"
      using True k(2) d(1) ph by (simp add: instr_def GetOp_def GetScriptOp_def)
    moreover have "pc = (opcode # h @ d) @ pc'"
      using pc h d by simp
    ultimately show thesis using that by blast
  qed
qed

text \<open>Induction over the instructions of a script.\<close>

lemma script_decompose:
  obtains ins t where "s = asm ins @ t" and "list_all instr ins" and "GetOp t = None"
proof -
  have "\<exists>ins t. s = asm ins @ t \<and> list_all instr ins \<and> GetOp t = None"
  proof (induction s rule: measure_induct_rule [of length])
    case (less s)
    show ?case
    proof (cases "GetOp s")
      case None
      then show ?thesis by (intro exI [of _ "[]"] exI [of _ s]) simp
    next
      case (Some x)
      obtain opcode d s' where x: "x = (opcode, d, s')" by (cases x) auto
      from Some x obtain raw where raw: "s = raw @ s'" "instr (opcode, d, raw)"
        by (auto elim: GetOp_SomeE)
      have "length s' < length s"
        using Some x GetOp_shrinks by blast
      then obtain ins t where "s' = asm ins @ t" "list_all instr ins" "GetOp t = None"
        using less.IH by blast
      with raw show ?thesis
        by (intro exI [of _ "(opcode, d, raw) # ins"]) auto
    qed
  qed
  then show thesis using that by blast
qed

lemma Find_asm:
  "list_all instr ins \<Longrightarrow>
    Find op (asm ins @ t) = length (filter (\<lambda>i. iop i = op) ins) + Find op t"
proof (induction ins)
  case (Cons i ins)
  then show ?case
    by (subst Find.simps) (simp add: GetOp_instr)
qed simp

lemma FindParam_loop_asm:
  "list_all instr ins \<Longrightarrow> list_all (\<lambda>i. iop i \<noteq> findOp) ins \<Longrightarrow>
    FindParam_loop findOp p acc (asm ins @ t) = FindParam_loop findOp p (acc @ map idata ins) t"
proof (induction ins arbitrary: acc)
  case (Cons i ins)
  then show ?case
    by (subst FindParam_loop.simps) (simp add: GetOp_instr)
qed simp

section \<open>Pushes\<close>

lemma unat_of_nat_small: "k < 256 \<Longrightarrow> unat (of_nat k :: byte) = k"
  by (simp add: unat_of_nat)

text \<open>\<open>push_instr d\<close> is the instruction \<open>operator<<\<close> writes for the vector \<open>d\<close>.\<close>

definition push_op :: "valtype \<Rightarrow> opcodetype" where
  "push_op d = (if length d < 76 then of_nat (length d)
     else if length d \<le> 0xff then OP_PUSHDATA1
     else if length d \<le> 0xffff then OP_PUSHDATA2 else OP_PUSHDATA4)"

lemma push_op_le: "push_op d \<le> OP_PUSHDATA4"
  by (auto simp: push_op_def word_le_nat_alt unat_of_nat_small)

lemma instr_push_data:
  assumes "length d < 2 ^ 32"
  shows "instr (push_op d, d, push_data d)"
proof -
  have "GetOp (push_data d @ r) = Some (push_op d, d, r)" for r
  proof -
    consider "length d < 76" | "76 \<le> length d" "length d \<le> 0xff"
      | "0xff < length d" "length d \<le> 0xffff" | "0xffff < length d" by linarith
    then show ?thesis
    proof cases
      case 1
      then show ?thesis
        by (simp add: push_data_def push_op_def GetOp_def GetScriptOp_def push_size_def
            word_le_nat_alt word_less_nat_alt unat_of_nat_small)
    next
      case 2
      then show ?thesis
        by (simp add: push_data_def push_op_def GetOp_def GetScriptOp_def push_size_def
            unat_of_nat_small)
    next
      case 3
      then show ?thesis
        by (simp add: push_data_def push_op_def GetOp_def GetScriptOp_def push_size_def le_nat_le_bytes)
    next
      case 4
      then show ?thesis using assms
        by (simp add: push_data_def push_op_def GetOp_def GetScriptOp_def push_size_def le_nat_le_bytes)
    qed
  qed
  then show ?thesis by (simp add: instr_def)
qed

section \<open>Replacing and reading a contract parameter\<close>

text \<open>
  The iterators \<^verbatim>\<open>opcodes\<close> holds after the instructions \<open>ins\<close> have been read and \<open>t\<close>
  is left: the position before each of them, and \<open>t\<close>.
\<close>

definition iterators :: "instruction list \<Rightarrow> cscript \<Rightarrow> cscript list" where
  "iterators ins t = map (\<lambda>k. asm (drop k ins) @ t) [0 ..< Suc (length ins)]"

lemma length_iterators [simp]: "length (iterators ins t) = Suc (length ins)"
  by (simp add: iterators_def)

lemma iterators_nth: "k \<le> length ins \<Longrightarrow> iterators ins t ! k = asm (drop k ins) @ t"
  by (simp add: iterators_def del: upt_Suc)

lemma iterators_snoc: "iterators (ins @ [i]) t = iterators ins (iraw i @ t) @ [t]"
  by (simp add: iterators_def)

lemma prefix_to_append [simp]: "prefix_to (a @ b) b = a"
  by (simp add: prefix_to_def)

lemma ReplaceParam_loop_Some:
  assumes "ReplaceParam_loop findOp p v s (iterators ins t) t = Some s'"
    and "s = asm ins @ t" and "list_all instr ins" and "list_all (\<lambda>i. iop i \<noteq> findOp) ins" and "1 \<le> p"
  shows "\<exists>pre x mid f rest. s = asm (pre @ x # mid @ [f]) @ rest \<and>
      s' = asm pre @ push_data v @ asm (mid @ [f]) @ rest \<and>
      list_all instr (pre @ x # mid @ [f]) \<and> list_all (\<lambda>i. iop i \<noteq> findOp) (pre @ x # mid) \<and>
      iop f = findOp \<and> pre \<noteq> [] \<and> Suc (length mid) = p"
  using assms
proof (induction t arbitrary: ins rule: measure_induct_rule [of length])
  case (less t)
  from less.prems(1) obtain opcode d t' where g: "GetOp t = Some (opcode, d, t')"
    by (subst (asm) ReplaceParam_loop.simps) (auto split: option.splits)
  then obtain raw where raw: "t = raw @ t'" and i: "instr (opcode, d, raw)"
    by (rule GetOp_SomeE)
  show ?case
  proof (cases "opcode = findOp")
    case False
    have "ReplaceParam_loop findOp p v s (iterators (ins @ [(opcode, d, raw)]) t') t' = Some s'"
      using less.prems(1) g False raw
      by (subst (asm) ReplaceParam_loop.simps) (simp add: iterators_snoc)
    then show ?thesis
      using less.prems(2-) raw i False GetOp_shrinks [OF g]
      by (intro less.IH [of t' "ins @ [(opcode, d, raw)]"]) simp_all
  next
    case True
    let ?n = "length ins"
    from less.prems(1) g True have n: "p < ?n"
      and s': "s' = prefix_to s (iterators ins t ! (?n - p)) @ push_data v @ iterators ins t ! (Suc ?n - p)"
      by (subst (asm) ReplaceParam_loop.simps, simp add: Let_def split: if_splits)+
    define pre x mid where "pre = take (?n - p) ins" and "x = ins ! (?n - p)"
      and "mid = drop (Suc (?n - p)) ins"
    have drop_np: "drop (?n - p) ins = x # mid"
      unfolding x_def mid_def using n less.prems(5) by (intro Cons_nth_drop_Suc [symmetric]) simp
    then have ins: "ins = pre @ x # mid"
      unfolding pre_def by (metis append_take_drop_id)
    have "Suc ?n - p = Suc (?n - p)" using n by simp
    then have "iterators ins t ! (Suc ?n - p) = asm mid @ t"
      using n less.prems(5) by (simp add: iterators_nth mid_def)
    moreover have "iterators ins t ! (?n - p) = asm (x # mid) @ t"
      using drop_np by (simp add: iterators_nth)
    moreover have "s = asm pre @ asm (x # mid) @ t"
      using less.prems(2) ins by simp
    ultimately have "s' = asm pre @ push_data v @ asm mid @ t"
      using s' by (simp only: prefix_to_append)
    moreover have "pre \<noteq> []" using n by (auto simp: pre_def)
    moreover have "Suc (length mid) = p" using n less.prems(5) by (simp add: mid_def)
    ultimately show ?thesis
      using less.prems raw i True ins
      by (intro exI [of _ pre] exI [of _ x] exI [of _ mid] exI [of _ "(opcode, d, raw)"] exI [of _ t']) simp
  qed
qed

lemma ReplaceParam_SomeE:
  assumes "ReplaceParam findOp p v s = Some s'" and "1 \<le> p"
  obtains pre x mid f rest where "s = asm (pre @ x # mid @ [f]) @ rest"
    and "s' = asm pre @ push_data v @ asm (mid @ [f]) @ rest"
    and "list_all instr (pre @ x # mid @ [f])" and "list_all (\<lambda>i. iop i \<noteq> findOp) (pre @ x # mid)"
    and "iop f = findOp" and "pre \<noteq> []" and "Suc (length mid) = nat p"
proof -
  have "ReplaceParam_loop findOp (nat p) v s (iterators [] s) s = Some s'"
    using assms by (simp add: ReplaceParam_def iterators_def)
  from ReplaceParam_loop_Some [OF this] assms(2) show thesis
    using that by fastforce
qed

lemma FindParam_asm:
  assumes "list_all instr (pre @ x # mid @ [f])" and "list_all (\<lambda>i. iop i \<noteq> findOp) (pre @ x # mid)"
    and "iop f = findOp" and "pre \<noteq> []" and "Suc (length mid) = nat p"
  shows "FindParam findOp p (asm (pre @ x # mid @ [f]) @ rest) = Some (idata x)"
proof -
  have "FindParam_loop findOp (nat p) [] (asm (pre @ x # mid) @ iraw f @ rest) =
      FindParam_loop findOp (nat p) (map idata (pre @ x # mid)) (iraw f @ rest)"
    using assms FindParam_loop_asm [of "pre @ x # mid" findOp "nat p" "[]" "iraw f @ rest"] by simp
  also have "\<dots> = Some (idata x)"
    using assms by (subst FindParam_loop.simps) (auto simp: GetOp_instr nth_append Let_def)
  finally show ?thesis using assms by (simp add: FindParam_def)
qed

lemma ReplaceParam_FindParam:
  assumes "ReplaceParam findOp p v s = Some s'" and "1 \<le> p" and "length v < 2 ^ 32"
    and "OP_PUSHDATA4 < findOp"
  shows "FindParam findOp p s' = Some v"
proof -
  from assms(1,2) obtain pre x mid f rest where s: "s = asm (pre @ x # mid @ [f]) @ rest"
    and s': "s' = asm pre @ push_data v @ asm (mid @ [f]) @ rest"
    and ins: "list_all instr (pre @ x # mid @ [f])"
    and no: "list_all (\<lambda>i. iop i \<noteq> findOp) (pre @ x # mid)"
    and f: "iop f = findOp" "pre \<noteq> []" "Suc (length mid) = nat p"
    by (rule ReplaceParam_SomeE)
  let ?y = "(push_op v, v, push_data v)"
  have "s' = asm (pre @ ?y # mid @ [f]) @ rest" using s' by simp
  moreover have "instr ?y" using assms(3) by (rule instr_push_data)
  moreover have "iop ?y \<noteq> findOp"
    using push_op_le [of v] assms(4) by auto
  ultimately show ?thesis
    using FindParam_asm [of pre ?y mid f findOp p rest] ins no f by simp
qed

text \<open>Replacing a parameter keeps the number of occurrences of the opcode looked for.\<close>

lemma ReplaceParam_Find:
  assumes "ReplaceParam findOp p v s = Some s'" and "1 \<le> p" and "length v < 2 ^ 32"
    and "OP_PUSHDATA4 < findOp"
  shows "Find findOp s' = Find findOp s"
proof -
  from assms(1,2) obtain pre x mid f rest where s: "s = asm (pre @ x # mid @ [f]) @ rest"
    and s': "s' = asm pre @ push_data v @ asm (mid @ [f]) @ rest"
    and ins: "list_all instr (pre @ x # mid @ [f])"
    and no: "list_all (\<lambda>i. iop i \<noteq> findOp) (pre @ x # mid)"
    and f: "iop f = findOp" "pre \<noteq> []" "Suc (length mid) = nat p"
    by (rule ReplaceParam_SomeE)
  let ?y = "(push_op v, v, push_data v)"
  have "s' = asm (pre @ ?y # mid @ [f]) @ rest" using s' by simp
  moreover have "instr ?y" using assms(3) by (rule instr_push_data)
  moreover have "iop ?y \<noteq> findOp"
    using push_op_le [of v] assms(4) by auto
  ultimately show ?thesis
    using ins no s Find_asm [of "pre @ ?y # mid @ [f]" findOp rest]
      Find_asm [of "pre @ x # mid @ [f]" findOp rest] by simp
qed

lemma ReplaceParam_Find_le:
  assumes "ReplaceParam findOp p v s = Some s'" and "1 \<le> p" and "length v < 2 ^ 32"
    and "OP_PUSHDATA4 < op"
  shows "Find op s' \<le> Find op s"
proof -
  from assms(1,2) obtain pre x mid f rest where s: "s = asm (pre @ x # mid @ [f]) @ rest"
    and s': "s' = asm pre @ push_data v @ asm (mid @ [f]) @ rest"
    and ins: "list_all instr (pre @ x # mid @ [f])"
    by (rule ReplaceParam_SomeE)
  let ?y = "(push_op v, v, push_data v)"
  have "s' = asm (pre @ ?y # mid @ [f]) @ rest" using s' by simp
  moreover have "instr ?y" using assms(3) by (rule instr_push_data)
  moreover have "iop ?y \<noteq> op"
    using push_op_le [of v] assms(4) by auto
  ultimately show ?thesis
    using ins s Find_asm [of "pre @ ?y # mid @ [f]" op rest]
      Find_asm [of "pre @ x # mid @ [f]" op rest] by simp
qed

text \<open>Running the loop over instructions that are not the one looked for.\<close>

lemma ReplaceParam_loop_asm:
  "list_all instr ins \<Longrightarrow> list_all (\<lambda>i. iop i \<noteq> findOp) ins \<Longrightarrow>
    ReplaceParam_loop findOp p v s (iterators seen (asm ins @ t)) (asm ins @ t) =
    ReplaceParam_loop findOp p v s (iterators (seen @ ins) t) t"
proof (induction ins arbitrary: seen)
  case (Cons i ins)
  have "iterators seen (iraw i @ asm ins @ t) @ [asm ins @ t] = iterators (seen @ [i]) (asm ins @ t)"
    by (simp add: iterators_snoc)
  with Cons show ?case
    by (subst ReplaceParam_loop.simps) (simp add: GetOp_instr)
qed simp

lemma ReplaceParam_asm:
  assumes "list_all instr (pre @ x # mid @ [f])" and "list_all (\<lambda>i. iop i \<noteq> findOp) (pre @ x # mid)"
    and "iop f = findOp" and "pre \<noteq> []" and "Suc (length mid) = nat p" and "1 \<le> p"
  shows "ReplaceParam findOp p v (asm (pre @ x # mid @ [f]) @ rest) =
    Some (asm pre @ push_data v @ asm (mid @ [f]) @ rest)"
proof -
  let ?ins = "pre @ x # mid" and ?t = "iraw f @ rest"
  let ?s = "asm ?ins @ ?t"
  have "ReplaceParam findOp p v ?s = ReplaceParam_loop findOp (nat p) v ?s (iterators [] ?s) ?s"
    using assms(6) by (simp add: ReplaceParam_def iterators_def)
  also have "\<dots> = ReplaceParam_loop findOp (nat p) v ?s (iterators ?ins ?t) ?t"
    using assms ReplaceParam_loop_asm [of ?ins findOp "nat p" v ?s "[]" ?t] by simp
  also have "\<dots> = Some (asm pre @ push_data v @ asm mid @ ?t)"
  proof -
    have "length ?ins - nat p = length pre" "Suc (length ?ins) - nat p = Suc (length pre)"
      using assms(5) by simp_all
    moreover have "iterators ?ins ?t ! length pre = asm (x # mid) @ ?t"
      and "iterators ?ins ?t ! Suc (length pre) = asm mid @ ?t"
      by (simp_all add: iterators_nth)
    moreover have "prefix_to ?s (asm (x # mid) @ ?t) = asm pre"
      using prefix_to_append [of "asm pre" "asm (x # mid) @ ?t"] by simp
    moreover have "nat p + 1 < length (iterators ?ins ?t)"
      using assms(4,5) by (cases pre) simp_all
    moreover have "GetOp ?t = Some (findOp, idata f, rest)"
      using assms(1,3) GetOp_instr [of f rest] by simp
    ultimately show ?thesis
      by (subst ReplaceParam_loop.simps) (simp add: Let_def)
  qed
  finally show ?thesis by simp
qed

text \<open>
  Setting the data of a contract output and reading it back agree: when
  \<^verbatim>\<open>SetData\<close> succeeds on a script with at most one \<^verbatim>\<open>OP_CREATE\<close>, \<^verbatim>\<open>GetData\<close> on the
  script it returns yields exactly the data that was set (data is below the 4 GiB a
  \<^verbatim>\<open>OP_PUSHDATA4\<close> can announce).
\<close>

theorem SetData_GetData:
  assumes "SetData d s = Some s'" and "length d < 2 ^ 32" and "Find OP_CREATE s \<le> 1"
  shows "GetData s' = Some d"
proof (cases "HasOpCreate s")
  case True
  then have r: "ReplaceParam OP_CREATE 1 d s = Some s'"
    using assms(1) by (simp add: SetData_def)
  have "HasOpCreate s'"
    using True ReplaceParam_Find [OF r] assms(2) by (simp add: HasOpCreate_def)
  then show ?thesis
    using ReplaceParam_FindParam [OF r] assms(2) by (simp add: GetData_def)
next
  case False
  then have r: "ReplaceParam OP_CALL 2 d s = Some s'" and call: "HasOpCall s"
    using assms(1) by (auto simp: SetData_def split: if_splits)
  have "Find OP_CREATE s' = 0"
    using False assms(3) ReplaceParam_Find_le [OF r _ assms(2), of OP_CREATE]
    by (simp add: HasOpCreate_def)
  moreover have "HasOpCall s'"
    using call ReplaceParam_Find [OF r] assms(2) by (simp add: HasOpCall_def)
  ultimately show ?thesis
    using ReplaceParam_FindParam [OF r] assms(2) by (simp add: GetData_def HasOpCreate_def)
qed

lemmas script_eval = Find.simps ReplaceParam_loop.simps FindParam_loop.simps GetOp_def
  GetScriptOp_def push_size_def

theorem SetData_GetData_witness:
  "SetData [0xBB] [1, 4, 1, 5, 1, 40, 1, 0xAA, OP_CREATE] = Some [1, 4, 1, 5, 1, 40, 1, 0xBB, OP_CREATE] \<and>
   GetData [1, 4, 1, 5, 1, 40, 1, 0xBB, OP_CREATE] = Some [0xBB]"
proof -
  have h: "SetData [0xBB] [1, 4, 1, 5, 1, 40, 1, 0xAA, OP_CREATE] =
      Some [1, 4, 1, 5, 1, 40, 1, 0xBB, OP_CREATE]"
    by (simp add: SetData_def HasOpCreate_def ReplaceParam_def script_eval prefix_to_def push_data_def)
  have "Find OP_CREATE [1, 4, 1, 5, 1, 40, 1, 0xAA, OP_CREATE] \<le> 1"
    by (simp add: script_eval)
  with h SetData_GetData [OF h] show ?thesis by simp
qed

text \<open>
  The signature of an \<^verbatim>\<open>OP_SENDER\<close> output does not cover itself: the script that is
  hashed for signing, \<^verbatim>\<open>WithoutSenderSig\<close>, is the same before and after the signature
  has been written into the script with \<^verbatim>\<open>UpdateSenderSig\<close>.
\<close>

theorem sender_sig_not_covered:
  assumes "UpdateSenderSig sig s = Some s'" and "length sig < 2 ^ 32"
  shows "WithoutSenderSig s' = WithoutSenderSig s"
proof -
  have r: "ReplaceParam OP_SENDER 1 sig s = Some s'"
    using assms(1) by (simp add: UpdateSenderSig_def)
  from r have "(1 :: int) \<le> 1" by simp
  from r this obtain pre x mid f rest where s: "s = asm (pre @ x # mid @ [f]) @ rest"
    and s': "s' = asm pre @ push_data sig @ asm (mid @ [f]) @ rest"
    and ins: "list_all instr (pre @ x # mid @ [f])"
    and no: "list_all (\<lambda>i. iop i \<noteq> OP_SENDER) (pre @ x # mid)"
    and f: "iop f = OP_SENDER" "pre \<noteq> []" "Suc (length mid) = nat 1"
    by (rule ReplaceParam_SomeE)
  let ?y = "(push_op sig, sig, push_data sig)"
  have s'y: "s' = asm (pre @ ?y # mid @ [f]) @ rest" using s' by simp
  have y: "instr ?y" using assms(2) by (rule instr_push_data)
  have "iop ?y \<noteq> OP_SENDER"
    using push_op_le [of sig] by (auto simp: word_le_nat_alt)
  then have "UpdateSenderSig [] s' = Some (asm pre @ push_data [] @ asm (mid @ [f]) @ rest)"
    unfolding UpdateSenderSig_def s'y using ins no f y by (intro ReplaceParam_asm) simp_all
  moreover have "UpdateSenderSig [] s = Some (asm pre @ push_data [] @ asm (mid @ [f]) @ rest)"
    unfolding UpdateSenderSig_def s using ins no f by (intro ReplaceParam_asm) simp_all
  ultimately show ?thesis by (simp add: WithoutSenderSig_def)
qed

theorem sender_sig_not_covered_witness:
  "UpdateSenderSig [7, 7] [1, 1, 1, 9, 0, OP_SENDER, 1, 4] = Some [1, 1, 1, 9, 2, 7, 7, OP_SENDER, 1, 4] \<and>
   WithoutSenderSig [1, 1, 1, 9, 2, 7, 7, OP_SENDER, 1, 4] =
   WithoutSenderSig [1, 1, 1, 9, 0, OP_SENDER, 1, 4]"
proof -
  have h: "UpdateSenderSig [7, 7] [1, 1, 1, 9, 0, OP_SENDER, 1, 4] =
      Some [1, 1, 1, 9, 2, 7, 7, OP_SENDER, 1, 4]"
    by (simp add: UpdateSenderSig_def ReplaceParam_def script_eval prefix_to_def push_data_def)
  then show ?thesis using sender_sig_not_covered [OF h] by simp
qed

section \<open>Signature-operation counts and templates\<close>

lemma sigop_loop_accurate_le:
  "n \<le> m \<Longrightarrow> sigop_loop True l n pc \<le> sigop_loop False l' m pc"
proof (induction True l n pc arbitrary: m l' rule: sigop_loop.induct)
  case (1 l n pc)
  show ?case
  proof (cases "GetOp pc")
    case None
    with "1.prems" show ?thesis by (simp add: sigop_loop.simps)
  next
    case (Some x)
    have "OP_1 \<le> l \<Longrightarrow> l \<le> OP_16 \<Longrightarrow> the (DecodeOP_N l) \<le> MAX_PUBKEYS_PER_MULTISIG"
      by (auto simp: DecodeOP_N_def MAX_PUBKEYS_PER_MULTISIG_def word_le_nat_alt)
    moreover obtain opcode d pc' where x: "x = (opcode, d, pc')" by (cases x) auto
    note IH = "1.hyps" [OF Some x [symmetric] refl]
    ultimately show ?thesis
      using "1.prems" by (simp only: sigop_loop.simps [of _ _ _ pc] Some x option.case prod.case)
        (rule IH, auto)
  qed
qed

lemma IsPushOnly_sigop_loop: "IsPushOnly pc \<Longrightarrow> sigop_loop a l n pc = n"
proof (induction pc arbitrary: l rule: IsPushOnly.induct)
  case (1 pc)
  show ?case
  proof (cases "GetOp pc")
    case None
    then show ?thesis by (simp add: sigop_loop.simps)
  next
    case (Some x)
    then show ?thesis
      using 1 by (cases x) (auto simp: sigop_loop.simps [of _ _ _ pc] IsPushOnly.simps [of pc] split: if_splits)
  qed
qed

lemma sigop_loop_bound: "sigop_loop False l n pc \<le> n + MAX_PUBKEYS_PER_MULTISIG * length pc"
proof (induction False l n pc rule: sigop_loop.induct)
  case (1 l n pc)
  show ?case
  proof (cases "GetOp pc")
    case None
    then show ?thesis by (simp add: sigop_loop.simps)
  next
    case (Some x)
    obtain opcode d pc' where x: "x = (opcode, d, pc')" by (cases x) auto
    have "Suc (length pc') \<le> length pc"
      using Some x GetOp_shrinks by (simp add: Suc_le_eq)
    then have "MAX_PUBKEYS_PER_MULTISIG * Suc (length pc') \<le> MAX_PUBKEYS_PER_MULTISIG * length pc"
      by (rule mult_le_mono2)
    then show ?thesis
      using "1.hyps" [OF Some x [symmetric] refl] Some x
      by (auto simp: sigop_loop.simps [of _ _ _ pc] MAX_PUBKEYS_PER_MULTISIG_def split: if_splits)
  qed
qed

text \<open>
  Signature-operation counts: the accurate count never exceeds the legacy count, the
  legacy count is at most twenty per byte of script, and a push-only script has none.
\<close>

theorem sigop_count_bounds:
  "GetSigOpCount True s \<le> GetSigOpCount False s \<and>
   GetSigOpCount False s \<le> MAX_PUBKEYS_PER_MULTISIG * length s \<and>
   (IsPushOnly s \<longrightarrow> GetSigOpCount fAccurate s = 0)"
  using sigop_loop_accurate_le [of 0 0 OP_INVALIDOPCODE s OP_INVALIDOPCODE]
    sigop_loop_bound [of OP_INVALIDOPCODE 0 s]
  by (auto simp: GetSigOpCount_def IsPushOnly_sigop_loop)

theorem sigop_count_bounds_witness:
  "IsPushOnly [1, 7, OP_2] \<and> GetSigOpCount True [1, 7, OP_2] = 0"
proof -
  have "IsPushOnly [1, 7, OP_2]"
    by (simp add: IsPushOnly.simps GetOp_def GetScriptOp_def push_size_def)
  then show ?thesis using sigop_count_bounds [of "[1, 7, OP_2]" True] by blast
qed

lemma unat_small_int_op: "n \<le> 16 \<Longrightarrow> unat (0x50 + of_nat n :: byte) = 80 + n"
  using unat_of_nat_small [of "80 + n"] by simp

lemma small_int_op_nonzero: "n \<le> 16 \<Longrightarrow> (0x50 + of_nat n :: byte) \<noteq> 0"
  using unat_small_int_op [of n] by auto

lemma DecodeOP_N_EncodeOP_N: "n \<le> 16 \<Longrightarrow> DecodeOP_N (the (EncodeOP_N n)) = Some n"
  by (simp add: DecodeOP_N_def EncodeOP_N_def word_le_nat_alt unat_small_int_op small_int_op_nonzero)

lemma EncodeOP_N_DecodeOP_N:
  assumes "opcode = OP_0 \<or> (OP_1 \<le> opcode \<and> opcode \<le> OP_16)"
  shows "the (DecodeOP_N opcode) \<le> 16" and "EncodeOP_N (the (DecodeOP_N opcode)) = Some opcode"
proof -
  consider "opcode = OP_0" | "0x51 \<le> unat opcode" "unat opcode \<le> 0x60" "opcode \<noteq> OP_0"
    using assms by (auto simp: word_le_nat_alt)
  then show "the (DecodeOP_N opcode) \<le> 16" and "EncodeOP_N (the (DecodeOP_N opcode)) = Some opcode"
    by (cases; simp add: DecodeOP_N_def EncodeOP_N_def word_le_nat_alt)+
qed

text \<open>
  Witness programs: \<^verbatim>\<open>IsWitnessProgram\<close> accepts exactly the scripts made of a
  small-integer opcode for a version of at most 16 and one direct push of 2 to 40
  bytes, and returns that version and those bytes.
\<close>

theorem IsWitnessProgram_iff:
  "IsWitnessProgram s = Some (version, program) \<longleftrightarrow>
   version \<le> 16 \<and> 2 \<le> length program \<and> length program \<le> 40 \<and>
   s = the (EncodeOP_N version) # push_data program"
proof
  assume l: "IsWitnessProgram s = Some (version, program)"
  then have len: "4 \<le> length s" "length s \<le> 42"
    and op: "s ! 0 = OP_0 \<or> (OP_1 \<le> s ! 0 \<and> s ! 0 \<le> OP_16)"
    and sz: "unat (s ! 1) + 2 = length s"
    and r: "version = the (DecodeOP_N (s ! 0))" "program = drop 2 s"
    by (auto simp: IsWitnessProgram_def split: if_splits)
  obtain a b t where s: "s = a # b # t"
    using len by (cases s; cases "tl s") auto
  then have "unat b = length t" using sz by simp
  have "b = of_nat (length t)" unfolding \<open>unat b = length t\<close> [symmetric] by simp
  with s r len show "version \<le> 16 \<and> 2 \<le> length program \<and> length program \<le> 40 \<and>
      s = the (EncodeOP_N version) # push_data program"
    using EncodeOP_N_DecodeOP_N [OF op] by (simp add: push_data_def)
next
  assume r: "version \<le> 16 \<and> 2 \<le> length program \<and> length program \<le> 40 \<and>
      s = the (EncodeOP_N version) # push_data program"
  then have s: "s = the (EncodeOP_N version) # of_nat (length program) # program"
    by (simp add: push_data_def)
  have "unat (of_nat (length program) :: byte) = length program"
    using r by (intro unat_of_nat_small) simp
  moreover have "the (EncodeOP_N version) = OP_0 \<or>
      (OP_1 \<le> the (EncodeOP_N version) \<and> the (EncodeOP_N version) \<le> OP_16)"
    using r by (auto simp: EncodeOP_N_def word_le_nat_alt unat_small_int_op)
  moreover have "2 \<le> length program" "length program \<le> 40"
    and "DecodeOP_N (the (EncodeOP_N version)) = Some version"
    using r by (simp_all add: DecodeOP_N_EncodeOP_N)
  ultimately show "IsWitnessProgram s = Some (version, program)"
    unfolding s by (auto simp: IsWitnessProgram_def)
qed

end
