(* ===== verification/SigEncoding.thy ===== *)
theory SigEncoding
  imports Script
begin

text \<open>
  The encoding checks of \<^verbatim>\<open>src/script/interpreter.cpp\<close> that run before a signature is
  verified: strict DER signatures, public key formats, hash types and minimal pushes; and
  \<^verbatim>\<open>FindAndDelete\<close>. A C++ function that returns a bool and sets \<^verbatim>\<open>serror\<close> on failure
  is a function to \<open>ScriptError option\<close>: \<open>None\<close> is true, \<open>Some e\<close> is false with
  \<^verbatim>\<open>*serror = e\<close>.
\<close>

section \<open>Errors and verification flags\<close>

datatype ScriptError =
    SCRIPT_ERR_OK
  | SCRIPT_ERR_UNKNOWN_ERROR
  | SCRIPT_ERR_EVAL_FALSE
  | SCRIPT_ERR_OP_RETURN
  | SCRIPT_ERR_SCRIPT_SIZE
  | SCRIPT_ERR_PUSH_SIZE
  | SCRIPT_ERR_OP_COUNT
  | SCRIPT_ERR_STACK_SIZE
  | SCRIPT_ERR_SIG_COUNT
  | SCRIPT_ERR_PUBKEY_COUNT
  | SCRIPT_ERR_VERIFY
  | SCRIPT_ERR_EQUALVERIFY
  | SCRIPT_ERR_CHECKMULTISIGVERIFY
  | SCRIPT_ERR_CHECKSIGVERIFY
  | SCRIPT_ERR_NUMEQUALVERIFY
  | SCRIPT_ERR_BAD_OPCODE
  | SCRIPT_ERR_DISABLED_OPCODE
  | SCRIPT_ERR_INVALID_STACK_OPERATION
  | SCRIPT_ERR_INVALID_ALTSTACK_OPERATION
  | SCRIPT_ERR_UNBALANCED_CONDITIONAL
  | SCRIPT_ERR_NEGATIVE_LOCKTIME
  | SCRIPT_ERR_UNSATISFIED_LOCKTIME
  | SCRIPT_ERR_SIG_HASHTYPE
  | SCRIPT_ERR_SIG_DER
  | SCRIPT_ERR_MINIMALDATA
  | SCRIPT_ERR_SIG_PUSHONLY
  | SCRIPT_ERR_SIG_HIGH_S
  | SCRIPT_ERR_SIG_NULLDUMMY
  | SCRIPT_ERR_PUBKEYTYPE
  | SCRIPT_ERR_CLEANSTACK
  | SCRIPT_ERR_MINIMALIF
  | SCRIPT_ERR_SIG_NULLFAIL
  | SCRIPT_ERR_DISCOURAGE_UPGRADABLE_NOPS
  | SCRIPT_ERR_DISCOURAGE_UPGRADABLE_WITNESS_PROGRAM
  | SCRIPT_ERR_WITNESS_PROGRAM_WRONG_LENGTH
  | SCRIPT_ERR_WITNESS_PROGRAM_WITNESS_EMPTY
  | SCRIPT_ERR_WITNESS_PROGRAM_MISMATCH
  | SCRIPT_ERR_WITNESS_MALLEATED
  | SCRIPT_ERR_WITNESS_MALLEATED_P2SH
  | SCRIPT_ERR_WITNESS_UNEXPECTED
  | SCRIPT_ERR_WITNESS_PUBKEYTYPE
  | SCRIPT_ERR_OP_CODESEPARATOR
  | SCRIPT_ERR_SIG_FINDANDDELETE
  | SCRIPT_ERR_ERROR_COUNT

datatype SigVersion = BASE | WITNESS_V0

abbreviation SCRIPT_VERIFY_P2SH :: uint32 where "SCRIPT_VERIFY_P2SH \<equiv> 0x1"
abbreviation SCRIPT_VERIFY_STRICTENC :: uint32 where "SCRIPT_VERIFY_STRICTENC \<equiv> 0x2"
abbreviation SCRIPT_VERIFY_DERSIG :: uint32 where "SCRIPT_VERIFY_DERSIG \<equiv> 0x4"
abbreviation SCRIPT_VERIFY_LOW_S :: uint32 where "SCRIPT_VERIFY_LOW_S \<equiv> 0x8"
abbreviation SCRIPT_VERIFY_NULLDUMMY :: uint32 where "SCRIPT_VERIFY_NULLDUMMY \<equiv> 0x10"
abbreviation SCRIPT_VERIFY_SIGPUSHONLY :: uint32 where "SCRIPT_VERIFY_SIGPUSHONLY \<equiv> 0x20"
abbreviation SCRIPT_VERIFY_MINIMALDATA :: uint32 where "SCRIPT_VERIFY_MINIMALDATA \<equiv> 0x40"
abbreviation SCRIPT_VERIFY_DISCOURAGE_UPGRADABLE_NOPS :: uint32 where "SCRIPT_VERIFY_DISCOURAGE_UPGRADABLE_NOPS \<equiv> 0x80"
abbreviation SCRIPT_VERIFY_CLEANSTACK :: uint32 where "SCRIPT_VERIFY_CLEANSTACK \<equiv> 0x100"
abbreviation SCRIPT_VERIFY_CHECKLOCKTIMEVERIFY :: uint32 where "SCRIPT_VERIFY_CHECKLOCKTIMEVERIFY \<equiv> 0x200"
abbreviation SCRIPT_VERIFY_CHECKSEQUENCEVERIFY :: uint32 where "SCRIPT_VERIFY_CHECKSEQUENCEVERIFY \<equiv> 0x400"
abbreviation SCRIPT_VERIFY_WITNESS :: uint32 where "SCRIPT_VERIFY_WITNESS \<equiv> 0x800"
abbreviation SCRIPT_VERIFY_DISCOURAGE_UPGRADABLE_WITNESS_PROGRAM :: uint32 where "SCRIPT_VERIFY_DISCOURAGE_UPGRADABLE_WITNESS_PROGRAM \<equiv> 0x1000"
abbreviation SCRIPT_VERIFY_MINIMALIF :: uint32 where "SCRIPT_VERIFY_MINIMALIF \<equiv> 0x2000"
abbreviation SCRIPT_VERIFY_NULLFAIL :: uint32 where "SCRIPT_VERIFY_NULLFAIL \<equiv> 0x4000"
abbreviation SCRIPT_VERIFY_WITNESS_PUBKEYTYPE :: uint32 where "SCRIPT_VERIFY_WITNESS_PUBKEYTYPE \<equiv> 0x8000"
abbreviation SCRIPT_VERIFY_CONST_SCRIPTCODE :: uint32 where "SCRIPT_VERIFY_CONST_SCRIPTCODE \<equiv> 0x10000"
abbreviation SCRIPT_OUTPUT_SENDER :: uint32 where "SCRIPT_OUTPUT_SENDER \<equiv> 0x20000000"
abbreviation SCRIPT_EXEC_BYTE_CODE :: uint32 where "SCRIPT_EXEC_BYTE_CODE \<equiv> 0x40000000"

definition flag :: "uint32 \<Rightarrow> uint32 \<Rightarrow> bool" where
  "flag flags f \<longleftrightarrow> flags AND f \<noteq> 0"

abbreviation SIGHASH_ALL :: byte where "SIGHASH_ALL \<equiv> 1"
abbreviation SIGHASH_NONE :: byte where "SIGHASH_NONE \<equiv> 2"
abbreviation SIGHASH_SINGLE :: byte where "SIGHASH_SINGLE \<equiv> 3"
abbreviation SIGHASH_ANYONECANPAY :: byte where "SIGHASH_ANYONECANPAY \<equiv> 0x80"

section \<open>Values\<close>

text \<open>\<^verbatim>\<open>CastToBool\<close>: zero bytes are skipped; a lone sign bit at the end is negative zero.\<close>

fun CastToBool :: "valtype \<Rightarrow> bool" where
  "CastToBool [] = False"
| "CastToBool (b # vch) =
     (if b \<noteq> 0 then \<not> (vch = [] \<and> b = 0x80) else CastToBool vch)"

definition COMPRESSED_PUBLIC_KEY_SIZE :: nat where "COMPRESSED_PUBLIC_KEY_SIZE = 33"
definition PUBLIC_KEY_SIZE :: nat where "PUBLIC_KEY_SIZE = 65"

definition IsCompressedOrUncompressedPubKey :: "valtype \<Rightarrow> bool" where
  "IsCompressedOrUncompressedPubKey vchPubKey =
     (if length vchPubKey < COMPRESSED_PUBLIC_KEY_SIZE then False
      else if vchPubKey ! 0 = 0x04 then \<not> length vchPubKey \<noteq> PUBLIC_KEY_SIZE
      else if vchPubKey ! 0 = 0x02 \<or> vchPubKey ! 0 = 0x03
        then \<not> length vchPubKey \<noteq> COMPRESSED_PUBLIC_KEY_SIZE
      else False)"

definition IsCompressedPubKey :: "valtype \<Rightarrow> bool" where
  "IsCompressedPubKey vchPubKey =
     (if length vchPubKey \<noteq> COMPRESSED_PUBLIC_KEY_SIZE then False
      else if vchPubKey ! 0 \<noteq> 0x02 \<and> vchPubKey ! 0 \<noteq> 0x03 then False
      else True)"

section \<open>Signatures\<close>

definition IsValidSignatureEncoding :: "valtype \<Rightarrow> bool \<Rightarrow> bool" where
  "IsValidSignatureEncoding sig haveHashType =
     (if length sig < 9 then False
      else if length sig > 73 then False
      else if sig ! 0 \<noteq> 0x30 then False
      else if unat (sig ! 1) \<noteq> length sig - (if haveHashType then 3 else 2) then False
      else let lenR = unat (sig ! 3) in
        if 5 + lenR \<ge> length sig then False
        else let lenS = unat (sig ! (5 + lenR)) in
          if lenR + lenS + (if haveHashType then 7 else 6) \<noteq> length sig then False
          else if sig ! 2 \<noteq> 0x02 then False
          else if lenR = 0 then False
          else if sig ! 4 AND 0x80 \<noteq> 0 then False
          else if lenR > 1 \<and> sig ! 4 = 0x00 \<and> \<not> sig ! 5 AND 0x80 \<noteq> 0 then False
          else if sig ! (lenR + 4) \<noteq> 0x02 then False
          else if lenS = 0 then False
          else if sig ! (lenR + 6) AND 0x80 \<noteq> 0 then False
          else if lenS > 1 \<and> sig ! (lenR + 6) = 0x00 \<and> \<not> sig ! (lenR + 7) AND 0x80 \<noteq> 0 then False
          else True)"

text \<open>\<^verbatim>\<open>CPubKey::CheckLowS\<close> is a call into libsecp256k1, hence an argument.\<close>

definition IsLowDERSignature :: "(valtype \<Rightarrow> bool) \<Rightarrow> valtype \<Rightarrow> bool \<Rightarrow> ScriptError option" where
  "IsLowDERSignature CheckLowS vchSig haveHashType =
     (if \<not> IsValidSignatureEncoding vchSig haveHashType then Some SCRIPT_ERR_SIG_DER
      else let vchSigCopy = take (length vchSig - (if haveHashType then 1 else 0)) vchSig in
        if \<not> CheckLowS vchSigCopy then Some SCRIPT_ERR_SIG_HIGH_S
        else None)"

definition IsDERSignature :: "valtype \<Rightarrow> bool \<Rightarrow> ScriptError option" where
  "IsDERSignature vchSig haveHashType =
     (if \<not> IsValidSignatureEncoding vchSig haveHashType then Some SCRIPT_ERR_SIG_DER else None)"

definition IsDefinedHashtypeSignature :: "valtype \<Rightarrow> bool" where
  "IsDefinedHashtypeSignature vchSig =
     (if length vchSig = 0 then False
      else let nHashType = vchSig ! (length vchSig - 1) AND NOT SIGHASH_ANYONECANPAY in
        if nHashType < SIGHASH_ALL \<or> nHashType > SIGHASH_SINGLE then False else True)"

definition CheckSignatureEncoding ::
  "(valtype \<Rightarrow> bool) \<Rightarrow> valtype \<Rightarrow> uint32 \<Rightarrow> ScriptError option" where
  "CheckSignatureEncoding CheckLowS vchSig flags =
     (if length vchSig = 0 then None
      else if flag flags (SCRIPT_VERIFY_DERSIG OR SCRIPT_VERIFY_LOW_S OR SCRIPT_VERIFY_STRICTENC) \<and>
              \<not> IsValidSignatureEncoding vchSig True
        then Some SCRIPT_ERR_SIG_DER
      else if flag flags SCRIPT_VERIFY_LOW_S \<and> IsLowDERSignature CheckLowS vchSig True \<noteq> None
        then IsLowDERSignature CheckLowS vchSig True
      else if flag flags SCRIPT_VERIFY_STRICTENC \<and> \<not> IsDefinedHashtypeSignature vchSig
        then Some SCRIPT_ERR_SIG_HASHTYPE
      else None)"

definition CheckPubKeyEncoding :: "valtype \<Rightarrow> uint32 \<Rightarrow> SigVersion \<Rightarrow> ScriptError option" where
  "CheckPubKeyEncoding vchPubKey flags sigversion =
     (if flag flags SCRIPT_VERIFY_STRICTENC \<and> \<not> IsCompressedOrUncompressedPubKey vchPubKey
        then Some SCRIPT_ERR_PUBKEYTYPE
      else if flag flags SCRIPT_VERIFY_WITNESS_PUBKEYTYPE \<and> sigversion = WITNESS_V0 \<and>
              \<not> IsCompressedPubKey vchPubKey
        then Some SCRIPT_ERR_WITNESS_PUBKEYTYPE
      else None)"

section \<open>Pushes and script code\<close>

text \<open>The \<^verbatim>\<open>assert\<close> on the opcode is \<open>None\<close> when it fails.\<close>

definition CheckMinimalPush :: "valtype \<Rightarrow> opcodetype \<Rightarrow> bool option" where
  "CheckMinimalPush d opcode =
     (if \<not> opcode \<le> OP_PUSHDATA4 then None
      else if length d = 0 then Some (opcode = OP_0)
      else if length d = 1 \<and> d ! 0 \<ge> 1 \<and> d ! 0 \<le> 16 then Some False
      else if length d = 1 \<and> d ! 0 = 0x81 then Some False
      else if length d \<le> 75 then Some (unat opcode = length d)
      else if length d \<le> 255 then Some (opcode = OP_PUSHDATA1)
      else if length d \<le> 65535 then Some (opcode = OP_PUSHDATA2)
      else Some True)"

text \<open>
  \<^verbatim>\<open>FindAndDelete\<close>. \<open>skip_matches\<close> is the inner loop; the outer \<^verbatim>\<open>do ... while\<close> copies
  the bytes between \<^verbatim>\<open>pc2\<close> and \<^verbatim>\<open>pc\<close> and steps over one instruction.
\<close>

function skip_matches :: "bytes \<Rightarrow> cscript \<Rightarrow> nat \<Rightarrow> cscript \<times> nat" where
  "skip_matches b pc nFound =
     (if b \<noteq> [] \<and> length pc \<ge> length b \<and> take (length b) pc = b
      then skip_matches b (drop (length b) pc) (nFound + 1)
      else (pc, nFound))"
  by pat_completeness auto
termination
  by (relation "measure (\<lambda>(_, pc, _). length pc)") (auto intro!: diff_less)

declare skip_matches.simps [simp del]

lemma skip_matches_shrinks: "length (fst (skip_matches b pc k)) \<le> length pc"
proof (induction b pc k rule: skip_matches.induct)
  case (1 b pc k)
  then show ?case
    by (subst skip_matches.simps) (auto dest: le_trans)
qed

function FindAndDelete_loop ::
  "bytes \<Rightarrow> cscript \<Rightarrow> cscript \<Rightarrow> cscript \<Rightarrow> nat \<Rightarrow> cscript \<times> nat" where
  "FindAndDelete_loop b result pc2 pc nFound =
     (let result' = result @ prefix_to pc2 pc;
          (pc', nFound') = skip_matches b pc nFound
      in case GetOp pc' of
           None \<Rightarrow> (result' @ pc', nFound')
         | Some (_, _, pc'') \<Rightarrow> FindAndDelete_loop b result' pc' pc'' nFound')"
  by pat_completeness auto
termination
proof (relation "measure (\<lambda>(_, _, _, pc, _). length pc)", goal_cases)
  case (2 b result pc2 pc nFound result' x pc' nFound' y opcode z vch pc'')
  have "length pc' \<le> length pc"
    using skip_matches_shrinks [of b pc nFound] 2(2,3) by (metis fst_conv)
  with 2(4-) GetOp_shrinks show ?case by fastforce
qed simp

declare FindAndDelete_loop.simps [simp del]

definition FindAndDelete :: "cscript \<Rightarrow> cscript \<Rightarrow> cscript \<times> nat" where
  "FindAndDelete script b =
     (if b = [] then (script, 0)
      else let (result, nFound) = FindAndDelete_loop b [] script script 0 in
        if nFound > 0 then (result, nFound) else (script, nFound))"

section \<open>Strict DER\<close>

text \<open>A DER integer as BIP66 wants it: not empty, not negative, no needless leading zero byte;
  and the encoding of a signature from its two integers.\<close>

definition der_int :: "bytes \<Rightarrow> bool" where
  "der_int r \<longleftrightarrow> r \<noteq> [] \<and> hd r AND 0x80 = 0 \<and> (length r > 1 \<and> hd r = 0 \<longrightarrow> r ! 1 AND 0x80 \<noteq> 0)"

definition der_sig :: "bytes \<Rightarrow> bytes \<Rightarrow> bytes" where
  "der_sig r s =
     [0x30, of_nat (4 + length r + length s), 0x02, of_nat (length r)] @ r @
     [0x02, of_nat (length s)] @ s"

lemma nth_Cons4 [simp]: "(a # b # c # d # t) ! (4 + n) = t ! n"
  by (simp add: numeral_eq_Suc)

lemma IsValidSignatureEncoding_der_sig:
  assumes "der_int r" "der_int s" "length ht = of_bool haveHashType"
    and "9 \<le> length (der_sig r s @ ht)" "length (der_sig r s @ ht) \<le> 73"
  shows "IsValidSignatureEncoding (der_sig r s @ ht) haveHashType"
proof -
  let ?sig = "der_sig r s @ ht"
  have len: "length ?sig = 6 + length r + length s + length ht"
    by (simp add: der_sig_def)
  then have small: "4 + length r + length s < 256" using assms(3,5) by simp
  have i: "?sig ! 0 = 0x30" "?sig ! 1 = of_nat (4 + length r + length s)" "?sig ! 2 = 0x02"
      "?sig ! 3 = of_nat (length r)"
    by (simp_all add: der_sig_def numeral_eq_Suc)
  have r: "?sig ! (4 + k) = r ! k" if "k < length r" for k
    using that by (simp add: der_sig_def nth_append)
  have r2: "?sig ! (4 + length r) = 0x02" "?sig ! (4 + (length r + 1)) = of_nat (length s)"
    by (simp_all add: der_sig_def nth_append)
  have s: "?sig ! (4 + (length r + 2 + k)) = s ! k" if "k < length s" for k
    using that by (simp add: der_sig_def nth_append)
  have lens: "unat (?sig ! 1) = 4 + length r + length s" "unat (?sig ! 3) = length r"
      "unat (?sig ! (5 + length r)) = length s"
  proof -
    show "unat (?sig ! 1) = 4 + length r + length s"
      unfolding i by (rule unat_of_nat_small [OF small])
    show "unat (?sig ! 3) = length r"
      unfolding i by (rule unat_of_nat_small) (use small in simp)
    have "unat (of_nat (length s) :: byte) = length s"
      by (rule unat_of_nat_small) (use small in simp)
    then show "unat (?sig ! (5 + length r)) = length s"
      using r2(2) by (simp add: add.commute)
  qed
  have rs: "length r > 0" "length s > 0" using assms(1,2) by (auto simp: der_int_def)
  have r0: "?sig ! 4 = hd r" and s0: "?sig ! (length r + 6) = hd s"
    using r [of 0] s [of 0] rs by (simp_all add: hd_conv_nth add.commute)
  have r1: "?sig ! 5 = r ! 1" if "length r > 1" using r [of 1] that by simp
  have s1: "?sig ! (length r + 7) = s ! 1" if "length s > 1"
    using s [of 1] that by (simp add: add.commute)
  have tag: "?sig ! (length r + 4) = 0x02" using r2(1) by (simp add: add.commute)
  have dr: "hd r AND 0x80 = 0" "length r > 1 \<Longrightarrow> hd r = 0 \<Longrightarrow> r ! 1 AND 0x80 \<noteq> 0"
    and ds: "hd s AND 0x80 = 0" "length s > 1 \<Longrightarrow> hd s = 0 \<Longrightarrow> s ! 1 AND 0x80 \<noteq> 0"
    using assms(1,2) by (auto simp: der_int_def)
  show ?thesis
    unfolding IsValidSignatureEncoding_def Let_def lens(2) lens(3) lens(1) i(1,3) r0 s0 tag
    using assms(3-5) len rs dr ds r1 s1 by (cases haveHashType) auto
qed

lemma IsValidSignatureEncodingD:
  assumes "IsValidSignatureEncoding sig haveHashType"
  shows "\<exists>r s ht. sig = der_sig r s @ ht \<and> der_int r \<and> der_int s \<and>
    length ht = of_bool haveHashType"
proof -
  define lenR where "lenR = unat (sig ! 3)"
  define lenS where "lenS = unat (sig ! (5 + lenR))"
  note v = assms [unfolded IsValidSignatureEncoding_def Let_def, folded lenR_def, folded lenS_def]
  have len: "9 \<le> length sig" and tot: "lenR + lenS + (if haveHashType then 7 else 6) = length sig"
    and s0: "sig ! 0 = 0x30" and s1: "unat (sig ! 1) = length sig - (if haveHashType then 3 else 2)"
    and s2: "sig ! 2 = 0x02"
    and R: "lenR \<noteq> 0" "sig ! 4 AND 0x80 = 0" "lenR > 1 \<Longrightarrow> sig ! 4 = 0 \<Longrightarrow> sig ! 5 AND 0x80 \<noteq> 0"
    and t2: "sig ! (lenR + 4) = 0x02"
    and S: "lenS \<noteq> 0" "sig ! (lenR + 6) AND 0x80 = 0"
       "lenS > 1 \<Longrightarrow> sig ! (lenR + 6) = 0 \<Longrightarrow> sig ! (lenR + 7) AND 0x80 \<noteq> 0"
    using v by (simp_all split: if_split_asm)
  define t where "t = drop 4 sig"
  have sig: "sig = [sig ! 0, sig ! 1, sig ! 2, sig ! 3] @ t"
    using len by (intro nth_equalityI) (auto simp: t_def less_Suc_eq numeral_eq_Suc nth_Cons split: nat.split)
  define r where "r = take lenR t"
  define u where "u = drop lenR t"
  define s where "s = take lenS (drop 2 u)"
  define ht where "ht = drop lenS (drop 2 u)"
  have lt: "length t = lenR + lenS + 2 + of_bool haveHashType"
    using tot by (cases haveHashType) (simp_all add: t_def)
  then have u: "u = [u ! 0, u ! 1] @ drop 2 u"
    by (simp add: u_def numeral_eq_Suc Cons_nth_drop_Suc)
  have nt: "sig ! (4 + k) = t ! k" for k using len by (simp add: t_def)
  have nu: "t ! (lenR + k) = u ! k" for k using lt by (simp add: u_def)
  have lr: "length r = lenR" and ls: "length s = lenS" and lh: "length ht = of_bool haveHashType"
    using lt by (simp_all add: r_def s_def ht_def u_def)
  have u0: "u ! 0 = 0x02" using t2 nt [of lenR] nu [of 0] by (simp add: add.commute)
  have u1: "unat (u ! 1) = lenS"
    using nt [of "lenR + 1"] nu [of 1] by (simp add: lenS_def add.commute)
  have "t = r @ [u ! 0, u ! 1] @ s @ ht"
    unfolding r_def s_def ht_def append_take_drop_id u [symmetric] by (simp add: u_def)
  then have "sig = [sig ! 0, sig ! 1, sig ! 2, sig ! 3] @ r @ [u ! 0, u ! 1] @ s @ ht"
    using sig by metis
  moreover have "sig ! 3 = of_nat (length r)"
    unfolding lr lenR_def by simp
  moreover have "u ! 1 = of_nat (length s)"
    unfolding ls u1 [symmetric] by simp
  moreover have "4 + length r + length s = unat (sig ! 1)"
    unfolding s1 lr ls tot [symmetric] by simp
  then have "sig ! 1 = of_nat (4 + length r + length s)" by (simp only:) simp
  ultimately have sg: "sig = der_sig r s @ ht"
    by (simp add: der_sig_def s0 s2 u0)
  have ne: "r \<noteq> []" "s \<noteq> []" using R(1) S(1) lr ls by auto
  have rk: "r ! k = sig ! (4 + k)" if "k < lenR" for k
    unfolding nt using that by (simp add: r_def)
  have sk: "s ! k = sig ! (lenR + 6 + k)" if "k < lenS" for k
  proof -
    have "s ! k = u ! (2 + k)" using that lt by (simp add: s_def u_def)
    also have "\<dots> = sig ! (4 + (lenR + (2 + k)))" by (simp only: nt nu)
    also have "4 + (lenR + (2 + k)) = lenR + 6 + k" by simp
    finally show ?thesis .
  qed
  have h: "hd r = sig ! 4" "hd s = sig ! (lenR + 6)"
    using ne rk [of 0] sk [of 0] R(1) S(1) by (simp_all add: hd_conv_nth)
  have e: "lenR > 1 \<Longrightarrow> r ! 1 = sig ! 5" "lenS > 1 \<Longrightarrow> s ! 1 = sig ! (lenR + 7)"
    using rk [of 1] sk [of 1] by (simp_all add: add.commute)
  have "der_int r" unfolding der_int_def h lr using ne R(2,3) e(1) by simp
  moreover have "der_int s" unfolding der_int_def h ls using ne S(2,3) e(2) by simp
  ultimately show ?thesis using sg lh by blast
qed

text \<open>
  C33. Strict DER: a byte string passes \<^verbatim>\<open>IsValidSignatureEncoding\<close> exactly when it is
  \<^verbatim>\<open>0x30 len 0x02 |R| R 0x02 |S| S\<close> with all lengths consistent, R and S canonical
  non-negative integers without padding, followed by the hash type byte where one is
  expected, and of 9 to 73 bytes in all.
\<close>

theorem IsValidSignatureEncoding_iff:
  "IsValidSignatureEncoding sig haveHashType \<longleftrightarrow>
   (\<exists>r s ht. sig = der_sig r s @ ht \<and> der_int r \<and> der_int s \<and>
     length ht = of_bool haveHashType) \<and> 9 \<le> length sig \<and> length sig \<le> 73"
proof
  assume v: "IsValidSignatureEncoding sig haveHashType"
  then have "9 \<le> length sig" "length sig \<le> 73"
    by (auto simp: IsValidSignatureEncoding_def split: if_splits)
  with IsValidSignatureEncodingD [OF v]
  show "(\<exists>r s ht. sig = der_sig r s @ ht \<and> der_int r \<and> der_int s \<and>
     length ht = of_bool haveHashType) \<and> 9 \<le> length sig \<and> length sig \<le> 73" by blast
qed (use IsValidSignatureEncoding_der_sig in blast)

section \<open>FindAndDelete\<close>

lemma skip_matches_length:
  "skip_matches b pc k = (pc', k') \<Longrightarrow> length pc' + k' * length b = length pc + k * length b \<and> k \<le> k'"
proof (induction b pc k arbitrary: pc' k' rule: skip_matches.induct)
  case (1 b pc k)
  show ?case
  proof (cases "b \<noteq> [] \<and> length b \<le> length pc \<and> take (length b) pc = b")
    case True
    then have "skip_matches b (drop (length b) pc) (k + 1) = (pc', k')"
      using "1.prems" by (subst (asm) skip_matches.simps) (simp split: if_splits)
    from "1.IH" [OF True this] True show ?thesis by simp
  next
    case False
    then show ?thesis using "1.prems" by (subst (asm) skip_matches.simps) auto
  qed
qed

lemma length_prefix_to: "length pc \<le> length pc2 \<Longrightarrow> length (prefix_to pc2 pc) = length pc2 - length pc"
  by (simp add: prefix_to_def)

lemma FindAndDelete_loop_length:
  "FindAndDelete_loop b result pc2 pc k = (r, k') \<Longrightarrow> length pc \<le> length pc2 \<Longrightarrow>
   length r + k' * length b = length result + length pc2 + k * length b \<and> k \<le> k'"
proof (induction b result pc2 pc k arbitrary: r k' rule: FindAndDelete_loop.induct)
  case (1 b result pc2 pc k)
  obtain pc1 k1 where sk: "skip_matches b pc k = (pc1, k1)" by fastforce
  note l = skip_matches_length [OF sk]
  show ?case
  proof (cases "GetOp pc1")
    case None
    then show ?thesis using "1.prems" l sk
      by (subst (asm) FindAndDelete_loop.simps) (auto simp: length_prefix_to)
  next
    case (Some x)
    obtain opc v pc'' where x: "x = (opc, v, pc'')" by (cases x)
    have rec: "FindAndDelete_loop b (result @ prefix_to pc2 pc) pc1 pc'' k1 = (r, k')"
      using "1.prems"(1) sk Some x by (subst (asm) FindAndDelete_loop.simps) simp
    have "length pc'' \<le> length pc1" using Some x GetOp_shrinks by fastforce
    from "1.IH" [OF refl refl sk [symmetric] Some x [symmetric] refl rec this]
    have "length r + k' * length b = length (result @ prefix_to pc2 pc) + length pc1 + k1 * length b"
      "k1 \<le> k'" by simp_all
    moreover have "length (result @ prefix_to pc2 pc) + length pc = length result + length pc2"
      using "1.prems"(2) by (simp add: length_prefix_to)
    ultimately show ?thesis using l by linarith
  qed
qed

lemma FindAndDelete_length:
  "FindAndDelete script b = (script', k) \<Longrightarrow> length script' + k * length b = length script"
  using FindAndDelete_loop_length [of b "[]" script script 0]
  by (auto simp: FindAndDelete_def split: if_splits prod.splits)

end
