(* ===== verification/ScriptOps.thy ===== *)
theory ScriptOps
  imports SigEncoding "HOL-Library.Sublist"
begin

text \<open>
  The opcodes of the script interpreter, \<^verbatim>\<open>EvalScript\<close> in
  \<^verbatim>\<open>src/script/interpreter.cpp\<close>: one definition per case of its \<^verbatim>\<open>switch\<close>. A stack is
  a list with the top (\<^verbatim>\<open>stack.back()\<close>) at the head, so \<^verbatim>\<open>stacktop(-i)\<close> is element
  \<open>i - 1\<close>. A script error is \<open>Inl (ScriptErr e)\<close>; \<open>Inl Crash\<close> is a failed
  \<^verbatim>\<open>assert\<close> or a signed overflow, which no theorem below takes for granted not to happen.
\<close>

section \<open>Results, checker and hash functions\<close>

datatype script_fail = ScriptErr ScriptError | Crash

type_synonym 'a sres = "script_fail + 'a"
type_synonym valstack = "valtype list"

text \<open>The virtual methods of \<^verbatim>\<open>BaseSignatureChecker\<close>.\<close>

record checker =
  chk_CheckSig :: "valtype \<Rightarrow> valtype \<Rightarrow> cscript \<Rightarrow> SigVersion \<Rightarrow> bool"
  chk_CheckLockTime :: "int \<Rightarrow> bool"
  chk_CheckSequence :: "int \<Rightarrow> bool"

definition BaseSignatureChecker :: checker where
  "BaseSignatureChecker = \<lparr>chk_CheckSig = (\<lambda>_ _ _ _. False),
     chk_CheckLockTime = (\<lambda>_. False), chk_CheckSequence = (\<lambda>_. False)\<rparr>"

text \<open>The compression functions of \<^verbatim>\<open>src/crypto\<close> and the call into libsecp256k1.\<close>

record crypto =
  cr_SHA256 :: "bytes \<Rightarrow> bytes"
  cr_SHA1 :: "bytes \<Rightarrow> bytes"
  cr_RIPEMD160 :: "bytes \<Rightarrow> bytes"
  cr_CheckLowS :: "valtype \<Rightarrow> bool"

definition CHash160 :: "crypto \<Rightarrow> bytes \<Rightarrow> bytes" where
  "CHash160 cr data = cr_RIPEMD160 cr (cr_SHA256 cr data)"

definition CHash256 :: "crypto \<Rightarrow> bytes \<Rightarrow> bytes" where
  "CHash256 cr data = cr_SHA256 cr (cr_SHA256 cr data)"

record eval_env =
  ev_flags :: uint32
  ev_sigversion :: SigVersion
  ev_checker :: checker
  ev_crypto :: crypto

definition require_minimal :: "eval_env \<Rightarrow> bool" where
  "require_minimal env = flag (ev_flags env) SCRIPT_VERIFY_MINIMALDATA"

abbreviation serr :: "ScriptError \<Rightarrow> 'a sres" where "serr e \<equiv> Inl (ScriptErr e)"
abbreviation stack_err :: "'a sres" where
  "stack_err \<equiv> serr SCRIPT_ERR_INVALID_STACK_OPERATION"

fun assert_some :: "'a option \<Rightarrow> 'a sres" where
  "assert_some None = Inl Crash"
| "assert_some (Some x) = Inr x"

fun check :: "ScriptError option \<Rightarrow> unit sres" where
  "check None = Inr ()"
| "check (Some e) = serr e"

text \<open>The constructor of \<^verbatim>\<open>CScriptNum\<close> throws; the handler of \<^verbatim>\<open>EvalScript\<close> maps that to
  \<^verbatim>\<open>SCRIPT_ERR_UNKNOWN_ERROR\<close>.\<close>

definition script_num :: "bool \<Rightarrow> nat \<Rightarrow> valtype \<Rightarrow> int sres" where
  "script_num fRequireMinimal nMaxNumSize vch =
     (case CScriptNum vch fRequireMinimal nMaxNumSize of
        Inl _ \<Rightarrow> serr SCRIPT_ERR_UNKNOWN_ERROR
      | Inr bn \<Rightarrow> Inr bn)"

definition vchFalse :: valtype where "vchFalse = []"
definition vchTrue :: valtype where "vchTrue = [1]"
definition vchBool :: "bool \<Rightarrow> valtype" where "vchBool f = (if f then vchTrue else vchFalse)"

section \<open>Lock times\<close>

definition op_checklocktimeverify :: "eval_env \<Rightarrow> valstack \<Rightarrow> valstack sres" where
  "op_checklocktimeverify env stack =
     (if \<not> flag (ev_flags env) SCRIPT_VERIFY_CHECKLOCKTIMEVERIFY then Inr stack
      else if stack = [] then stack_err
      else bind_res (script_num (require_minimal env) 5 (stack ! 0)) (\<lambda>nLockTime.
        if nLockTime < 0 then serr SCRIPT_ERR_NEGATIVE_LOCKTIME
        else if \<not> chk_CheckLockTime (ev_checker env) nLockTime
          then serr SCRIPT_ERR_UNSATISFIED_LOCKTIME
        else Inr stack))"

definition SEQUENCE_LOCKTIME_DISABLE_FLAG :: int where "SEQUENCE_LOCKTIME_DISABLE_FLAG = 2 ^ 31"

definition op_checksequenceverify :: "eval_env \<Rightarrow> valstack \<Rightarrow> valstack sres" where
  "op_checksequenceverify env stack =
     (if \<not> flag (ev_flags env) SCRIPT_VERIFY_CHECKSEQUENCEVERIFY then Inr stack
      else if stack = [] then stack_err
      else bind_res (script_num (require_minimal env) 5 (stack ! 0)) (\<lambda>nSequence.
        if nSequence < 0 then serr SCRIPT_ERR_NEGATIVE_LOCKTIME
        else if nSequence AND SEQUENCE_LOCKTIME_DISABLE_FLAG \<noteq> 0 then Inr stack
        else if \<not> chk_CheckSequence (ev_checker env) nSequence
          then serr SCRIPT_ERR_UNSATISFIED_LOCKTIME
        else Inr stack))"

definition op_nop_n :: "eval_env \<Rightarrow> valstack \<Rightarrow> valstack sres" where
  "op_nop_n env stack =
     (if flag (ev_flags env) SCRIPT_VERIFY_DISCOURAGE_UPGRADABLE_NOPS
      then serr SCRIPT_ERR_DISCOURAGE_UPGRADABLE_NOPS else Inr stack)"

section \<open>Conditionals\<close>

text \<open>\<^verbatim>\<open>vfExec\<close> has its back at the head. \<^verbatim>\<open>OP_IF\<close> is also interpreted in a branch that
  is not executed, with \<open>fExec\<close> false.\<close>

definition op_if :: "eval_env \<Rightarrow> bool \<Rightarrow> opcodetype \<Rightarrow> valstack \<Rightarrow> bool list \<Rightarrow>
    (valstack \<times> bool list) sres" where
  "op_if env fExec opcode stack vfExec =
     (if fExec then
        (case stack of
           [] \<Rightarrow> serr SCRIPT_ERR_UNBALANCED_CONDITIONAL
         | vch # stack' \<Rightarrow>
             if ev_sigversion env = WITNESS_V0 \<and> flag (ev_flags env) SCRIPT_VERIFY_MINIMALIF \<and>
                (length vch > 1 \<or> (length vch = 1 \<and> vch ! 0 \<noteq> 1))
             then serr SCRIPT_ERR_MINIMALIF
             else let fValue = (if opcode = OP_NOTIF then \<not> CastToBool vch else CastToBool vch)
               in Inr (stack', fValue # vfExec))
      else Inr (stack, False # vfExec))"

fun op_else :: "bool list \<Rightarrow> bool list sres" where
  "op_else [] = serr SCRIPT_ERR_UNBALANCED_CONDITIONAL"
| "op_else (f # vfExec) = Inr ((\<not> f) # vfExec)"

fun op_endif :: "bool list \<Rightarrow> bool list sres" where
  "op_endif [] = serr SCRIPT_ERR_UNBALANCED_CONDITIONAL"
| "op_endif (f # vfExec) = Inr vfExec"

fun op_verify :: "valstack \<Rightarrow> valstack sres" where
  "op_verify [] = stack_err"
| "op_verify (vch # stack) = (if CastToBool vch then Inr stack else serr SCRIPT_ERR_VERIFY)"

section \<open>Stack operations\<close>

fun op_toaltstack :: "valstack \<Rightarrow> valstack \<Rightarrow> (valstack \<times> valstack) sres" where
  "op_toaltstack [] altstack = stack_err"
| "op_toaltstack (x # stack) altstack = Inr (stack, x # altstack)"

fun op_fromaltstack :: "valstack \<Rightarrow> valstack \<Rightarrow> (valstack \<times> valstack) sres" where
  "op_fromaltstack stack [] = serr SCRIPT_ERR_INVALID_ALTSTACK_OPERATION"
| "op_fromaltstack stack (x # altstack) = Inr (x # stack, altstack)"

fun op_2drop :: "valstack \<Rightarrow> valstack sres" where
  "op_2drop (x2 # x1 # stack) = Inr stack"
| "op_2drop _ = stack_err"

fun op_2dup :: "valstack \<Rightarrow> valstack sres" where
  "op_2dup (x2 # x1 # stack) = Inr (x2 # x1 # x2 # x1 # stack)"
| "op_2dup _ = stack_err"

fun op_3dup :: "valstack \<Rightarrow> valstack sres" where
  "op_3dup (x3 # x2 # x1 # stack) = Inr (x3 # x2 # x1 # x3 # x2 # x1 # stack)"
| "op_3dup _ = stack_err"

fun op_2over :: "valstack \<Rightarrow> valstack sres" where
  "op_2over (x4 # x3 # x2 # x1 # stack) = Inr (x2 # x1 # x4 # x3 # x2 # x1 # stack)"
| "op_2over _ = stack_err"

fun op_2rot :: "valstack \<Rightarrow> valstack sres" where
  "op_2rot (x6 # x5 # x4 # x3 # x2 # x1 # stack) = Inr (x2 # x1 # x6 # x5 # x4 # x3 # stack)"
| "op_2rot _ = stack_err"

fun op_2swap :: "valstack \<Rightarrow> valstack sres" where
  "op_2swap (x4 # x3 # x2 # x1 # stack) = Inr (x2 # x1 # x4 # x3 # stack)"
| "op_2swap _ = stack_err"

fun op_ifdup :: "valstack \<Rightarrow> valstack sres" where
  "op_ifdup (vch # stack) = Inr (if CastToBool vch then vch # vch # stack else vch # stack)"
| "op_ifdup _ = stack_err"

definition op_depth :: "valstack \<Rightarrow> valstack sres" where
  "op_depth stack = Inr (serialize (int (length stack)) # stack)"

fun op_drop :: "valstack \<Rightarrow> valstack sres" where
  "op_drop (x # stack) = Inr stack"
| "op_drop _ = stack_err"

fun op_dup :: "valstack \<Rightarrow> valstack sres" where
  "op_dup (x # stack) = Inr (x # x # stack)"
| "op_dup _ = stack_err"

fun op_nip :: "valstack \<Rightarrow> valstack sres" where
  "op_nip (x2 # x1 # stack) = Inr (x2 # stack)"
| "op_nip _ = stack_err"

fun op_over :: "valstack \<Rightarrow> valstack sres" where
  "op_over (x2 # x1 # stack) = Inr (x1 # x2 # x1 # stack)"
| "op_over _ = stack_err"

definition op_pick_roll :: "bool \<Rightarrow> opcodetype \<Rightarrow> valstack \<Rightarrow> valstack sres" where
  "op_pick_roll fRequireMinimal opcode stack =
     (if length stack < 2 then stack_err
      else bind_res (script_num fRequireMinimal nDefaultMaxNumSize (stack ! 0)) (\<lambda>bn.
        let n = getint bn; stack' = tl stack in
        if n < 0 \<or> n \<ge> int (length stack') then stack_err
        else let vch = stack' ! nat n in
          Inr (vch # (if opcode = OP_ROLL then take (nat n) stack' @ drop (nat n + 1) stack'
                      else stack'))))"

fun op_rot :: "valstack \<Rightarrow> valstack sres" where
  "op_rot (x3 # x2 # x1 # stack) = Inr (x1 # x3 # x2 # stack)"
| "op_rot _ = stack_err"

fun op_swap :: "valstack \<Rightarrow> valstack sres" where
  "op_swap (x2 # x1 # stack) = Inr (x1 # x2 # stack)"
| "op_swap _ = stack_err"

fun op_tuck :: "valstack \<Rightarrow> valstack sres" where
  "op_tuck (x2 # x1 # stack) = Inr (x2 # x1 # x2 # stack)"
| "op_tuck _ = stack_err"

fun op_size :: "valstack \<Rightarrow> valstack sres" where
  "op_size (x # stack) = Inr (serialize (int (length x)) # x # stack)"
| "op_size _ = stack_err"

section \<open>Comparison and arithmetic\<close>

fun op_equal :: "opcodetype \<Rightarrow> valstack \<Rightarrow> valstack sres" where
  "op_equal opcode (vch2 # vch1 # stack) =
     (let fEqual = (vch1 = vch2) in
      if opcode = OP_EQUALVERIFY
      then (if fEqual then Inr stack else serr SCRIPT_ERR_EQUALVERIFY)
      else Inr (vchBool fEqual # stack))"
| "op_equal _ _ = stack_err"

definition unary_num :: "opcodetype \<Rightarrow> int \<Rightarrow> int option" where
  "unary_num opcode bn =
     (if opcode = OP_1ADD then scriptnum_plus_eq bn 1
      else if opcode = OP_1SUB then scriptnum_minus_eq bn 1
      else if opcode = OP_NEGATE then scriptnum_neg bn
      else if opcode = OP_ABS then (if bn < 0 then scriptnum_neg bn else Some bn)
      else if opcode = OP_NOT then Some (of_bool (bn = 0))
      else if opcode = OP_0NOTEQUAL then Some (of_bool (bn \<noteq> 0))
      else None)"

fun op_unary :: "bool \<Rightarrow> opcodetype \<Rightarrow> valstack \<Rightarrow> valstack sres" where
  "op_unary fRequireMinimal opcode (x # stack) =
     bind_res (script_num fRequireMinimal nDefaultMaxNumSize x) (\<lambda>bn.
     bind_res (assert_some (unary_num opcode bn)) (\<lambda>bn'.
     Inr (serialize bn' # stack)))"
| "op_unary _ _ _ = stack_err"

text \<open>\<^verbatim>\<open>CScriptNum::operator+\<close> and \<^verbatim>\<open>operator-\<close> are plain 64-bit signed arithmetic.\<close>

definition int64_ok :: "int \<Rightarrow> int option" where
  "int64_ok v = (if int64_min \<le> v \<and> v \<le> int64_max then Some v else None)"

definition binary_num :: "opcodetype \<Rightarrow> int \<Rightarrow> int \<Rightarrow> int option" where
  "binary_num opcode bn1 bn2 =
     (if opcode = OP_ADD then int64_ok (bn1 + bn2)
      else if opcode = OP_SUB then int64_ok (bn1 - bn2)
      else if opcode = OP_BOOLAND then Some (of_bool (bn1 \<noteq> 0 \<and> bn2 \<noteq> 0))
      else if opcode = OP_BOOLOR then Some (of_bool (bn1 \<noteq> 0 \<or> bn2 \<noteq> 0))
      else if opcode = OP_NUMEQUAL then Some (of_bool (bn1 = bn2))
      else if opcode = OP_NUMEQUALVERIFY then Some (of_bool (bn1 = bn2))
      else if opcode = OP_NUMNOTEQUAL then Some (of_bool (bn1 \<noteq> bn2))
      else if opcode = OP_LESSTHAN then Some (of_bool (bn1 < bn2))
      else if opcode = OP_GREATERTHAN then Some (of_bool (bn1 > bn2))
      else if opcode = OP_LESSTHANOREQUAL then Some (of_bool (bn1 \<le> bn2))
      else if opcode = OP_GREATERTHANOREQUAL then Some (of_bool (bn1 \<ge> bn2))
      else if opcode = OP_MIN then Some (if bn1 < bn2 then bn1 else bn2)
      else if opcode = OP_MAX then Some (if bn1 > bn2 then bn1 else bn2)
      else None)"

fun op_binary :: "bool \<Rightarrow> opcodetype \<Rightarrow> valstack \<Rightarrow> valstack sres" where
  "op_binary fRequireMinimal opcode (x2 # x1 # stack) =
     bind_res (script_num fRequireMinimal nDefaultMaxNumSize x1) (\<lambda>bn1.
     bind_res (script_num fRequireMinimal nDefaultMaxNumSize x2) (\<lambda>bn2.
     bind_res (assert_some (binary_num opcode bn1 bn2)) (\<lambda>bn.
     if opcode = OP_NUMEQUALVERIFY
     then (if CastToBool (serialize bn) then Inr stack else serr SCRIPT_ERR_NUMEQUALVERIFY)
     else Inr (serialize bn # stack))))"
| "op_binary _ _ _ = stack_err"

fun op_within :: "bool \<Rightarrow> valstack \<Rightarrow> valstack sres" where
  "op_within fRequireMinimal (x3 # x2 # x1 # stack) =
     bind_res (script_num fRequireMinimal nDefaultMaxNumSize x1) (\<lambda>bn1.
     bind_res (script_num fRequireMinimal nDefaultMaxNumSize x2) (\<lambda>bn2.
     bind_res (script_num fRequireMinimal nDefaultMaxNumSize x3) (\<lambda>bn3.
     Inr (vchBool (bn2 \<le> bn1 \<and> bn1 < bn3) # stack))))"
| "op_within _ _ = stack_err"

section \<open>Hashes and signatures\<close>

definition hash_op :: "crypto \<Rightarrow> opcodetype \<Rightarrow> valtype \<Rightarrow> valtype" where
  "hash_op cr opcode vch =
     (if opcode = OP_RIPEMD160 then cr_RIPEMD160 cr vch
      else if opcode = OP_SHA1 then cr_SHA1 cr vch
      else if opcode = OP_SHA256 then cr_SHA256 cr vch
      else if opcode = OP_HASH160 then CHash160 cr vch
      else CHash256 cr vch)"

fun op_hash :: "crypto \<Rightarrow> opcodetype \<Rightarrow> valstack \<Rightarrow> valstack sres" where
  "op_hash cr opcode (vch # stack) = Inr (hash_op cr opcode vch # stack)"
| "op_hash _ _ _ = stack_err"

text \<open>Dropping a signature from the script code before it is hashed.\<close>

definition drop_sig :: "eval_env \<Rightarrow> cscript \<Rightarrow> valtype \<Rightarrow> cscript sres" where
  "drop_sig env scriptCode vchSig =
     (if ev_sigversion env = BASE then
        let (scriptCode', found) = FindAndDelete scriptCode (push_data vchSig) in
        if found > 0 \<and> flag (ev_flags env) SCRIPT_VERIFY_CONST_SCRIPTCODE
        then serr SCRIPT_ERR_SIG_FINDANDDELETE
        else Inr scriptCode'
      else Inr scriptCode)"

definition check_encodings :: "eval_env \<Rightarrow> valtype \<Rightarrow> valtype \<Rightarrow> unit sres" where
  "check_encodings env vchSig vchPubKey =
     bind_res (check (CheckSignatureEncoding (cr_CheckLowS (ev_crypto env)) vchSig (ev_flags env)))
       (\<lambda>_. check (CheckPubKeyEncoding vchPubKey (ev_flags env) (ev_sigversion env)))"

fun op_checksig :: "eval_env \<Rightarrow> opcodetype \<Rightarrow> cscript \<Rightarrow> valstack \<Rightarrow> valstack sres" where
  "op_checksig env opcode codehash (vchPubKey # vchSig # stack) =
     bind_res (drop_sig env codehash vchSig) (\<lambda>scriptCode.
     bind_res (check_encodings env vchSig vchPubKey) (\<lambda>_.
     let fSuccess = chk_CheckSig (ev_checker env) vchSig vchPubKey scriptCode (ev_sigversion env) in
     if \<not> fSuccess \<and> flag (ev_flags env) SCRIPT_VERIFY_NULLFAIL \<and> length vchSig > 0
     then serr SCRIPT_ERR_SIG_NULLFAIL
     else if opcode = OP_CHECKSIGVERIFY
     then (if fSuccess then Inr stack else serr SCRIPT_ERR_CHECKSIGVERIFY)
     else Inr (vchBool fSuccess # stack)))"
| "op_checksig _ _ _ _ = stack_err"

text \<open>
  \<^verbatim>\<open>OP_CHECKMULTISIG\<close>: dropping the signatures, the matching loop (the signatures and keys
  not yet used, in stack order), and the clean-up loop, whose count is the items left to pop.
\<close>

fun drop_sigs :: "eval_env \<Rightarrow> cscript \<Rightarrow> valtype list \<Rightarrow> cscript sres" where
  "drop_sigs env scriptCode [] = Inr scriptCode"
| "drop_sigs env scriptCode (vchSig # sigs) =
     bind_res (drop_sig env scriptCode vchSig) (\<lambda>scriptCode'. drop_sigs env scriptCode' sigs)"

fun multisig_loop :: "eval_env \<Rightarrow> cscript \<Rightarrow> valtype list \<Rightarrow> valtype list \<Rightarrow> bool sres" where
  "multisig_loop env scriptCode [] keys = Inr True"
| "multisig_loop env scriptCode (vchSig # sigs) [] = Inr False"
| "multisig_loop env scriptCode (vchSig # sigs) (vchPubKey # keys) =
     bind_res (check_encodings env vchSig vchPubKey) (\<lambda>_.
     let fOk = chk_CheckSig (ev_checker env) vchSig vchPubKey scriptCode (ev_sigversion env);
         sigs' = (if fOk then sigs else vchSig # sigs)
     in if length sigs' > length keys then Inr False
        else multisig_loop env scriptCode sigs' keys)"

fun multisig_cleanup :: "eval_env \<Rightarrow> bool \<Rightarrow> nat \<Rightarrow> nat \<Rightarrow> valstack \<Rightarrow> valstack sres" where
  "multisig_cleanup env fSuccess 0 ikey2 stack = Inr stack"
| "multisig_cleanup env fSuccess (Suc i) ikey2 stack =
     (if \<not> fSuccess \<and> flag (ev_flags env) SCRIPT_VERIFY_NULLFAIL \<and> ikey2 = 0 \<and> length (hd stack) > 0
      then serr SCRIPT_ERR_SIG_NULLFAIL
      else multisig_cleanup env fSuccess i (ikey2 - 1) (tl stack))"

definition multisig_finish :: "eval_env \<Rightarrow> opcodetype \<Rightarrow> bool \<Rightarrow> valstack \<Rightarrow> valstack sres" where
  "multisig_finish env opcode fSuccess stack =
     (if length stack < 1 then stack_err
      else if flag (ev_flags env) SCRIPT_VERIFY_NULLDUMMY \<and> length (hd stack) > 0
        then serr SCRIPT_ERR_SIG_NULLDUMMY
      else if opcode = OP_CHECKMULTISIGVERIFY
        then (if fSuccess then Inr (tl stack) else serr SCRIPT_ERR_CHECKMULTISIGVERIFY)
      else Inr (vchBool fSuccess # tl stack))"

text \<open>The key and signature counts, read from the stack with their guards; the result is the
  new operation count, the two counts.\<close>

definition multisig_counts :: "eval_env \<Rightarrow> nat \<Rightarrow> valstack \<Rightarrow> (nat \<times> nat \<times> nat) sres" where
  "multisig_counts env nOpCount stack =
     (if length stack < 1 then stack_err
      else bind_res (script_num (require_minimal env) nDefaultMaxNumSize (stack ! 0)) (\<lambda>bnKeys.
        if getint bnKeys < 0 \<or> getint bnKeys > int MAX_PUBKEYS_PER_MULTISIG
          then serr SCRIPT_ERR_PUBKEY_COUNT
        else let nKeysCount = nat (getint bnKeys); nOpCount' = nOpCount + nKeysCount in
        if nOpCount' > MAX_OPS_PER_SCRIPT then serr SCRIPT_ERR_OP_COUNT
        else if length stack < nKeysCount + 2 then stack_err
        else bind_res (script_num (require_minimal env) nDefaultMaxNumSize (stack ! (nKeysCount + 1)))
          (\<lambda>bnSigs.
            if getint bnSigs < 0 \<or> getint bnSigs > int nKeysCount then serr SCRIPT_ERR_SIG_COUNT
            else let nSigsCount = nat (getint bnSigs) in
              if length stack < nKeysCount + 3 + nSigsCount then stack_err
              else Inr (nOpCount', nKeysCount, nSigsCount))))"

definition op_checkmultisig ::
  "eval_env \<Rightarrow> opcodetype \<Rightarrow> cscript \<Rightarrow> nat \<Rightarrow> valstack \<Rightarrow> (nat \<times> valstack) sres" where
  "op_checkmultisig env opcode codehash nOpCount stack =
     bind_res (multisig_counts env nOpCount stack) (\<lambda>(nOpCount', nKeysCount, nSigsCount).
     let keys = take nKeysCount (drop 1 stack);
         sigs = take nSigsCount (drop (nKeysCount + 2) stack)
     in bind_res (drop_sigs env codehash sigs) (\<lambda>scriptCode.
        bind_res (multisig_loop env scriptCode sigs keys) (\<lambda>fSuccess.
        bind_res (multisig_cleanup env fSuccess (nKeysCount + nSigsCount + 2) (nKeysCount + 2) stack)
          (\<lambda>stack'.
        bind_res (multisig_finish env opcode fSuccess stack') (\<lambda>stack''.
        Inr (nOpCount', stack''))))))"

section \<open>Safety of the stack operations\<close>

text \<open>
  What the interpreter loop relies on for each operation: it never crashes, grows the stack by
  at most three elements, and keeps every element within \<^verbatim>\<open>MAX_SCRIPT_ELEMENT_SIZE\<close>.
\<close>

definition elems_ok :: "valstack \<Rightarrow> bool" where
  "elems_ok s \<longleftrightarrow> (\<forall>x\<in>set s. length x \<le> MAX_SCRIPT_ELEMENT_SIZE)"

definition stack_ok :: "valstack \<Rightarrow> bool" where
  "stack_ok s \<longleftrightarrow> length s \<le> MAX_STACK_SIZE \<and> elems_ok s"

definition safe_op :: "(valstack \<Rightarrow> valstack sres) \<Rightarrow> bool" where
  "safe_op f \<longleftrightarrow> (\<forall>s. f s \<noteq> Inl Crash \<and>
     (\<forall>s'. f s = Inr s' \<longrightarrow> length s' \<le> length s + 3 \<and> (stack_ok s \<longrightarrow> elems_ok s')))"

text \<open>The documented digest sizes of the hash functions.\<close>

definition crypto_ok :: "crypto \<Rightarrow> bool" where
  "crypto_ok cr \<longleftrightarrow> (\<forall>x. length (cr_SHA256 cr x) = 32 \<and> length (cr_SHA1 cr x) = 20 \<and>
     length (cr_RIPEMD160 cr x) = 20)"

named_theorems safe_ops

lemma elems_ok_simps [simp]:
  "elems_ok []"
  "elems_ok (x # s) \<longleftrightarrow> length x \<le> MAX_SCRIPT_ELEMENT_SIZE \<and> elems_ok s"
  "elems_ok (s @ t) \<longleftrightarrow> elems_ok s \<and> elems_ok t"
  by (auto simp: elems_ok_def)

lemma elems_ok_takeI: "elems_ok s \<Longrightarrow> elems_ok (take k s)"
  by (auto simp: elems_ok_def dest: in_set_takeD)

lemma elems_ok_dropI: "elems_ok s \<Longrightarrow> elems_ok (drop k s)"
  by (auto simp: elems_ok_def dest: in_set_dropD)

lemma elems_ok_tlI: "elems_ok s \<Longrightarrow> elems_ok (tl s)"
  by (cases s) auto

lemma elems_ok_nthD: "elems_ok s \<Longrightarrow> k < length s \<Longrightarrow> length (s ! k) \<le> MAX_SCRIPT_ELEMENT_SIZE"
  by (simp add: elems_ok_def)

lemma safe_opI:
  assumes "\<And>s. f s \<noteq> Inl Crash" and "\<And>s s'. f s = Inr s' \<Longrightarrow> length s' \<le> length s + 3"
    and "\<And>s s'. f s = Inr s' \<Longrightarrow> stack_ok s \<Longrightarrow> elems_ok s'"
  shows "safe_op f"
  using assms by (simp add: safe_op_def)

lemma safe_opD:
  assumes "safe_op f"
  shows "f s \<noteq> Inl Crash" and "f s = Inr s' \<Longrightarrow> length s' \<le> length s + 3"
    and "f s = Inr s' \<Longrightarrow> stack_ok s \<Longrightarrow> elems_ok s'"
  using assms by (simp_all add: safe_op_def)

lemma safe_op_if [intro]:
  "(c \<Longrightarrow> safe_op f) \<Longrightarrow> (\<not> c \<Longrightarrow> safe_op g) \<Longrightarrow> safe_op (\<lambda>s. if c then f s else g s)"
  by (cases c) simp_all

lemma safe_op_error [safe_ops]: "safe_op (\<lambda>s. serr e)"
  by (simp add: safe_op_def)

lemma stack_ok_elems: "stack_ok s \<Longrightarrow> elems_ok s"
  by (simp add: stack_ok_def)

lemma stack_ok_Cons: "stack_ok (x # s) \<Longrightarrow> length x \<le> MAX_SCRIPT_ELEMENT_SIZE \<and> stack_ok s"
  by (simp add: stack_ok_def)

lemma assert_some_eq [simp]:
  "assert_some x = Inr y \<longleftrightarrow> x = Some y" "assert_some x = Inl e \<longleftrightarrow> x = None \<and> e = Crash"
  by (cases x; auto)+

text \<open>Numbers.\<close>

lemma script_num_no_crash [simp]: "script_num m k vch \<noteq> Inl Crash"
  by (auto simp: script_num_def split: sum.splits)

lemma script_num_InrD:
  assumes "script_num m k vch = Inr v" and "0 < k" and "k \<le> 8"
  shows "\<bar>v\<bar> < 2 ^ (8 * k - 1)"
proof -
  from assms(1) have c: "CScriptNum vch m k = Inr v"
    by (simp add: script_num_def split: sum.splits)
  from CScriptNum_InrD [OF c assms(3)] sm_value_bound [OF _ assms(2)] show ?thesis by blast
qed

lemma script_num4:
  assumes "script_num m nDefaultMaxNumSize vch = Inr v"
  shows "\<bar>v\<bar> < 2 ^ 31"
  using script_num_InrD [OF assms] by (simp add: nDefaultMaxNumSize_def)

lemma length_serialize_small: "\<bar>v\<bar> < 2 ^ 39 \<Longrightarrow> length (serialize v) \<le> MAX_SCRIPT_ELEMENT_SIZE"
  using length_serialize_le [of v 5] by (simp add: MAX_SCRIPT_ELEMENT_SIZE_def)

lemma length_vchBool [simp]: "length (vchBool f) \<le> MAX_SCRIPT_ELEMENT_SIZE"
  by (simp add: vchBool_def vchTrue_def vchFalse_def MAX_SCRIPT_ELEMENT_SIZE_def)

lemma check_no_crash [simp]: "check e \<noteq> Inl Crash"
  by (cases e) auto

lemma unary_num_Some:
  assumes "\<bar>bn\<bar> < 2 ^ 31" and "opcode \<in> {OP_1ADD, OP_1SUB, OP_NEGATE, OP_ABS, OP_NOT, OP_0NOTEQUAL}"
  shows "\<exists>v. unary_num opcode bn = Some v \<and> \<bar>v\<bar> < 2 ^ 39"
  using assms
  by (auto simp: unary_num_def scriptnum_plus_eq_def scriptnum_minus_eq_def scriptnum_neg_def
      int64_min_def int64_max_def of_bool_def)

lemma binary_num_Some:
  assumes "\<bar>bn1\<bar> < 2 ^ 31" and "\<bar>bn2\<bar> < 2 ^ 31"
    and "opcode \<in> {OP_ADD, OP_SUB, OP_BOOLAND, OP_BOOLOR, OP_NUMEQUAL, OP_NUMEQUALVERIFY,
      OP_NUMNOTEQUAL, OP_LESSTHAN, OP_GREATERTHAN, OP_LESSTHANOREQUAL, OP_GREATERTHANOREQUAL,
      OP_MIN, OP_MAX}"
  shows "\<exists>v. binary_num opcode bn1 bn2 = Some v \<and> \<bar>v\<bar> < 2 ^ 39"
proof -
  have "int64_ok (bn1 + bn2) = Some (bn1 + bn2)" "int64_ok (bn1 - bn2) = Some (bn1 - bn2)"
    "\<bar>bn1 + bn2\<bar> < 2 ^ 39" "\<bar>bn1 - bn2\<bar> < 2 ^ 39"
    using assms(1,2) by (auto simp: int64_ok_def int64_min_def int64_max_def)
  then show ?thesis
    using assms by (elim insertE) (simp_all add: binary_num_def of_bool_def)
qed

lemma safe_op_verify [safe_ops]: "safe_op op_verify"
  by (rule safe_opI) (auto elim!: op_verify.elims dest: stack_ok_elems split: if_splits)

lemma safe_op_2drop [safe_ops]: "safe_op op_2drop"
  by (rule safe_opI) (auto elim!: op_2drop.elims dest: stack_ok_elems)

lemma safe_op_2dup [safe_ops]: "safe_op op_2dup"
  by (rule safe_opI) (auto elim!: op_2dup.elims dest: stack_ok_elems)

lemma safe_op_3dup [safe_ops]: "safe_op op_3dup"
  by (rule safe_opI) (auto elim!: op_3dup.elims dest: stack_ok_elems)

lemma safe_op_2over [safe_ops]: "safe_op op_2over"
  by (rule safe_opI) (auto elim!: op_2over.elims dest: stack_ok_elems)

lemma safe_op_2rot [safe_ops]: "safe_op op_2rot"
  by (rule safe_opI) (auto elim!: op_2rot.elims dest: stack_ok_elems)

lemma safe_op_2swap [safe_ops]: "safe_op op_2swap"
  by (rule safe_opI) (auto elim!: op_2swap.elims dest: stack_ok_elems)

lemma safe_op_ifdup [safe_ops]: "safe_op op_ifdup"
  by (rule safe_opI) (auto elim!: op_ifdup.elims dest: stack_ok_elems)

lemma safe_op_depth [safe_ops]: "safe_op op_depth"
  by (rule safe_opI)
    (auto simp: op_depth_def stack_ok_def MAX_STACK_SIZE_def intro!: length_serialize_small)

lemma safe_op_drop [safe_ops]: "safe_op op_drop"
  by (rule safe_opI) (auto elim!: op_drop.elims dest: stack_ok_elems)

lemma safe_op_dup [safe_ops]: "safe_op op_dup"
  by (rule safe_opI) (auto elim!: op_dup.elims dest: stack_ok_elems)

lemma safe_op_nip [safe_ops]: "safe_op op_nip"
  by (rule safe_opI) (auto elim!: op_nip.elims dest: stack_ok_elems)

lemma safe_op_over [safe_ops]: "safe_op op_over"
  by (rule safe_opI) (auto elim!: op_over.elims dest: stack_ok_elems)

lemma safe_op_rot [safe_ops]: "safe_op op_rot"
  by (rule safe_opI) (auto elim!: op_rot.elims dest: stack_ok_elems)

lemma safe_op_swap [safe_ops]: "safe_op op_swap"
  by (rule safe_opI) (auto elim!: op_swap.elims dest: stack_ok_elems)

lemma safe_op_tuck [safe_ops]: "safe_op op_tuck"
  by (rule safe_opI) (auto elim!: op_tuck.elims dest: stack_ok_elems)

lemma safe_op_size [safe_ops]: "safe_op op_size"
  by (rule safe_opI)
    (auto elim!: op_size.elims dest!: stack_ok_elems simp: MAX_SCRIPT_ELEMENT_SIZE_def
      intro!: length_serialize_small [unfolded MAX_SCRIPT_ELEMENT_SIZE_def])

lemma safe_op_equal [safe_ops]: "safe_op (op_equal opcode)"
  by (rule safe_opI) (auto elim!: op_equal.elims dest: stack_ok_elems simp: Let_def split: if_splits)

lemma safe_op_unary [safe_ops]:
  assumes op: "opcode \<in> {OP_1ADD, OP_1SUB, OP_NEGATE, OP_ABS, OP_NOT, OP_0NOTEQUAL}"
  shows "safe_op (op_unary m opcode)"
proof -
  have u: "\<exists>v. unary_num opcode bn = Some v \<and> length (serialize v) \<le> MAX_SCRIPT_ELEMENT_SIZE"
    if "script_num m nDefaultMaxNumSize x = Inr bn" for x bn
    using unary_num_Some [OF script_num4 [OF that] op] length_serialize_small by blast
  then have l: "length (serialize v) \<le> MAX_SCRIPT_ELEMENT_SIZE"
    if "script_num m nDefaultMaxNumSize x = Inr bn" "unary_num opcode bn = Some v" for x bn v
    using that by fastforce
  show ?thesis
  proof (rule safe_opI)
    show "op_unary m opcode s \<noteq> Inl Crash" for s
      by (cases s) (auto simp: bind_res_Inl_conv dest: u)
  qed (auto elim!: op_unary.elims dest!: stack_ok_elems, erule (1) l)
qed

lemma safe_op_binary [safe_ops]:
  assumes op: "opcode \<in> {OP_ADD, OP_SUB, OP_BOOLAND, OP_BOOLOR, OP_NUMEQUAL, OP_NUMEQUALVERIFY,
      OP_NUMNOTEQUAL, OP_LESSTHAN, OP_GREATERTHAN, OP_LESSTHANOREQUAL, OP_GREATERTHANOREQUAL,
      OP_MIN, OP_MAX}"
  shows "safe_op (op_binary m opcode)"
proof -
  have u: "\<exists>v. binary_num opcode bn1 bn2 = Some v \<and> length (serialize v) \<le> MAX_SCRIPT_ELEMENT_SIZE"
    if "script_num m nDefaultMaxNumSize x = Inr bn1" "script_num m nDefaultMaxNumSize y = Inr bn2"
    for x y bn1 bn2
    using binary_num_Some [OF script_num4 [OF that(1)] script_num4 [OF that(2)] op]
      length_serialize_small by blast
  then have l: "length (serialize v) \<le> MAX_SCRIPT_ELEMENT_SIZE"
    if "script_num m nDefaultMaxNumSize x = Inr bn1" "script_num m nDefaultMaxNumSize y = Inr bn2"
      "binary_num opcode bn1 bn2 = Some v" for x y bn1 bn2 v
    using that by fastforce
  show ?thesis
  proof (rule safe_opI)
    show "op_binary m opcode s \<noteq> Inl Crash" for s
      by (cases "(m, opcode, s)" rule: op_binary.cases)
        (auto simp: bind_res_Inl_conv dest: u split: if_splits)
  qed (auto elim!: op_binary.elims dest!: stack_ok_elems split: if_splits, (erule (2) l)+)
qed

lemma safe_op_within [safe_ops]: "safe_op (op_within m)"
proof (rule safe_opI)
  show "op_within m s \<noteq> Inl Crash" for s
    by (cases "(m, s)" rule: op_within.cases) (auto simp: bind_res_Inl_conv)
qed (auto elim!: op_within.elims dest!: stack_ok_elems)

lemma safe_op_pick_roll [safe_ops]: "safe_op (op_pick_roll m opcode)"
proof (rule safe_opI)
  show "op_pick_roll m opcode s \<noteq> Inl Crash" for s
    by (auto simp: op_pick_roll_def bind_res_Inl_conv Let_def)
next
  fix s s' assume r: "op_pick_roll m opcode s = Inr s'"
  then show "length s' \<le> length s + 3"
    by (auto simp: op_pick_roll_def Let_def split: if_splits)
  assume "stack_ok s"
  then have e: "elems_ok (tl s)" by (simp add: elems_ok_tlI stack_ok_elems)
  from r show "elems_ok s'"
    using elems_ok_takeI [OF e] elems_ok_dropI [OF e] e
    by (auto simp: op_pick_roll_def Let_def intro!: elems_ok_nthD split: if_splits)
qed

lemma safe_op_hash [safe_ops]: "crypto_ok cr \<Longrightarrow> safe_op (op_hash cr opcode)"
  by (rule safe_opI)
    (auto elim!: op_hash.elims dest!: stack_ok_elems
      simp: hash_op_def CHash160_def CHash256_def crypto_ok_def MAX_SCRIPT_ELEMENT_SIZE_def)

lemma safe_op_cltv [safe_ops]: "safe_op (op_checklocktimeverify env)"
  by (rule safe_opI)
    (auto simp: op_checklocktimeverify_def bind_res_Inl_conv stack_ok_elems split: if_splits)

lemma safe_op_csv [safe_ops]: "safe_op (op_checksequenceverify env)"
  by (rule safe_opI)
    (auto simp: op_checksequenceverify_def bind_res_Inl_conv stack_ok_elems split: if_splits)

lemma safe_op_nop_n [safe_ops]: "safe_op (op_nop_n env)"
  by (rule safe_opI) (auto simp: op_nop_n_def stack_ok_elems split: if_splits)

lemma drop_sig_no_crash [simp]: "drop_sig env scriptCode vchSig \<noteq> Inl Crash"
  by (simp add: drop_sig_def Let_def split: prod.split)

lemma check_encodings_no_crash [simp]: "check_encodings env vchSig vchPubKey \<noteq> Inl Crash"
  by (simp add: check_encodings_def bind_res_Inl_conv)

lemma safe_op_checksig [safe_ops]: "safe_op (op_checksig env opcode codehash)"
proof (rule safe_opI)
  show "op_checksig env opcode codehash s \<noteq> Inl Crash" for s
    by (cases "(env, opcode, codehash, s)" rule: op_checksig.cases)
      (auto simp: bind_res_Inl_conv Let_def)
qed (auto elim!: op_checksig.elims dest!: stack_ok_elems simp: Let_def split: if_splits)

section \<open>Multisignatures\<close>

lemma drop_sigs_no_crash [simp]: "drop_sigs env scriptCode sigs \<noteq> Inl Crash"
  by (induction sigs arbitrary: scriptCode) (auto simp: bind_res_Inl_conv)

lemma multisig_loop_no_crash [simp]: "multisig_loop env scriptCode sigs keys \<noteq> Inl Crash"
  by (induction env scriptCode sigs keys rule: multisig_loop.induct)
    (auto simp: bind_res_Inl_conv Let_def)

lemma multisig_cleanup_no_crash [simp]: "multisig_cleanup env f i k s \<noteq> Inl Crash"
  by (induction env f i k s rule: multisig_cleanup.induct) auto

lemma multisig_cleanup_drop: "multisig_cleanup env f i k s = Inr s' \<Longrightarrow> s' = drop i s"
  by (induction env f i k s rule: multisig_cleanup.induct) (auto simp: drop_Suc split: if_splits)

lemma multisig_counts_no_crash [simp]: "multisig_counts env nOpCount s \<noteq> Inl Crash"
  by (auto simp: multisig_counts_def bind_res_Inl_conv Let_def)

lemma multisig_counts_InrD:
  assumes "multisig_counts env nOpCount s = Inr (n', nKeys, nSigs)"
  shows "n' = nOpCount + nKeys" "n' \<le> MAX_OPS_PER_SCRIPT" "nKeys \<le> MAX_PUBKEYS_PER_MULTISIG"
    "nSigs \<le> nKeys" "nKeys + 3 + nSigs \<le> length s"
  using assms
  by (auto simp: multisig_counts_def Let_def split: if_splits)

lemma multisig_finish_no_crash [simp]: "multisig_finish env opcode f s \<noteq> Inl Crash"
  by (simp add: multisig_finish_def)

lemma op_checkmultisig_no_crash [simp]: "op_checkmultisig env opcode ch n s \<noteq> Inl Crash"
  by (auto simp: op_checkmultisig_def bind_res_Inl_conv Let_def)

lemma op_checkmultisig_InrD:
  assumes "op_checkmultisig env opcode codehash nOpCount s = Inr (n', s')"
  shows "length s' \<le> length s" "stack_ok s \<Longrightarrow> elems_ok s'" "nOpCount \<le> n'" "n' \<le> MAX_OPS_PER_SCRIPT"
proof -
  obtain nKeys nSigs fS s1 where c: "multisig_counts env nOpCount s = Inr (n', nKeys, nSigs)"
    and cl: "multisig_cleanup env fS (nKeys + nSigs + 2) (nKeys + 2) s = Inr s1"
    and fin: "multisig_finish env opcode fS s1 = Inr s'"
    using assms by (auto simp: op_checkmultisig_def Let_def split: prod.splits)
  note d = multisig_counts_InrD [OF c] and s1 = multisig_cleanup_drop [OF cl]
  show "nOpCount \<le> n'" "n' \<le> MAX_OPS_PER_SCRIPT" using d by simp_all
  show "length s' \<le> length s"
    using fin s1 d by (auto simp: multisig_finish_def split: if_splits)
  assume "stack_ok s"
  then have "elems_ok s1" using s1 by (simp add: elems_ok_dropI stack_ok_elems)
  then show "elems_ok s'"
    using fin by (auto simp: multisig_finish_def elems_ok_tlI split: if_splits)
qed

text \<open>The greedy matching of signatures to keys is complete: it finds an order-preserving
  assignment whenever there is one.\<close>

lemma matching_drop_key:
  assumes "subseq ks (k # keys)" and "list_all2 P (s # sigs) ks" and "\<not> P s k"
  shows "subseq ks keys"
  using assms by (cases ks) (auto simp: subseq_Cons2_iff split: if_splits)

lemma matching_take_key:
  assumes "subseq ks (k # keys)" and "list_all2 P (s # sigs) ks"
  shows "\<exists>ks'. subseq ks' keys \<and> list_all2 P sigs ks'"
proof -
  obtain y ys where ks: "ks = y # ys" "list_all2 P sigs ys"
    using assms(2) by (cases ks) auto
  then have "subseq ys keys" using assms(1) by (auto simp: subseq_Cons2_iff dest: subseq_Cons' split: if_splits)
  with ks show ?thesis by blast
qed

lemma multisig_loop_iff:
  assumes "\<And>s k. s \<in> set sigs \<Longrightarrow> k \<in> set keys \<Longrightarrow> check_encodings env s k = Inr ()"
    and P_def: "P = (\<lambda>s k. chk_CheckSig (ev_checker env) s k scriptCode (ev_sigversion env))"
  shows "multisig_loop env scriptCode sigs keys =
    Inr (\<exists>ks. subseq ks keys \<and> list_all2 P sigs ks)"
  using assms(1)
proof (induction keys arbitrary: sigs)
  case Nil
  have n: "ks = []" if "subseq ks []" for ks :: "valtype list"
    using list_emb_length [OF that] by simp
  show ?case by (cases sigs) (auto dest!: n)
next
  case (Cons k keys)
  note IH = Cons.IH and prems = Cons.prems
  let ?ex = "\<lambda>sigs keys. \<exists>ks. subseq ks keys \<and> list_all2 P sigs ks"
  have long: "\<not> ?ex ss' keys" if "length ss' > length keys" for ss'
  proof
    assume "?ex ss' keys"
    then obtain ks where "subseq ks keys" "list_all2 P ss' ks" by blast
    then have "length ss' \<le> length keys"
      using list_emb_length [of "(=)" ks keys] list_all2_lengthD [of P ss' ks] by linarith
    with that show False by simp
  qed
  show ?case
  proof (cases sigs)
    case Nil
    then show ?thesis by (auto intro!: exI [of _ "[]"])
  next
    case sigs: (Cons s ss)
    have enc: "check_encodings env s k = Inr ()" using prems sigs by simp
    have rec: "multisig_loop env scriptCode sigs (k # keys) =
        (let sigs' = if P s k then ss else s # ss
         in if length sigs' > length keys then Inr False else multisig_loop env scriptCode sigs' keys)"
      unfolding sigs by (simp add: enc P_def Let_def)
    have IH': "multisig_loop env scriptCode ss' keys = Inr (?ex ss' keys)" if "set ss' \<subseteq> set sigs" for ss'
      using that prems by (intro IH) auto
    have step: "multisig_loop env scriptCode sigs (k # keys) = Inr (?ex (if P s k then ss else s # ss) keys)"
      unfolding rec Let_def using long IH' sigs by (auto simp del: list_all2_Cons1)
    show ?thesis
    proof (cases "P s k")
      case True
      have "?ex (s # ss) (k # keys) \<longleftrightarrow> ?ex ss keys"
      proof
        assume "?ex ss keys"
        then obtain ks where "subseq ks keys" "list_all2 P ss ks" by blast
        then have "subseq (k # ks) (k # keys)" "list_all2 P (s # ss) (k # ks)" using True by auto
        then show "?ex (s # ss) (k # keys)" by blast
      next
        assume "?ex (s # ss) (k # keys)"
        then show "?ex ss keys" using matching_take_key [of _ k keys P s ss] by blast
      qed
      then show ?thesis unfolding step using True sigs by (simp only: if_True)
    next
      case False
      have "?ex (s # ss) (k # keys) \<longleftrightarrow> ?ex (s # ss) keys"
      proof
        assume "?ex (s # ss) keys"
        then show "?ex (s # ss) (k # keys)" using list_emb_Cons by blast
      next
        assume "?ex (s # ss) (k # keys)"
        then show "?ex (s # ss) keys" using matching_drop_key [of _ k keys P s ss] False by blast
      qed
      then show ?thesis unfolding step using False sigs by (simp only: if_False)
    qed
  qed
qed

lemma script_num_serialize [simp]:
  "k < 2 ^ 31 \<Longrightarrow> script_num m nDefaultMaxNumSize (serialize (int k)) = Inr (int k)"
  unfolding script_num_def nDefaultMaxNumSize_def
  by (subst CScriptNum_serialize) (simp_all flip: of_nat_less_iff)

lemma getint_small [simp]: "k < 2 ^ 31 \<Longrightarrow> getint (int k) = int k"
  by (simp add: getint_def int32_max_def int32_min_def)

lemma multisig_cleanup_ok:
  "f \<or> \<not> flag (ev_flags env) SCRIPT_VERIFY_NULLFAIL \<Longrightarrow> multisig_cleanup env f i k s = Inr (drop i s)"
  by (induction i arbitrary: k s) (auto simp: drop_Suc)

text \<open>
  C3. \<^verbatim>\<open>OP_CHECKMULTISIG\<close> on a stack with \<open>m\<close> signatures for \<open>n\<close> keys (in range, all
  encodings accepted, null dummy) consumes exactly its arguments, charges \<open>n\<close> operations and
  pushes true exactly when some order-preserving choice of keys verifies all the signatures:
  the single greedy pass of the code misses no valid assignment. (When the pass fails and
  \<^verbatim>\<open>SCRIPT_VERIFY_NULLFAIL\<close> is set the signatures must be empty, the last hypothesis.)
\<close>

theorem op_checkmultisig_matching:
  assumes "length keys \<le> MAX_PUBKEYS_PER_MULTISIG" and "length sigs \<le> length keys"
    and "nOpCount + length keys \<le> MAX_OPS_PER_SCRIPT"
    and "\<And>s k. s \<in> set sigs \<Longrightarrow> k \<in> set keys \<Longrightarrow> check_encodings env s k = Inr ()"
    and "drop_sigs env codehash sigs = Inr scriptCode"
    and "matched = (\<exists>ks. subseq ks keys \<and> list_all2 (\<lambda>s k.
      chk_CheckSig (ev_checker env) s k scriptCode (ev_sigversion env)) sigs ks)"
    and "matched \<or> \<not> flag (ev_flags env) SCRIPT_VERIFY_NULLFAIL"
  shows "op_checkmultisig env OP_CHECKMULTISIG codehash nOpCount
      (serialize (int (length keys)) # keys @ serialize (int (length sigs)) # sigs @ [] # rest) =
    Inr (nOpCount + length keys, vchBool matched # rest)"
proof -
  let ?s = "serialize (int (length keys)) # keys @ serialize (int (length sigs)) # sigs @ [] # rest"
  have small: "length keys < 2 ^ 31" "length sigs < 2 ^ 31"
    using assms(1,2) by (simp_all add: MAX_PUBKEYS_PER_MULTISIG_def)
  have "?s ! (length keys + 1) = serialize (int (length sigs))" by (simp add: nth_append)
  then have c: "multisig_counts env nOpCount ?s = Inr (nOpCount + length keys, length keys, length sigs)"
    using assms(1-3) small by (simp add: multisig_counts_def Let_def del: power_numeral)
  have d: "take (length keys) (drop 1 ?s) = keys" "take (length sigs) (drop (length keys + 2) ?s) = sigs"
    "drop (length keys + length sigs + 2) ?s = [] # rest"
    by simp_all
  have l: "multisig_loop env scriptCode sigs keys = Inr matched"
    unfolding assms(6) by (rule multisig_loop_iff [OF assms(4) refl])
  have cl: "multisig_cleanup env matched (length keys + length sigs + 2) (length keys + 2) ?s =
      Inr ([] # rest)"
    unfolding multisig_cleanup_ok [OF assms(7)] d ..
  show ?thesis
    unfolding op_checkmultisig_def c bind_res.simps prod.case d Let_def assms(5) l cl
    by (simp add: multisig_finish_def)
qed

theorem op_checkmultisig_matching_witness:
  "op_checkmultisig
     \<lparr>ev_flags = SCRIPT_VERIFY_NULLFAIL, ev_sigversion = WITNESS_V0,
      ev_checker = BaseSignatureChecker\<lparr>chk_CheckSig := \<lambda>s k _ _. s = [9] \<and> k = [3]\<rparr>,
      ev_crypto = \<lparr>cr_SHA256 = id, cr_SHA1 = id, cr_RIPEMD160 = id, cr_CheckLowS = \<lambda>_. True\<rparr>\<rparr>
     OP_CHECKMULTISIG [] 1 [[2], [2], [3], [1], [9], [], [7]] = Inr (3, [[1], [7]])"
proof -
  let ?env = "\<lparr>ev_flags = SCRIPT_VERIFY_NULLFAIL, ev_sigversion = WITNESS_V0,
      ev_checker = BaseSignatureChecker\<lparr>chk_CheckSig := \<lambda>s k _ _. s = [9] \<and> k = [3]\<rparr>,
      ev_crypto = \<lparr>cr_SHA256 = id, cr_SHA1 = id, cr_RIPEMD160 = id, cr_CheckLowS = \<lambda>_. True\<rparr>\<rparr>"
  have enc: "check_encodings ?env s k = Inr ()" for s k
    by (simp add: check_encodings_def CheckSignatureEncoding_def CheckPubKeyEncoding_def flag_def)
  have "subseq [[3]] [[2], [3 :: byte]]" by simp
  then have m: "True = (\<exists>ks. subseq ks [[2], [3]] \<and> list_all2 (\<lambda>s k.
      chk_CheckSig (ev_checker ?env) s k [] (ev_sigversion ?env)) [[9]] ks)"
    by (intro iffI TrueI exI [of _ "[[3]]"]) simp_all
  have "drop_sigs ?env [] [[9]] = Inr []" by (simp add: drop_sig_def)
  from op_checkmultisig_matching [OF _ _ _ enc this m, of 1 "[[7]]"]
  show ?thesis
    by (simp add: MAX_PUBKEYS_PER_MULTISIG_def MAX_OPS_PER_SCRIPT_def serialize_def abs_bytes.simps
        vchBool_def vchTrue_def)
qed

section \<open>Flags are soft forks\<close>

text \<open>
  \<open>weaker e1 e2\<close>: the environments differ only in flags, and \<open>e1\<close> sets no flag that \<open>e2\<close>
  does not set, except that both agree on \<^verbatim>\<open>SCRIPT_OUTPUT_SENDER\<close>.
\<close>

definition flags_le :: "uint32 \<Rightarrow> uint32 \<Rightarrow> bool" where
  "flags_le f g \<longleftrightarrow> f AND g = f"

definition weaker :: "eval_env \<Rightarrow> eval_env \<Rightarrow> bool" where
  "weaker e1 e2 \<longleftrightarrow> flags_le (ev_flags e1) (ev_flags e2) \<and>
     e1\<lparr>ev_flags := ev_flags e2\<rparr> = e2 \<and>
     flag (ev_flags e1) SCRIPT_OUTPUT_SENDER = flag (ev_flags e2) SCRIPT_OUTPUT_SENDER"

named_theorems soft_fork

lemma flag_mono: "flags_le f g \<Longrightarrow> flag f b \<Longrightarrow> flag g b"
  unfolding flags_le_def flag_def by (metis and.assoc and_zero_eq)

lemma weakerD:
  assumes "weaker e1 e2"
  shows "flag (ev_flags e1) b \<Longrightarrow> flag (ev_flags e2) b"
    and "ev_sigversion e1 = ev_sigversion e2" "ev_checker e1 = ev_checker e2"
    and "ev_crypto e1 = ev_crypto e2"
    and "flag (ev_flags e1) SCRIPT_OUTPUT_SENDER = flag (ev_flags e2) SCRIPT_OUTPUT_SENDER"
    and "flags_le (ev_flags e1) (ev_flags e2)"
proof -
  show "ev_sigversion e1 = ev_sigversion e2" "ev_checker e1 = ev_checker e2"
    "ev_crypto e1 = ev_crypto e2"
    using assms by (auto simp: weaker_def dest: arg_cong [of _ _ ev_sigversion]
        arg_cong [of _ _ ev_checker] arg_cong [of _ _ ev_crypto])
qed (use assms in \<open>auto simp: weaker_def intro: flag_mono\<close>)

lemma CheckSignatureEncoding_mono:
  "flags_le f g \<Longrightarrow> CheckSignatureEncoding low vchSig g = None \<Longrightarrow> CheckSignatureEncoding low vchSig f = None"
  by (auto simp: CheckSignatureEncoding_def dest: flag_mono split: if_splits)

lemma CheckPubKeyEncoding_mono:
  "flags_le f g \<Longrightarrow> CheckPubKeyEncoding k g sv = None \<Longrightarrow> CheckPubKeyEncoding k f sv = None"
  by (auto simp: CheckPubKeyEncoding_def dest: flag_mono split: if_splits)

lemma check_eq_Inr [simp]: "check e = Inr u \<longleftrightarrow> e = None"
  by (cases e) auto

lemma script_num_mono:
  "weaker e1 e2 \<Longrightarrow> script_num (require_minimal e2) k v = Inr n \<Longrightarrow>
   script_num (require_minimal e1) k v = Inr n"
  using weakerD(1) [of e1 e2 SCRIPT_VERIFY_MINIMALDATA]
  by (auto simp: script_num_def require_minimal_def CScriptNum_def split: if_splits sum.splits)

lemma bind_res_mono:
  "bind_res m f = Inr r \<Longrightarrow> (\<And>x. m = Inr x \<Longrightarrow> m' = Inr x) \<Longrightarrow> bind_res m' f = Inr r"
  by auto

lemma soft_fork_cltv [soft_fork]:
  assumes w: "weaker e1 e2" and r: "op_checklocktimeverify e2 s = Inr s'"
  shows "op_checklocktimeverify e1 s = Inr s'"
proof (cases "flag (ev_flags e1) SCRIPT_VERIFY_CHECKLOCKTIMEVERIFY")
  case True
  from r show ?thesis
    unfolding op_checklocktimeverify_def weakerD(3) [OF w]
    using True weakerD(1) [OF w True]
    by (auto simp del: bind_res_Inr_conv Inr_eq_bind_res elim!: bind_res_mono intro: script_num_mono [OF w]
        split: if_split_asm)
next
  case False
  with r show ?thesis by (auto simp: op_checklocktimeverify_def split: if_splits)
qed

lemma soft_fork_csv [soft_fork]:
  assumes w: "weaker e1 e2" and r: "op_checksequenceverify e2 s = Inr s'"
  shows "op_checksequenceverify e1 s = Inr s'"
proof (cases "flag (ev_flags e1) SCRIPT_VERIFY_CHECKSEQUENCEVERIFY")
  case True
  from r show ?thesis
    unfolding op_checksequenceverify_def weakerD(3) [OF w]
    using True weakerD(1) [OF w True]
    by (auto simp del: bind_res_Inr_conv Inr_eq_bind_res elim!: bind_res_mono intro: script_num_mono [OF w]
        split: if_split_asm)
next
  case False
  with r show ?thesis by (auto simp: op_checksequenceverify_def split: if_splits)
qed

lemma soft_fork_nop_n [soft_fork]:
  assumes w: "weaker e1 e2" and r: "op_nop_n e2 s = Inr s'"
  shows "op_nop_n e1 s = Inr s'"
  using r weakerD(1) [OF w, of SCRIPT_VERIFY_DISCOURAGE_UPGRADABLE_NOPS]
  by (auto simp: op_nop_n_def split: if_splits)

lemma soft_fork_if [soft_fork]:
  assumes w: "weaker e1 e2" and r: "op_if e2 x opcode s v = Inr r"
  shows "op_if e1 x opcode s v = Inr r"
  using r weakerD(1) [OF w, of SCRIPT_VERIFY_MINIMALIF]
  by (auto simp: op_if_def weakerD(2) [OF w] Let_def split: if_splits list.splits)

lemma soft_fork_pick_roll [soft_fork]:
  assumes w: "weaker e1 e2" and r: "op_pick_roll (require_minimal e2) opcode s = Inr s'"
  shows "op_pick_roll (require_minimal e1) opcode s = Inr s'"
  using r
  by (auto simp: op_pick_roll_def script_num_mono [OF w] split: if_splits)

lemma soft_fork_unary [soft_fork]:
  assumes w: "weaker e1 e2" and r: "op_unary (require_minimal e2) opcode s = Inr s'"
  shows "op_unary (require_minimal e1) opcode s = Inr s'"
  using r
  by (cases s) (auto simp: script_num_mono [OF w])

lemma soft_fork_binary [soft_fork]:
  assumes w: "weaker e1 e2" and r: "op_binary (require_minimal e2) opcode s = Inr s'"
  shows "op_binary (require_minimal e1) opcode s = Inr s'"
  using r
  by (cases "(require_minimal e1, opcode, s)" rule: op_binary.cases)
    (auto simp: script_num_mono [OF w] split: if_split_asm)

lemma soft_fork_within [soft_fork]:
  assumes w: "weaker e1 e2" and r: "op_within (require_minimal e2) s = Inr s'"
  shows "op_within (require_minimal e1) s = Inr s'"
  using r
  by (cases "(require_minimal e1, s)" rule: op_within.cases) (auto simp: script_num_mono [OF w])

lemma soft_fork_drop_sig [soft_fork]:
  assumes w: "weaker e1 e2" and r: "drop_sig e2 c s = Inr c'"
  shows "drop_sig e1 c s = Inr c'"
  using r weakerD(1) [OF w, of SCRIPT_VERIFY_CONST_SCRIPTCODE]
  by (auto simp: drop_sig_def weakerD(2) [OF w] Let_def split: if_splits prod.splits)

lemma soft_fork_check_encodings [soft_fork]:
  assumes w: "weaker e1 e2" and r: "check_encodings e2 s k = Inr u"
  shows "check_encodings e1 s k = Inr u"
  using r weakerD(2-6) [OF w]
  by (auto simp: check_encodings_def dest: CheckSignatureEncoding_mono CheckPubKeyEncoding_mono)

lemma soft_fork_checksig [soft_fork]:
  assumes "weaker e1 e2" and "op_checksig e2 opcode c s = Inr s'"
  shows "op_checksig e1 opcode c s = Inr s'"
  using assms(2) weakerD(1) [OF assms(1), of SCRIPT_VERIFY_NULLFAIL]
  by (cases "(e1, opcode, c, s)" rule: op_checksig.cases)
    (auto simp: Let_def weakerD(2,3) [OF assms(1)] soft_fork_drop_sig [OF assms(1)]
      soft_fork_check_encodings [OF assms(1)] split: if_splits)

lemma soft_fork_drop_sigs [soft_fork]:
  assumes w: "weaker e1 e2" and r: "drop_sigs e2 c sigs = Inr c'"
  shows "drop_sigs e1 c sigs = Inr c'"
  using r
  by (induction sigs arbitrary: c) (auto simp: soft_fork_drop_sig [OF w])

lemma soft_fork_multisig_loop [soft_fork]:
  assumes w: "weaker e1 e2" and r: "multisig_loop e2 c sigs keys = Inr r"
  shows "multisig_loop e1 c sigs keys = Inr r"
  using r
proof (induction keys arbitrary: sigs)
  case Nil
  then show ?case by (cases sigs) auto
next
  case (Cons k keys)
  show ?case
  proof (cases sigs)
    case Nil
    with Cons.prems show ?thesis by simp
  next
    case (Cons s ss)
    then show ?thesis
      using Cons.prems Cons.IH [of ss] Cons.IH [of "s # ss"]
      by (auto simp: Let_def weakerD(2,3) [OF w] soft_fork_check_encodings [OF w] split: if_split_asm)
  qed
qed

lemma soft_fork_multisig_cleanup [soft_fork]:
  assumes "weaker e1 e2" and "multisig_cleanup e2 f i k s = Inr s'"
  shows "multisig_cleanup e1 f i k s = Inr s'"
  using assms(2) weakerD(1) [OF assms(1), of SCRIPT_VERIFY_NULLFAIL]
  by (induction i arbitrary: k s) (auto split: if_splits)

lemma soft_fork_multisig_counts [soft_fork]:
  assumes w: "weaker e1 e2" and r: "multisig_counts e2 n s = Inr r"
  shows "multisig_counts e1 n s = Inr r"
proof -
  obtain k where k: "script_num (require_minimal e2) nDefaultMaxNumSize (s ! 0) = Inr k"
    using r unfolding multisig_counts_def
    by (cases "script_num (require_minimal e2) nDefaultMaxNumSize (s ! 0)") (simp_all split: if_split_asm)
  obtain m where m: "script_num (require_minimal e2) nDefaultMaxNumSize (s ! (nat (getint k) + 1)) = Inr m"
    using r unfolding multisig_counts_def k bind_res.simps Let_def
    by (cases "script_num (require_minimal e2) nDefaultMaxNumSize (s ! (nat (getint k) + 1))")
      (simp_all split: if_split_asm)
  have "multisig_counts e1 n s = multisig_counts e2 n s"
    unfolding multisig_counts_def k script_num_mono [OF w k] bind_res.simps Let_def
      m script_num_mono [OF w m] ..
  with r show ?thesis by simp
qed

lemma soft_fork_multisig_finish [soft_fork]:
  assumes w: "weaker e1 e2" and r: "multisig_finish e2 opcode f s = Inr s'"
  shows "multisig_finish e1 opcode f s = Inr s'"
  using r weakerD(1) [OF w, of SCRIPT_VERIFY_NULLDUMMY]
  by (auto simp: multisig_finish_def split: if_splits)

lemma soft_fork_checkmultisig [soft_fork]:
  assumes "weaker e1 e2" and "op_checkmultisig e2 opcode c n s = Inr r"
  shows "op_checkmultisig e1 opcode c n s = Inr r"
  using assms(2)
  by (auto simp: op_checkmultisig_def Let_def split: prod.splits
      dest!: soft_fork [OF assms(1)])

end
