(* ===== verification/Interpreter.thy ===== *)
theory Interpreter
  imports ScriptOps
begin

text \<open>
  The script interpreter loop \<^verbatim>\<open>EvalScript\<close>, \<^verbatim>\<open>VerifyWitnessProgram\<close>,
  \<^verbatim>\<open>VerifyScript\<close> and the witness signature-operation counts, from
  \<^verbatim>\<open>src/script/interpreter.cpp\<close>. The iterator \<^verbatim>\<open>pc\<close> is the rest of the script.
\<close>

section \<open>One instruction\<close>

record estate =
  es_stack :: valstack
  es_altstack :: valstack
  es_vfExec :: "bool list"
  es_codehash :: cscript
  es_nOpCount :: nat

text \<open>An instruction continues with a new state or makes \<^verbatim>\<open>EvalScript\<close> return true.\<close>

datatype step_result = Next estate | Return valstack

definition on_stack :: "estate \<Rightarrow> valstack sres \<Rightarrow> step_result sres" where
  "on_stack st r = bind_res r (\<lambda>stack. Inr (Next (st\<lparr>es_stack := stack\<rparr>)))"

definition is_disabled :: "opcodetype \<Rightarrow> bool" where
  "is_disabled opcode \<longleftrightarrow>
     opcode = OP_CAT \<or> opcode = OP_SUBSTR \<or> opcode = OP_LEFT \<or> opcode = OP_RIGHT \<or>
     opcode = OP_INVERT \<or> opcode = OP_AND \<or> opcode = OP_OR \<or> opcode = OP_XOR \<or>
     opcode = OP_2MUL \<or> opcode = OP_2DIV \<or> opcode = OP_MUL \<or> opcode = OP_DIV \<or>
     opcode = OP_MOD \<or> opcode = OP_LSHIFT \<or> opcode = OP_RSHIFT"

definition op_small_int :: "opcodetype \<Rightarrow> valstack \<Rightarrow> valstack sres" where
  "op_small_int opcode stack =
     Inr (serialize (int (unat opcode) - (int (unat OP_1) - 1)) # stack)"

text \<open>The opcodes that only rearrange or compute on the main stack.\<close>

definition exec_stack_op :: "eval_env \<Rightarrow> opcodetype \<Rightarrow> valstack \<Rightarrow> valstack sres" where
  "exec_stack_op env opcode stack =
     (if opcode = OP_VERIFY then op_verify stack
      else if opcode = OP_RETURN then serr SCRIPT_ERR_OP_RETURN
      else if opcode = OP_2DROP then op_2drop stack
      else if opcode = OP_2DUP then op_2dup stack
      else if opcode = OP_3DUP then op_3dup stack
      else if opcode = OP_2OVER then op_2over stack
      else if opcode = OP_2ROT then op_2rot stack
      else if opcode = OP_2SWAP then op_2swap stack
      else if opcode = OP_IFDUP then op_ifdup stack
      else if opcode = OP_DEPTH then op_depth stack
      else if opcode = OP_DROP then op_drop stack
      else if opcode = OP_DUP then op_dup stack
      else if opcode = OP_NIP then op_nip stack
      else if opcode = OP_OVER then op_over stack
      else if opcode = OP_PICK \<or> opcode = OP_ROLL
        then op_pick_roll (require_minimal env) opcode stack
      else if opcode = OP_ROT then op_rot stack
      else if opcode = OP_SWAP then op_swap stack
      else if opcode = OP_TUCK then op_tuck stack
      else if opcode = OP_SIZE then op_size stack
      else if opcode = OP_EQUAL \<or> opcode = OP_EQUALVERIFY then op_equal opcode stack
      else if opcode \<in> {OP_1ADD, OP_1SUB, OP_NEGATE, OP_ABS, OP_NOT, OP_0NOTEQUAL}
        then op_unary (require_minimal env) opcode stack
      else if opcode \<in> {OP_ADD, OP_SUB, OP_BOOLAND, OP_BOOLOR, OP_NUMEQUAL, OP_NUMEQUALVERIFY,
            OP_NUMNOTEQUAL, OP_LESSTHAN, OP_GREATERTHAN, OP_LESSTHANOREQUAL,
            OP_GREATERTHANOREQUAL, OP_MIN, OP_MAX}
        then op_binary (require_minimal env) opcode stack
      else if opcode = OP_WITHIN then op_within (require_minimal env) stack
      else if opcode \<in> {OP_RIPEMD160, OP_SHA1, OP_SHA256, OP_HASH160, OP_HASH256}
        then op_hash (ev_crypto env) opcode stack
      else serr SCRIPT_ERR_BAD_OPCODE)"

text \<open>The whole \<^verbatim>\<open>switch\<close>; \<open>pc\<close> is the rest of the script after the opcode, so
  \<^verbatim>\<open>scriptRest(pc - 1, pend)\<close> is \<open>opcode # pc\<close>.\<close>

definition exec_op ::
  "eval_env \<Rightarrow> bool \<Rightarrow> opcodetype \<Rightarrow> cscript \<Rightarrow> estate \<Rightarrow> step_result sres" where
  "exec_op env fExec opcode pc st =
     (let stack = es_stack st in
      if opcode = OP_1NEGATE \<or> (OP_1 \<le> opcode \<and> opcode \<le> OP_16)
        then on_stack st (op_small_int opcode stack)
      else if opcode = OP_NOP then Inr (Next st)
      else if opcode = OP_CHECKLOCKTIMEVERIFY then on_stack st (op_checklocktimeverify env stack)
      else if opcode = OP_CHECKSEQUENCEVERIFY then on_stack st (op_checksequenceverify env stack)
      else if opcode \<in> {OP_NOP1, OP_NOP4, OP_NOP5, OP_NOP6, OP_NOP7, OP_NOP8, OP_NOP9, OP_NOP10}
        then on_stack st (op_nop_n env stack)
      else if opcode = OP_IF \<or> opcode = OP_NOTIF
        then bind_res (op_if env fExec opcode stack (es_vfExec st)) (\<lambda>(stack', vf).
          Inr (Next (st\<lparr>es_stack := stack', es_vfExec := vf\<rparr>)))
      else if opcode = OP_ELSE
        then bind_res (op_else (es_vfExec st)) (\<lambda>vf. Inr (Next (st\<lparr>es_vfExec := vf\<rparr>)))
      else if opcode = OP_ENDIF
        then bind_res (op_endif (es_vfExec st)) (\<lambda>vf. Inr (Next (st\<lparr>es_vfExec := vf\<rparr>)))
      else if opcode = OP_TOALTSTACK
        then bind_res (op_toaltstack stack (es_altstack st)) (\<lambda>(stack', alt).
          Inr (Next (st\<lparr>es_stack := stack', es_altstack := alt\<rparr>)))
      else if opcode = OP_FROMALTSTACK
        then bind_res (op_fromaltstack stack (es_altstack st)) (\<lambda>(stack', alt).
          Inr (Next (st\<lparr>es_stack := stack', es_altstack := alt\<rparr>)))
      else if opcode = OP_CODESEPARATOR then Inr (Next (st\<lparr>es_codehash := pc\<rparr>))
      else if opcode = OP_CHECKSIG \<or> opcode = OP_CHECKSIGVERIFY
        then on_stack st (op_checksig env opcode (es_codehash st) stack)
      else if opcode = OP_CHECKMULTISIG \<or> opcode = OP_CHECKMULTISIGVERIFY
        then bind_res (op_checkmultisig env opcode (es_codehash st) (es_nOpCount st) stack)
          (\<lambda>(n, stack'). Inr (Next (st\<lparr>es_stack := stack', es_nOpCount := n\<rparr>)))
      else if opcode = OP_SENDER
        then (if \<not> flag (ev_flags env) SCRIPT_OUTPUT_SENDER then serr SCRIPT_ERR_BAD_OPCODE
              else Inr (Next st))
      else if opcode = OP_SPEND then Inr (Return stack)
      else if opcode = OP_COINSTAKE_CALL \<or> opcode = OP_CREATE \<or> opcode = OP_CALL
        then Inr (Return ((opcode # pc) # stack))
      else on_stack st (exec_stack_op env opcode stack))"

text \<open>The checks between reading an instruction and the \<^verbatim>\<open>switch\<close>; the new operation count.\<close>

definition pre_checks ::
  "eval_env \<Rightarrow> opcodetype \<Rightarrow> valtype \<Rightarrow> nat \<Rightarrow> nat sres" where
  "pre_checks env opcode vchPushValue nOpCount =
     (let nOpCount' = (if opcode > OP_16 then nOpCount + 1 else nOpCount) in
      if length vchPushValue > MAX_SCRIPT_ELEMENT_SIZE then serr SCRIPT_ERR_PUSH_SIZE
      else if opcode > OP_16 \<and> nOpCount' > MAX_OPS_PER_SCRIPT then serr SCRIPT_ERR_OP_COUNT
      else if is_disabled opcode then serr SCRIPT_ERR_DISABLED_OPCODE
      else if opcode = OP_CODESEPARATOR \<and> ev_sigversion env = BASE \<and>
              flag (ev_flags env) SCRIPT_VERIFY_CONST_SCRIPTCODE
        then serr SCRIPT_ERR_OP_CODESEPARATOR
      else Inr nOpCount')"

definition push_value :: "eval_env \<Rightarrow> opcodetype \<Rightarrow> valtype \<Rightarrow> valstack \<Rightarrow> valstack sres" where
  "push_value env opcode vchPushValue stack =
     (if require_minimal env then
        bind_res (assert_some (CheckMinimalPush vchPushValue opcode)) (\<lambda>ok.
          if \<not> ok then serr SCRIPT_ERR_MINIMALDATA else Inr (vchPushValue # stack))
      else Inr (vchPushValue # stack))"

fun size_limits :: "step_result \<Rightarrow> step_result sres" where
  "size_limits (Next st) =
     (if length (es_stack st) + length (es_altstack st) > MAX_STACK_SIZE
      then serr SCRIPT_ERR_STACK_SIZE else Inr (Next st))"
| "size_limits (Return stack) = Inr (Return stack)"

definition eval_step ::
  "eval_env \<Rightarrow> opcodetype \<Rightarrow> valtype \<Rightarrow> cscript \<Rightarrow> estate \<Rightarrow> step_result sres" where
  "eval_step env opcode vchPushValue pc st =
     (let fExec = (False \<notin> set (es_vfExec st)) in
      bind_res (pre_checks env opcode vchPushValue (es_nOpCount st)) (\<lambda>n.
      let st' = st\<lparr>es_nOpCount := n\<rparr> in
      bind_res
        (if fExec \<and> opcode \<le> OP_PUSHDATA4
           then on_stack st' (push_value env opcode vchPushValue (es_stack st'))
         else if fExec \<or> (OP_IF \<le> opcode \<and> opcode \<le> OP_ENDIF)
           then exec_op env fExec opcode pc st'
         else Inr (Next st'))
        size_limits))"

section \<open>Script evaluation\<close>

function eval_loop :: "eval_env \<Rightarrow> cscript \<Rightarrow> estate \<Rightarrow> valstack sres" where
  "eval_loop env pc st =
     (if pc = [] then
        (if es_vfExec st \<noteq> [] then serr SCRIPT_ERR_UNBALANCED_CONDITIONAL else Inr (es_stack st))
      else case GetOp pc of
        None \<Rightarrow> serr SCRIPT_ERR_BAD_OPCODE
      | Some (opcode, vchPushValue, pc') \<Rightarrow>
          (case eval_step env opcode vchPushValue pc' st of
             Inl e \<Rightarrow> Inl e
           | Inr (Return stack) \<Rightarrow> Inr stack
           | Inr (Next st') \<Rightarrow> eval_loop env pc' st'))"
  by pat_completeness auto
termination
  by (relation "measure (\<lambda>(_, pc, _). length pc)") (auto dest: GetOp_shrinks)

declare eval_loop.simps [simp del]

definition init_state :: "valstack \<Rightarrow> cscript \<Rightarrow> estate" where
  "init_state stack script =
     \<lparr>es_stack = stack, es_altstack = [], es_vfExec = [], es_codehash = script, es_nOpCount = 0\<rparr>"

definition EvalScript ::
  "crypto \<Rightarrow> valstack \<Rightarrow> cscript \<Rightarrow> uint32 \<Rightarrow> checker \<Rightarrow> SigVersion \<Rightarrow> valstack sres" where
  "EvalScript cr stack script flags chk sigversion =
     (if length script > MAX_SCRIPT_SIZE then serr SCRIPT_ERR_SCRIPT_SIZE
      else eval_loop \<lparr>ev_flags = flags, ev_sigversion = sigversion, ev_checker = chk,
             ev_crypto = cr\<rparr> script (init_state stack script))"

section \<open>Script verification\<close>

definition WITNESS_V0_SCRIPTHASH_SIZE :: nat where "WITNESS_V0_SCRIPTHASH_SIZE = 32"
definition WITNESS_V0_KEYHASH_SIZE :: nat where "WITNESS_V0_KEYHASH_SIZE = 20"

text \<open>
  A \<^verbatim>\<open>CScriptWitness\<close> is its vector of items, in order; the last is the top of the stack.
\<close>

definition witness_script ::
  "crypto \<Rightarrow> valtype list \<Rightarrow> valtype \<Rightarrow> (valstack \<times> cscript) sres" where
  "witness_script cr witness program =
     (if length program = WITNESS_V0_SCRIPTHASH_SIZE then
        (if length witness = 0 then serr SCRIPT_ERR_WITNESS_PROGRAM_WITNESS_EMPTY
         else let scriptPubKey = last witness; stack = rev (butlast witness) in
           if cr_SHA256 cr scriptPubKey \<noteq> program then serr SCRIPT_ERR_WITNESS_PROGRAM_MISMATCH
           else Inr (stack, scriptPubKey))
      else if length program = WITNESS_V0_KEYHASH_SIZE then
        (if length witness \<noteq> 2 then serr SCRIPT_ERR_WITNESS_PROGRAM_MISMATCH
         else Inr (rev witness, push_opcode OP_DUP @ push_opcode OP_HASH160 @ push_data program @
                push_opcode OP_EQUALVERIFY @ push_opcode OP_CHECKSIG))
      else serr SCRIPT_ERR_WITNESS_PROGRAM_WRONG_LENGTH)"

definition VerifyWitnessProgram ::
  "crypto \<Rightarrow> valtype list \<Rightarrow> nat \<Rightarrow> valtype \<Rightarrow> uint32 \<Rightarrow> checker \<Rightarrow> unit sres" where
  "VerifyWitnessProgram cr witness witversion program flags chk =
     (if witversion = 0 then
        bind_res (witness_script cr witness program) (\<lambda>(stack, scriptPubKey).
        if \<exists>vch \<in> set stack. length vch > MAX_SCRIPT_ELEMENT_SIZE then serr SCRIPT_ERR_PUSH_SIZE
        else bind_res (EvalScript cr stack scriptPubKey flags chk WITNESS_V0) (\<lambda>stack'.
          if length stack' \<noteq> 1 then serr SCRIPT_ERR_CLEANSTACK
          else if \<not> CastToBool (hd stack') then serr SCRIPT_ERR_EVAL_FALSE
          else Inr ()))
      else if flag flags SCRIPT_VERIFY_DISCOURAGE_UPGRADABLE_WITNESS_PROGRAM
        then serr SCRIPT_ERR_DISCOURAGE_UPGRADABLE_WITNESS_PROGRAM
      else Inr ())"

text \<open>\<^verbatim>\<open>stack.resize(1)\<close> on a non-empty stack keeps the bottom element.\<close>

definition resize1 :: "valstack \<Rightarrow> valstack" where
  "resize1 stack = [last stack]"

definition verify_bare_witness ::
  "crypto \<Rightarrow> cscript \<Rightarrow> cscript \<Rightarrow> valtype list \<Rightarrow> uint32 \<Rightarrow> checker \<Rightarrow> valstack \<Rightarrow>
   (valstack \<times> bool) sres" where
  "verify_bare_witness cr scriptSig scriptPubKey witness flags chk stack =
     (if flag flags SCRIPT_VERIFY_WITNESS then
        (case IsWitnessProgram scriptPubKey of
           None \<Rightarrow> Inr (stack, False)
         | Some (witnessversion, witnessprogram) \<Rightarrow>
             if length scriptSig \<noteq> 0 then serr SCRIPT_ERR_WITNESS_MALLEATED
             else bind_res (VerifyWitnessProgram cr witness witnessversion witnessprogram flags chk)
               (\<lambda>_. Inr (resize1 stack, True)))
      else Inr (stack, False))"

definition verify_p2sh ::
  "crypto \<Rightarrow> cscript \<Rightarrow> cscript \<Rightarrow> valtype list \<Rightarrow> uint32 \<Rightarrow> checker \<Rightarrow> valstack \<Rightarrow>
   valstack \<times> bool \<Rightarrow> (valstack \<times> bool) sres" where
  "verify_p2sh cr scriptSig scriptPubKey witness flags chk stackCopy res =
     (if flag flags SCRIPT_VERIFY_P2SH \<and> IsPayToScriptHash scriptPubKey then
        (if \<not> IsPushOnly scriptSig then serr SCRIPT_ERR_SIG_PUSHONLY
         else case stackCopy of
           [] \<Rightarrow> Inl Crash
         | pubKey2 # stack \<Rightarrow>
             bind_res (EvalScript cr stack pubKey2 flags chk BASE) (\<lambda>stack'.
             if stack' = [] then serr SCRIPT_ERR_EVAL_FALSE
             else if \<not> CastToBool (hd stack') then serr SCRIPT_ERR_EVAL_FALSE
             else if flag flags SCRIPT_VERIFY_WITNESS then
               (case IsWitnessProgram pubKey2 of
                  None \<Rightarrow> Inr (stack', snd res)
                | Some (witnessversion, witnessprogram) \<Rightarrow>
                    if scriptSig \<noteq> push_data pubKey2 then serr SCRIPT_ERR_WITNESS_MALLEATED_P2SH
                    else bind_res
                      (VerifyWitnessProgram cr witness witnessversion witnessprogram flags chk)
                      (\<lambda>_. Inr (resize1 stack', True)))
             else Inr (stack', snd res)))
      else Inr res)"

definition verify_clean_stack :: "uint32 \<Rightarrow> valstack \<Rightarrow> unit sres" where
  "verify_clean_stack flags stack =
     (if flag flags SCRIPT_VERIFY_CLEANSTACK then
        (if \<not> flag flags SCRIPT_VERIFY_P2SH then Inl Crash
         else if \<not> flag flags SCRIPT_VERIFY_WITNESS then Inl Crash
         else if length stack \<noteq> 1 then serr SCRIPT_ERR_CLEANSTACK
         else Inr ())
      else Inr ())"

definition verify_witness_expected :: "uint32 \<Rightarrow> bool \<Rightarrow> valtype list \<Rightarrow> unit sres" where
  "verify_witness_expected flags hadWitness witness =
     (if flag flags SCRIPT_VERIFY_WITNESS then
        (if \<not> flag flags SCRIPT_VERIFY_P2SH then Inl Crash
         else if \<not> hadWitness \<and> witness \<noteq> [] then serr SCRIPT_ERR_WITNESS_UNEXPECTED
         else Inr ())
      else Inr ())"

definition VerifyScript ::
  "crypto \<Rightarrow> cscript \<Rightarrow> cscript \<Rightarrow> valtype list \<Rightarrow> uint32 \<Rightarrow> checker \<Rightarrow> unit sres" where
  "VerifyScript cr scriptSig scriptPubKey witness flags chk =
     (if flag flags SCRIPT_VERIFY_SIGPUSHONLY \<and> \<not> IsPushOnly scriptSig
        then serr SCRIPT_ERR_SIG_PUSHONLY
      else
        bind_res (EvalScript cr [] scriptSig flags chk BASE) (\<lambda>stackCopy.
        bind_res (EvalScript cr stackCopy scriptPubKey flags chk BASE) (\<lambda>stack.
        if stack = [] then serr SCRIPT_ERR_EVAL_FALSE
        else if CastToBool (hd stack) = False then serr SCRIPT_ERR_EVAL_FALSE
        else
          bind_res (verify_bare_witness cr scriptSig scriptPubKey witness flags chk stack) (\<lambda>res.
          bind_res (verify_p2sh cr scriptSig scriptPubKey witness flags chk stackCopy res) (\<lambda>res'.
          bind_res (verify_clean_stack flags (fst res')) (\<lambda>_.
          verify_witness_expected flags (snd res') witness))))))"

section \<open>Witness signature operations\<close>

definition WitnessSigOps :: "nat \<Rightarrow> valtype \<Rightarrow> valtype list \<Rightarrow> nat" where
  "WitnessSigOps witversion witprogram witness =
     (if witversion = 0 \<and> length witprogram = WITNESS_V0_KEYHASH_SIZE then 1
      else if witversion = 0 \<and> length witprogram = WITNESS_V0_SCRIPTHASH_SIZE \<and> length witness > 0
        then GetSigOpCount True (last witness)
      else 0)"

function last_data :: "valtype \<Rightarrow> cscript \<Rightarrow> valtype" where
  "last_data data pc =
     (if pc = [] then data
      else case GetOp pc of None \<Rightarrow> [] | Some (_, data', pc') \<Rightarrow> last_data data' pc')"
  by pat_completeness auto
termination
  by (relation "measure (\<lambda>(_, pc). length pc)") (auto dest: GetOp_shrinks)

declare last_data.simps [simp del]

text \<open>The failed \<^verbatim>\<open>assert\<close> is \<open>None\<close>.\<close>

definition CountWitnessSigOps ::
  "cscript \<Rightarrow> cscript \<Rightarrow> valtype list \<Rightarrow> uint32 \<Rightarrow> nat option" where
  "CountWitnessSigOps scriptSig scriptPubKey witness flags =
     (if \<not> flag flags SCRIPT_VERIFY_WITNESS then Some 0
      else if \<not> flag flags SCRIPT_VERIFY_P2SH then None
      else case IsWitnessProgram scriptPubKey of
        Some (witnessversion, witnessprogram) \<Rightarrow>
          Some (WitnessSigOps witnessversion witnessprogram witness)
      | None \<Rightarrow>
          if IsPayToScriptHash scriptPubKey \<and> IsPushOnly scriptSig then
            (case IsWitnessProgram (last_data [] scriptSig) of
               Some (witnessversion, witnessprogram) \<Rightarrow>
                 Some (WitnessSigOps witnessversion witnessprogram witness)
             | None \<Rightarrow> Some 0)
          else Some 0)"

section \<open>Every instruction is safe\<close>

lemma safe_op_no_crash: "safe_op f \<Longrightarrow> f s \<noteq> Inl Crash"
  by (rule safe_opD)

lemma safe_op_exec_stack_op:
  assumes "crypto_ok (ev_crypto env)"
  shows "safe_op (exec_stack_op env opcode)"
  unfolding exec_stack_op_def by (intro safe_op_if safe_ops assms)

lemma safe_op_small_int:
  assumes "opcode = OP_1NEGATE \<or> (OP_1 \<le> opcode \<and> opcode \<le> OP_16)"
  shows "safe_op (op_small_int opcode)"
proof -
  have "unat opcode < 256" "unat OP_1 = 81" by simp_all
  then have "\<bar>int (unat opcode) - (int (unat OP_1) - 1)\<bar> < 512" by linarith
  then have "\<bar>int (unat opcode) - (int (unat OP_1) - 1)\<bar> < 2 ^ 39"
    by (rule less_trans) simp
  then have "length (serialize (int (unat opcode) - (int (unat OP_1) - 1))) \<le> MAX_SCRIPT_ELEMENT_SIZE"
    by (rule length_serialize_small)
  then show ?thesis
    by (intro safe_opI) (auto simp: op_small_int_def stack_ok_elems)
qed

text \<open>The invariant of the loop: both stacks together hold at most \<^verbatim>\<open>MAX_STACK_SIZE\<close> elements
  of at most \<^verbatim>\<open>MAX_SCRIPT_ELEMENT_SIZE\<close> bytes, and the operation count is in bounds.\<close>

definition state_ok :: "estate \<Rightarrow> bool" where
  "state_ok st \<longleftrightarrow> length (es_stack st) + length (es_altstack st) \<le> MAX_STACK_SIZE \<and>
     elems_ok (es_stack st) \<and> elems_ok (es_altstack st) \<and> es_nOpCount st \<le> MAX_OPS_PER_SCRIPT"

text \<open>What one instruction may do to a state that satisfies the invariant.\<close>

definition grown_ok :: "estate \<Rightarrow> step_result \<Rightarrow> bool" where
  "grown_ok st r = (case r of
     Next st' \<Rightarrow> length (es_stack st') + length (es_altstack st') \<le>
         length (es_stack st) + length (es_altstack st) + 3 \<and>
       elems_ok (es_stack st') \<and> elems_ok (es_altstack st') \<and>
       es_nOpCount st' \<le> MAX_OPS_PER_SCRIPT
   | Return s \<Rightarrow> length s \<le> length (es_stack st) + 1)"

lemma state_ok_stack_ok: "state_ok st \<Longrightarrow> stack_ok (es_stack st)"
  by (simp add: state_ok_def stack_ok_def)

lemma on_stack_safe:
  assumes "safe_op f"
  shows "on_stack st (f (es_stack st)) \<noteq> Inl Crash"
    and "state_ok st \<Longrightarrow> on_stack st (f (es_stack st)) = Inr r \<Longrightarrow> grown_ok st r"
proof -
  show "on_stack st (f (es_stack st)) \<noteq> Inl Crash"
    using safe_opD(1) [OF assms] by (auto simp: on_stack_def bind_res_Inl_conv)
next
  assume ok: "state_ok st" and r: "on_stack st (f (es_stack st)) = Inr r"
  then obtain s where s: "f (es_stack st) = Inr s" "r = Next (st\<lparr>es_stack := s\<rparr>)"
    by (auto simp: on_stack_def)
  then show "grown_ok st r"
    using safe_opD(2,3) [OF assms s(1)] ok state_ok_stack_ok [OF ok]
    by (auto simp: grown_ok_def state_ok_def)
qed

lemma op_if_safe:
  "op_if env f opcode s v \<noteq> Inl Crash"
  "op_if env f opcode s v = Inr (s', v') \<Longrightarrow> length s' \<le> length s \<and> (elems_ok s \<longrightarrow> elems_ok s')"
  by (auto simp: op_if_def Let_def split: list.splits if_splits)

lemma op_else_no_crash: "op_else v \<noteq> Inl Crash" by (cases v) auto
lemma op_endif_no_crash: "op_endif v \<noteq> Inl Crash" by (cases v) auto

lemma op_altstack_safe:
  "op_toaltstack s a \<noteq> Inl Crash" "op_fromaltstack s a \<noteq> Inl Crash"
  "op_toaltstack s a = Inr (s', a') \<Longrightarrow> length s' + length a' = length s + length a \<and>
     (elems_ok s \<and> elems_ok a \<longrightarrow> elems_ok s' \<and> elems_ok a')"
  "op_fromaltstack s a = Inr (s', a') \<Longrightarrow> length s' + length a' = length s + length a \<and>
     (elems_ok s \<and> elems_ok a \<longrightarrow> elems_ok s' \<and> elems_ok a')"
  by (cases s; cases a; auto)+

text \<open>\<open>step_ok st m\<close>: the instruction result \<open>m\<close> is no crash, and within \<open>grown_ok\<close>.\<close>

definition step_ok :: "estate \<Rightarrow> step_result sres \<Rightarrow> bool" where
  "step_ok st m \<longleftrightarrow> m \<noteq> Inl Crash \<and> (\<forall>r. m = Inr r \<longrightarrow> state_ok st \<longrightarrow> grown_ok st r)"

lemma step_ok_on_stack: "safe_op f \<Longrightarrow> step_ok st (on_stack st (f (es_stack st)))"
  using on_stack_safe by (simp add: step_ok_def)

lemma step_ok_serr: "step_ok st (serr e)"
  by (simp add: step_ok_def)

lemma step_ok_if: "(c \<Longrightarrow> step_ok st a) \<Longrightarrow> (\<not> c \<Longrightarrow> step_ok st b) \<Longrightarrow> step_ok st (if c then a else b)"
  by simp

lemma step_ok_Next: "(state_ok st \<Longrightarrow> grown_ok st (Next st')) \<Longrightarrow> step_ok st (Inr (Next st'))"
  by (simp add: step_ok_def)

lemma step_ok_Return: "length s \<le> length (es_stack st) + 1 \<Longrightarrow> step_ok st (Inr (Return s))"
  by (simp add: step_ok_def grown_ok_def)

lemma grown_ok_self: "state_ok st \<Longrightarrow> grown_ok st (Next st)"
  by (simp add: grown_ok_def state_ok_def)

lemma step_ok_bind:
  assumes "m \<noteq> Inl Crash" and "\<And>x. m = Inr x \<Longrightarrow> step_ok st (f x)"
  shows "step_ok st (bind_res m f)"
  using assms by (cases m) (auto simp: step_ok_def)

lemma step_ok_branch:
  assumes "op_if env x opcode (es_stack st) v \<noteq> Inl Crash"
  shows "step_ok st (bind_res (op_if env x opcode (es_stack st) v) (\<lambda>(s, vf).
    Inr (Next (st\<lparr>es_stack := s, es_vfExec := vf\<rparr>))))"
  by (rule step_ok_bind) (use assms op_if_safe(2) in
    \<open>fastforce simp: grown_ok_def state_ok_def intro!: step_ok_Next\<close>)+

lemma step_ok_vf:
  "m \<noteq> Inl Crash \<Longrightarrow> step_ok st (bind_res m (\<lambda>vf. Inr (Next (st\<lparr>es_vfExec := vf\<rparr>))))"
  by (rule step_ok_bind) (auto simp: grown_ok_def state_ok_def intro!: step_ok_Next)

lemma step_ok_toalt:
  "step_ok st (bind_res (op_toaltstack (es_stack st) (es_altstack st)) (\<lambda>(s, a).
    Inr (Next (st\<lparr>es_stack := s, es_altstack := a\<rparr>))))"
  by (rule step_ok_bind) (use op_altstack_safe(1,3) in
    \<open>fastforce simp: grown_ok_def state_ok_def intro!: step_ok_Next\<close>)+

lemma step_ok_fromalt:
  "step_ok st (bind_res (op_fromaltstack (es_stack st) (es_altstack st)) (\<lambda>(s, a).
    Inr (Next (st\<lparr>es_stack := s, es_altstack := a\<rparr>))))"
  by (rule step_ok_bind) (use op_altstack_safe(2,4) in
    \<open>fastforce simp: grown_ok_def state_ok_def intro!: step_ok_Next\<close>)+

lemma step_ok_multisig:
  "step_ok st (bind_res (op_checkmultisig env opcode c (es_nOpCount st) (es_stack st)) (\<lambda>(n, s).
    Inr (Next (st\<lparr>es_stack := s, es_nOpCount := n\<rparr>))))"
proof (rule step_ok_bind)
  fix x assume x: "op_checkmultisig env opcode c (es_nOpCount st) (es_stack st) = Inr x"
  obtain n s where "x = (n, s)" by fastforce
  with op_checkmultisig_InrD [of env opcode c "es_nOpCount st" "es_stack st" n s] x
  show "step_ok st (case x of (n, s) \<Rightarrow> Inr (Next (st\<lparr>es_stack := s, es_nOpCount := n\<rparr>)))"
    by (auto simp: grown_ok_def state_ok_def stack_ok_def intro!: step_ok_Next)
qed simp

lemma exec_op_ok:
  assumes "crypto_ok (ev_crypto env)"
  shows "step_ok st (exec_op env fExec opcode pc st)"
  unfolding exec_op_def Let_def
  by (intro step_ok_if step_ok_on_stack safe_op_small_int safe_op_exec_stack_op [OF assms] safe_ops
      step_ok_Next step_ok_serr grown_ok_self step_ok_branch op_if_safe(1) step_ok_vf op_else_no_crash
      op_endif_no_crash step_ok_toalt step_ok_fromalt step_ok_multisig step_ok_Return)
    (auto simp: grown_ok_def state_ok_def)

lemma pre_checks_safe:
  "pre_checks env opcode vch n \<noteq> Inl Crash"
  "pre_checks env opcode vch n = Inr n' \<Longrightarrow> n \<le> MAX_OPS_PER_SCRIPT \<Longrightarrow>
     n \<le> n' \<and> n' \<le> MAX_OPS_PER_SCRIPT \<and> length vch \<le> MAX_SCRIPT_ELEMENT_SIZE"
  by (auto simp: pre_checks_def Let_def split: if_splits)

lemma push_value_no_crash: "opcode \<le> OP_PUSHDATA4 \<Longrightarrow> push_value env opcode vch s \<noteq> Inl Crash"
  by (auto simp: push_value_def CheckMinimalPush_def bind_res_Inl_conv)

lemma push_value_InrD: "push_value env opcode vch s = Inr s' \<Longrightarrow> s' = vch # s"
  by (auto simp: push_value_def split: if_splits)

lemma size_limits_safe:
  "size_limits r \<noteq> Inl Crash"
  "size_limits r = Inr r' \<Longrightarrow> r' = r \<and>
     (\<forall>st. r = Next st \<longrightarrow> length (es_stack st) + length (es_altstack st) \<le> MAX_STACK_SIZE)"
  by (cases r; auto split: if_splits)+

lemma eval_step_no_crash:
  assumes "crypto_ok (ev_crypto env)"
  shows "eval_step env opcode vch pc st \<noteq> Inl Crash"
  using pre_checks_safe(1) exec_op_ok [OF assms] push_value_no_crash size_limits_safe(1)
  by (auto simp: eval_step_def Let_def bind_res_Inl_conv step_ok_def on_stack_def split: if_splits)

lemma eval_step_Next:
  assumes cr: "crypto_ok (ev_crypto env)" and ok: "state_ok st"
    and r: "eval_step env opcode vch pc st = Inr (Next st')"
  shows "state_ok st'"
proof -
  let ?x = "False \<notin> set (es_vfExec st)"
  obtain n m where n: "pre_checks env opcode vch (es_nOpCount st) = Inr n"
    and m: "(if ?x \<and> opcode \<le> OP_PUSHDATA4
           then on_stack (st\<lparr>es_nOpCount := n\<rparr>)
             (push_value env opcode vch (es_stack (st\<lparr>es_nOpCount := n\<rparr>)))
         else if ?x \<or> (OP_IF \<le> opcode \<and> opcode \<le> OP_ENDIF)
           then exec_op env ?x opcode pc (st\<lparr>es_nOpCount := n\<rparr>)
         else Inr (Next (st\<lparr>es_nOpCount := n\<rparr>))) = Inr m"
    and l: "size_limits m = Inr (Next st')"
    using r unfolding eval_step_def Let_def bind_res_Inr_conv by blast
  have p: "n \<le> MAX_OPS_PER_SCRIPT" "length vch \<le> MAX_SCRIPT_ELEMENT_SIZE"
    using pre_checks_safe(2) [OF n] ok by (simp_all add: state_ok_def)
  then have ok': "state_ok (st\<lparr>es_nOpCount := n\<rparr>)" using ok by (simp add: state_ok_def)
  have "grown_ok (st\<lparr>es_nOpCount := n\<rparr>) m"
  proof (cases "?x \<and> opcode \<le> OP_PUSHDATA4")
    case True
    then obtain s where "push_value env opcode vch (es_stack st) = Inr s" "m = Next (st\<lparr>es_nOpCount := n, es_stack := s\<rparr>)"
      using m by (auto simp: on_stack_def)
    then show ?thesis using push_value_InrD ok' p by (fastforce simp: grown_ok_def state_ok_def)
  next
    case False
    then show ?thesis
      using m exec_op_ok [OF cr] ok' grown_ok_self [OF ok'] by (auto simp: step_ok_def split: if_splits)
  qed
  with size_limits_safe(2) [OF l] show ?thesis
    by (auto simp: grown_ok_def state_ok_def)
qed

lemma eval_step_Return:
  assumes cr: "crypto_ok (ev_crypto env)" and ok: "state_ok st"
    and r: "eval_step env opcode vch pc st = Inr (Return s)"
  shows "length s \<le> MAX_STACK_SIZE + 1"
proof -
  let ?x = "False \<notin> set (es_vfExec st)"
  obtain n where n: "pre_checks env opcode vch (es_nOpCount st) = Inr n"
    and e: "exec_op env ?x opcode pc (st\<lparr>es_nOpCount := n\<rparr>) = Inr (Return s)"
    using r by (auto simp: eval_step_def Let_def on_stack_def dest!: size_limits_safe(2) split: if_splits)
  have "n \<le> MAX_OPS_PER_SCRIPT"
    using pre_checks_safe(2) [OF n] ok by (simp add: state_ok_def)
  then have "state_ok (st\<lparr>es_nOpCount := n\<rparr>)" using ok by (simp add: state_ok_def)
  then have "grown_ok (st\<lparr>es_nOpCount := n\<rparr>) (Return s)"
    using exec_op_ok [OF cr] e by (simp add: step_ok_def)
  then show ?thesis using ok by (simp add: grown_ok_def state_ok_def)
qed

section \<open>Whole scripts\<close>

text \<open>The loop, unfolded once on a decoded instruction.\<close>

lemma eval_loop_Nil [simp]:
  "eval_loop env [] st =
     (if es_vfExec st \<noteq> [] then serr SCRIPT_ERR_UNBALANCED_CONDITIONAL else Inr (es_stack st))"
  by (simp add: eval_loop.simps)

lemma eval_loop_None: "pc \<noteq> [] \<Longrightarrow> GetOp pc = None \<Longrightarrow> eval_loop env pc st = serr SCRIPT_ERR_BAD_OPCODE"
  by (simp add: eval_loop.simps)

lemma eval_loop_Some:
  "pc \<noteq> [] \<Longrightarrow> GetOp pc = Some (opcode, vch, pc') \<Longrightarrow>
   eval_loop env pc st = bind_res (eval_step env opcode vch pc' st)
     (\<lambda>r. case r of Return s \<Rightarrow> Inr s | Next st' \<Rightarrow> eval_loop env pc' st')"
  by (subst eval_loop.simps) (simp split: sum.split step_result.split)

lemma eval_loop_safe:
  assumes "crypto_ok (ev_crypto env)"
  shows "eval_loop env pc st \<noteq> Inl Crash"
    and "state_ok st \<Longrightarrow> eval_loop env pc st = Inr s \<Longrightarrow> length s \<le> MAX_STACK_SIZE + 1"
proof -
  have "eval_loop env pc st \<noteq> Inl Crash \<and>
    (state_ok st \<longrightarrow> (\<forall>s. eval_loop env pc st = Inr s \<longrightarrow> length s \<le> MAX_STACK_SIZE + 1))"
  proof (induction pc arbitrary: st rule: length_induct)
    case (1 pc)
    show ?case
    proof (cases "pc = []")
      case True
      then show ?thesis by (auto simp: state_ok_def)
    next
      case False
      show ?thesis
      proof (cases "GetOp pc")
        case None
        with False show ?thesis by (simp add: eval_loop_None)
      next
        case (Some x)
        obtain opcode vch pc' where x: "x = (opcode, vch, pc')" by (cases x)
        have "length pc' < length pc" using Some x GetOp_shrinks by blast
        note IH = "1.IH" [rule_format, OF this]
        show ?thesis
          unfolding eval_loop_Some [OF False Some [unfolded x]]
          using IH eval_step_no_crash [OF assms, of opcode vch pc' st]
            eval_step_Next [OF assms, of st opcode vch pc'] eval_step_Return [OF assms, of st opcode vch pc']
          by (cases "eval_step env opcode vch pc' st") (simp_all split: step_result.splits, blast)
      qed
    qed
  qed
  then show "eval_loop env pc st \<noteq> Inl Crash"
    "state_ok st \<Longrightarrow> eval_loop env pc st = Inr s \<Longrightarrow> length s \<le> MAX_STACK_SIZE + 1" by blast+
qed

text \<open>
  C26. The interpreter never crashes: for hash functions with the documented digest sizes, no
  script, stack, flags, checker or signature version makes \<^verbatim>\<open>EvalScript\<close> fail an
  \<^verbatim>\<open>assert\<close> or overflow a signed integer, although numbers of results may exceed the
  operand range.
\<close>

theorem EvalScript_no_crash:
  assumes "crypto_ok cr"
  shows "EvalScript cr stack script flags chk sigversion \<noteq> Inl Crash"
  using eval_loop_safe(1) assms by (simp add: EvalScript_def)


section \<open>Soft forks\<close>

text \<open>\<open>refines m m'\<close>: whenever \<open>m\<close> succeeds, \<open>m'\<close> succeeds with the same value.\<close>

definition refines :: "'a sres \<Rightarrow> 'a sres \<Rightarrow> bool" where
  "refines m m' \<longleftrightarrow> (\<forall>r. m = Inr r \<longrightarrow> m' = Inr r)"

lemma refines_refl: "refines m m"
  by (simp add: refines_def)

lemma refinesI: "(\<And>r. m = Inr r \<Longrightarrow> m' = Inr r) \<Longrightarrow> refines m m'"
  by (simp add: refines_def)

lemma refinesD: "refines m m' \<Longrightarrow> m = Inr r \<Longrightarrow> m' = Inr r"
  by (simp add: refines_def)

lemma refines_serr: "refines (serr e) m"
  by (simp add: refines_def)

lemma refines_if:
  "(c \<Longrightarrow> refines a a') \<Longrightarrow> (\<not> c \<Longrightarrow> refines b b') \<Longrightarrow>
   refines (if c then a else b) (if c then a' else b')"
  by simp

lemma refines_guard:
  "(c' \<Longrightarrow> c) \<Longrightarrow> refines b b' \<Longrightarrow> refines (if c then serr e else b) (if c' then serr e else b')"
  by (auto simp: refines_def)

lemma refines_bind:
  "refines m m' \<Longrightarrow> (\<And>x. m = Inr x \<Longrightarrow> refines (f x) (f' x)) \<Longrightarrow> refines (bind_res m f) (bind_res m' f')"
  by (auto simp: refines_def)

lemma refines_option:
  "refines a a' \<Longrightarrow> (\<And>x. refines (h x) (h' x)) \<Longrightarrow>
   refines (case v of None \<Rightarrow> a | Some x \<Rightarrow> h x) (case v of None \<Rightarrow> a' | Some x \<Rightarrow> h' x)"
  by (cases v) simp_all

lemma refines_list:
  "refines a a' \<Longrightarrow> (\<And>x xs. refines (h x xs) (h' x xs)) \<Longrightarrow>
   refines (case v of [] \<Rightarrow> a | x # xs \<Rightarrow> h x xs) (case v of [] \<Rightarrow> a' | x # xs \<Rightarrow> h' x xs)"
  by (cases v) simp_all

lemma refines_prod:
  "(\<And>x y. refines (h x y) (h' x y)) \<Longrightarrow> refines (case v of (x, y) \<Rightarrow> h x y) (case v of (x, y) \<Rightarrow> h' x y)"
  by (cases v) simp

lemma refines_on_stack: "refines m m' \<Longrightarrow> refines (on_stack st m) (on_stack st m')"
  unfolding on_stack_def by (rule refines_bind) (simp_all add: refines_refl)

lemma refines_exec_stack_op:
  assumes w: "weaker e1 e2"
  shows "refines (exec_stack_op e2 opcode s) (exec_stack_op e1 opcode s)"
  unfolding exec_stack_op_def weakerD(4) [OF w]
  by (intro refines_if refines_refl;
      rule refinesI, erule soft_fork_pick_roll [OF w] soft_fork_unary [OF w] soft_fork_binary [OF w]
        soft_fork_within [OF w])

lemma refines_exec_op:
  assumes w: "weaker e1 e2"
  shows "refines (exec_op e2 x opcode pc st) (exec_op e1 x opcode pc st)"
  unfolding exec_op_def Let_def weakerD(5) [OF w]
  by (intro refines_if refines_refl refines_on_stack refines_exec_stack_op [OF w] refines_bind;
      rule refinesI, erule soft_fork [OF w])

lemma refines_pre_checks:
  assumes w: "weaker e1 e2"
  shows "refines (pre_checks e2 opcode vch n) (pre_checks e1 opcode vch n)"
  using weakerD(1) [OF w, of SCRIPT_VERIFY_CONST_SCRIPTCODE]
  by (auto simp: pre_checks_def Let_def weakerD(2) [OF w] intro!: refines_guard refines_refl refines_serr)

lemma refines_push_value:
  assumes w: "weaker e1 e2"
  shows "refines (push_value e2 opcode vch s) (push_value e1 opcode vch s)"
  using weakerD(1) [OF w, of SCRIPT_VERIFY_MINIMALDATA]
  by (auto simp: push_value_def require_minimal_def intro!: refinesI split: if_splits)

lemma refines_eval_step:
  assumes w: "weaker e1 e2"
  shows "refines (eval_step e2 opcode vch pc st) (eval_step e1 opcode vch pc st)"
  unfolding eval_step_def Let_def
  by (intro refines_bind refines_if refines_pre_checks refines_on_stack refines_push_value
      refines_exec_op refines_refl w)

lemma refines_eval_loop:
  assumes w: "weaker e1 e2"
  shows "refines (eval_loop e2 pc st) (eval_loop e1 pc st)"
proof (induction pc arbitrary: st rule: length_induct)
  case (1 pc)
  show ?case
  proof (cases "pc = [] \<or> GetOp pc = None")
    case True
    then show ?thesis by (cases "pc = []") (auto simp: eval_loop_None intro: refines_refl)
  next
    case False
    then obtain opcode vch pc' where g: "GetOp pc = Some (opcode, vch, pc')" by (cases "GetOp pc") auto
    have "length pc' < length pc" using g by (rule GetOp_shrinks)
    then have "refines (eval_loop e2 pc' st') (eval_loop e1 pc' st')" for st'
      using "1.IH" by simp
    moreover have "pc \<noteq> []" using False by simp
    ultimately show ?thesis
      unfolding eval_loop_Some [OF \<open>pc \<noteq> []\<close> g]
      by (auto intro!: refines_bind refines_eval_step [OF w] refines_refl split: step_result.split)
  qed
qed

lemma refines_EvalScript:
  assumes "flags_le f g" and "flag f SCRIPT_OUTPUT_SENDER = flag g SCRIPT_OUTPUT_SENDER"
  shows "refines (EvalScript cr stack script g chk sv) (EvalScript cr stack script f chk sv)"
  unfolding EvalScript_def
  by (intro refines_if refines_refl refines_eval_loop) (simp add: weaker_def assms)

lemma refines_VerifyWitnessProgram:
  assumes "flags_le f g" and "flag f SCRIPT_OUTPUT_SENDER = flag g SCRIPT_OUTPUT_SENDER"
  shows "refines (VerifyWitnessProgram cr w v p g chk) (VerifyWitnessProgram cr w v p f chk)"
  unfolding VerifyWitnessProgram_def
  by (intro refines_if refines_bind refines_refl)
    (auto intro!: refines_if refines_bind refines_refl refines_EvalScript assms refines_serr
      dest: flag_mono [OF assms(1)] split: prod.split)

text \<open>The flag combinations \<^verbatim>\<open>VerifyScript\<close> asserts.\<close>

definition flags_wf :: "uint32 \<Rightarrow> bool" where
  "flags_wf f \<longleftrightarrow>
     (flag f SCRIPT_VERIFY_CLEANSTACK \<longrightarrow> flag f SCRIPT_VERIFY_P2SH \<and> flag f SCRIPT_VERIFY_WITNESS) \<and>
     (flag f SCRIPT_VERIFY_WITNESS \<longrightarrow> flag f SCRIPT_VERIFY_P2SH)"

lemma refines_bare_witness:
  assumes "flags_le f g" and "flag f SCRIPT_OUTPUT_SENDER = flag g SCRIPT_OUTPUT_SENDER"
    and "flag f SCRIPT_VERIFY_WITNESS" and "flag g SCRIPT_VERIFY_WITNESS"
  shows "refines (verify_bare_witness cr sig pk w g chk s) (verify_bare_witness cr sig pk w f chk s)"
  unfolding verify_bare_witness_def
  by (simp only: assms(3,4) if_True)
    (intro refines_if refines_bind refines_option refines_prod refines_refl
      refines_VerifyWitnessProgram assms(1,2))

lemma refines_p2sh:
  assumes "flags_le f g" and "flag f SCRIPT_OUTPUT_SENDER = flag g SCRIPT_OUTPUT_SENDER"
    and "flag f SCRIPT_VERIFY_WITNESS" and "flag g SCRIPT_VERIFY_WITNESS"
    and "flag f SCRIPT_VERIFY_P2SH" and "flag g SCRIPT_VERIFY_P2SH"
  shows "refines (verify_p2sh cr sig pk w g chk c res) (verify_p2sh cr sig pk w f chk c res)"
  unfolding verify_p2sh_def
  by (simp only: assms(3-6) if_True simp_thms)
    (intro refines_if refines_bind refines_option refines_list refines_prod refines_refl
      refines_VerifyWitnessProgram refines_EvalScript assms(1,2))

lemma verify_p2sh_weaken:
  assumes "flags_le f g" and "flag f SCRIPT_OUTPUT_SENDER = flag g SCRIPT_OUTPUT_SENDER"
    and "\<not> flag f SCRIPT_VERIFY_WITNESS" and "verify_p2sh cr sig pk w g chk c res = Inr res'"
  shows "\<exists>res''. verify_p2sh cr sig pk w f chk c res0 = Inr res''"
proof (cases "flag f SCRIPT_VERIFY_P2SH \<and> IsPayToScriptHash pk")
  case True
  then have "flag g SCRIPT_VERIFY_P2SH" using assms(1) flag_mono by blast
  with True assms(4) obtain pk2 s s' where "IsPushOnly sig" "c = pk2 # s"
    "EvalScript cr s pk2 g chk BASE = Inr s'" "s' \<noteq> []" "CastToBool (hd s')"
    by (auto simp: verify_p2sh_def split: if_split_asm list.splits)
  moreover from this have "EvalScript cr s pk2 f chk BASE = Inr s'"
    using refinesD [OF refines_EvalScript [OF assms(1,2)]] by blast
  ultimately show ?thesis using True assms(3) by (simp add: verify_p2sh_def)
qed (auto simp: verify_p2sh_def)

text \<open>
  C1. The verification flags are soft forks, as the comment above their definition promises:
  whatever \<^verbatim>\<open>VerifyScript\<close> accepts under a set of flags it accepts under every smaller set
  that its assertions allow, provided the two agree on \<^verbatim>\<open>SCRIPT_OUTPUT_SENDER\<close>.
\<close>

theorem VerifyScript_soft_fork:
  assumes fg: "flags_le f g" and snd: "flag f SCRIPT_OUTPUT_SENDER = flag g SCRIPT_OUTPUT_SENDER"
    and wf: "flags_wf f" and ok: "VerifyScript cr sig pk w g chk = Inr ()"
  shows "VerifyScript cr sig pk w f chk = Inr ()"
proof -
  obtain c s res res' where push: "\<not> (flag g SCRIPT_VERIFY_SIGPUSHONLY \<and> \<not> IsPushOnly sig)"
    and c: "EvalScript cr [] sig g chk BASE = Inr c" and s: "EvalScript cr c pk g chk BASE = Inr s"
    and b: "s \<noteq> []" "CastToBool (hd s)"
    and bw: "verify_bare_witness cr sig pk w g chk s = Inr res"
    and p: "verify_p2sh cr sig pk w g chk c res = Inr res'"
    and cs: "verify_clean_stack g (fst res') = Inr ()"
    and we: "verify_witness_expected g (snd res') w = Inr ()"
    using ok by (auto simp: VerifyScript_def split: if_split_asm)
  note e = refinesD [OF refines_EvalScript [OF fg snd]]
  have push': "\<not> (flag f SCRIPT_VERIFY_SIGPUSHONLY \<and> \<not> IsPushOnly sig)"
    using push flag_mono [OF fg] by blast
  obtain r r' where r: "verify_bare_witness cr sig pk w f chk s = Inr r"
    and r': "verify_p2sh cr sig pk w f chk c r = Inr r'"
    and f1: "verify_clean_stack f (fst r') = Inr ()"
    and f2: "verify_witness_expected f (snd r') w = Inr ()"
  proof (cases "flag f SCRIPT_VERIFY_WITNESS")
    case True
    then have "flag f SCRIPT_VERIFY_P2SH" using wf by (simp add: flags_wf_def)
    with True have fl: "flag g SCRIPT_VERIFY_WITNESS" "flag f SCRIPT_VERIFY_P2SH" "flag g SCRIPT_VERIFY_P2SH"
      using flag_mono [OF fg] by blast+
    have "verify_clean_stack f (fst res') = Inr ()"
      using cs fl True flag_mono [OF fg, of SCRIPT_VERIFY_CLEANSTACK]
      by (auto simp: verify_clean_stack_def split: if_splits)
    moreover have "verify_witness_expected f (snd res') w = Inr ()"
      using we fl True by (simp add: verify_witness_expected_def)
    ultimately show thesis
      using that refinesD [OF refines_bare_witness [OF fg snd True fl(1)] bw]
        refinesD [OF refines_p2sh [OF fg snd True fl] p] by blast
  next
    case False
    then have "\<not> flag f SCRIPT_VERIFY_CLEANSTACK" using wf by (auto simp: flags_wf_def)
    moreover have "verify_bare_witness cr sig pk w f chk s = Inr (s, False)"
      using False by (simp add: verify_bare_witness_def)
    ultimately show thesis
      using that False verify_p2sh_weaken [OF fg snd False p, of "(s, False)"]
      by (auto simp: verify_clean_stack_def verify_witness_expected_def)
  qed
  show ?thesis
    using push' b by (simp add: VerifyScript_def e [OF c] e [OF s] r r' f1 f2)
qed

section \<open>Evaluating known scripts\<close>

definition zero_crypto :: crypto where
  "zero_crypto = \<lparr>cr_SHA256 = \<lambda>_. replicate 32 0, cr_SHA1 = \<lambda>_. replicate 20 0,
     cr_RIPEMD160 = \<lambda>_. replicate 20 0, cr_CheckLowS = \<lambda>_. True\<rparr>"

lemma crypto_ok_zero_crypto [simp]: "crypto_ok zero_crypto"
  by (simp add: crypto_ok_def zero_crypto_def)

lemma GetOp_op: "OP_PUSHDATA4 < opcode \<Longrightarrow> GetOp (opcode # pc) = Some (opcode, [], pc)"
  by (simp add: GetOp_def GetScriptOp_def not_le [symmetric])

lemma eval_op:
  "OP_PUSHDATA4 < opcode \<Longrightarrow>
   eval_loop env (opcode # pc) st = bind_res (eval_step env opcode [] pc st)
     (\<lambda>r. case r of Return s \<Rightarrow> Inr s | Next st' \<Rightarrow> eval_loop env pc st')"
  by (rule eval_loop_Some) (simp_all add: GetOp_op)

lemma eval_push:
  assumes "length d \<le> MAX_SCRIPT_ELEMENT_SIZE" and "CheckMinimalPush d (push_op d) = Some True"
    and "es_vfExec st = []" and "length (es_stack st) + length (es_altstack st) < MAX_STACK_SIZE"
  shows "eval_loop env (push_data d @ pc) st = eval_loop env pc (st\<lparr>es_stack := d # es_stack st\<rparr>)"
proof -
  have i: "instr (push_op d, d, push_data d)"
    using assms(1) by (intro instr_push_data) (simp add: MAX_SCRIPT_ELEMENT_SIZE_def)
  have g: "GetOp (push_data d @ pc) = Some (push_op d, d, pc)"
    using GetOp_instr [OF i, of pc] by simp
  have ne: "push_data d @ pc \<noteq> []" using g by auto
  have le: "push_op d \<le> OP_PUSHDATA4" by (rule push_op_le)
  then have "push_op d \<le> OP_16" by (rule order_trans) simp
  moreover have "\<not> is_disabled (push_op d)" "push_op d \<noteq> OP_CODESEPARATOR"
    using le by (auto simp: is_disabled_def)
  ultimately have pre: "pre_checks env (push_op d) d n = Inr n" for n
    using assms(1) by (simp add: pre_checks_def not_less)
  have "eval_step env (push_op d) d pc st = Inr (Next (st\<lparr>es_stack := d # es_stack st\<rparr>))"
    using le assms by (simp add: eval_step_def pre push_value_def on_stack_def)
  then show ?thesis by (simp add: eval_loop_Some [OF ne g])
qed

lemmas op_eval = eval_step_def pre_checks_def is_disabled_def exec_op_def exec_stack_op_def
  on_stack_def MAX_SCRIPT_ELEMENT_SIZE_def MAX_OPS_PER_SCRIPT_def MAX_STACK_SIZE_def

section \<open>Unspendable outputs\<close>

text \<open>
  C32. \<^verbatim>\<open>IsUnspendable\<close> keeps its promise: a script it reports fails to evaluate with a script
  error on every stack, under all flags, checkers and signature versions, so pruning such
  outputs from the coin set loses no spendable coin.
\<close>

theorem IsUnspendable_fails:
  assumes "IsUnspendable script"
  shows "\<exists>e. EvalScript cr stack script flags chk sv = serr e"
proof (cases "length script > MAX_SCRIPT_SIZE")
  case False
  with assms obtain pc where s: "script = OP_RETURN # pc"
    by (cases script) (auto simp: IsUnspendable_def)
  have "eval_step env OP_RETURN [] pc (init_state stack script) = serr SCRIPT_ERR_OP_RETURN" for env
    by (simp add: op_eval init_state_def)
  then show ?thesis
    using False by (simp add: EvalScript_def s eval_op)
qed (simp add: EvalScript_def)

theorem IsUnspendable_fails_witness:
  "IsUnspendable [OP_RETURN, 1, 7] \<and>
   (\<exists>e. EvalScript zero_crypto [[1]] [OP_RETURN, 1, 7] 0 BaseSignatureChecker BASE = serr e)"
  using IsUnspendable_fails [of "[OP_RETURN, 1, 7]" zero_crypto "[[1]]" 0 BaseSignatureChecker BASE]
  by (simp add: IsUnspendable_def)

section \<open>Assertions of VerifyScript\<close>

lemma P2SH_fails_on_empty_stack:
  assumes "IsPayToScriptHash pk"
  shows "EvalScript cr [] pk flags chk sv \<noteq> Inr s"
proof -
  obtain pc where pk: "pk = OP_HASH160 # pc"
    using assms by (cases pk) (auto simp: IsPayToScriptHash_def)
  have "eval_step env OP_HASH160 [] pc (init_state [] pk) = stack_err" for env
    by (simp add: op_eval init_state_def)
  then show ?thesis by (simp add: EvalScript_def pk eval_op)
qed

lemma EvalScript_not_Crash: "crypto_ok cr \<Longrightarrow> EvalScript cr stack script flags chk sv \<noteq> Inl Crash"
  using eval_loop_safe(1) by (simp add: EvalScript_def)

lemma VerifyWitnessProgram_not_Crash:
  "crypto_ok cr \<Longrightarrow> VerifyWitnessProgram cr w v p flags chk \<noteq> Inl Crash"
  by (auto simp: VerifyWitnessProgram_def witness_script_def bind_res_Inl_conv Let_def
      EvalScript_not_Crash split: if_splits)

lemma no_crash_bind:
  "m \<noteq> Inl Crash \<Longrightarrow> (\<And>x. m = Inr x \<Longrightarrow> f x \<noteq> Inl Crash) \<Longrightarrow> bind_res m f \<noteq> Inl Crash"
  by (cases m) auto

lemma no_crash_if:
  "(c \<Longrightarrow> a \<noteq> Inl Crash) \<Longrightarrow> (\<not> c \<Longrightarrow> b \<noteq> Inl Crash) \<Longrightarrow> (if c then a else b) \<noteq> Inl Crash"
  by simp

lemma verify_bare_witness_not_Crash:
  "crypto_ok cr \<Longrightarrow> verify_bare_witness cr sig pk w flags chk s \<noteq> Inl Crash"
  by (auto simp: verify_bare_witness_def bind_res_Inl_conv VerifyWitnessProgram_not_Crash
      split: if_split_asm option.split_asm)

lemma verify_p2sh_not_Crash:
  "crypto_ok cr \<Longrightarrow> IsPayToScriptHash pk \<Longrightarrow> c \<noteq> [] \<Longrightarrow> verify_p2sh cr sig pk w flags chk c res \<noteq> Inl Crash"
  by (auto simp: verify_p2sh_def bind_res_Inl_conv VerifyWitnessProgram_not_Crash
      EvalScript_not_Crash split: if_split_asm option.split_asm list.split_asm)

text \<open>
  C27. None of the assertions of \<^verbatim>\<open>VerifyScript\<close> can fail for flags in the combinations it
  documents: in particular the stack is never empty when a P2SH redeem script is popped.
\<close>

theorem VerifyScript_no_crash:
  assumes cr: "crypto_ok cr" and wf: "flags_wf flags"
  shows "VerifyScript cr scriptSig scriptPubKey witness flags chk \<noteq> Inl Crash"
proof -
  have p: "verify_p2sh cr scriptSig scriptPubKey witness flags chk c res \<noteq> Inl Crash"
    if "EvalScript cr c scriptPubKey flags chk BASE = Inr s" for c s res
  proof (cases "IsPayToScriptHash scriptPubKey")
    case True
    then have "c \<noteq> []" using that P2SH_fails_on_empty_stack by blast
    then show ?thesis using cr True verify_p2sh_not_Crash by blast
  qed (simp add: verify_p2sh_def)
  have e: "verify_clean_stack flags s \<noteq> Inl Crash" "verify_witness_expected flags h witness \<noteq> Inl Crash" for s h
    using wf by (auto simp: verify_clean_stack_def verify_witness_expected_def flags_wf_def split: if_split_asm)
  show ?thesis
    unfolding VerifyScript_def
    by (intro no_crash_bind no_crash_if EvalScript_not_Crash [OF cr] verify_bare_witness_not_Crash [OF cr] e)
      (simp | erule p)+
qed

theorem VerifyScript_no_crash_witness:
  "crypto_ok zero_crypto \<and> flags_wf SCRIPT_VERIFY_P2SH \<and>
   VerifyScript zero_crypto [OP_1] [OP_HASH160] [] SCRIPT_VERIFY_P2SH BaseSignatureChecker \<noteq> Inl Crash"
proof -
  have "flags_wf SCRIPT_VERIFY_P2SH" by (simp add: flags_wf_def flag_def)
  with VerifyScript_no_crash [OF crypto_ok_zero_crypto this] show ?thesis by simp
qed

section \<open>The OP_SENDER flag\<close>



section \<open>Contract outputs\<close>

text \<open>
  The contract opcodes end the evaluation at once: reached in an executed position within
  the operation limit, \<^verbatim>\<open>OP_CALL\<close> makes \<^verbatim>\<open>EvalScript\<close> return true with the rest of the
  script, opcode included, on top of the stack, whatever follows: even an undecodable rest or
  a conditional that is never closed.
\<close>

theorem OP_CALL_returns:
  assumes "False \<notin> set (es_vfExec st)" and "es_nOpCount st < MAX_OPS_PER_SCRIPT"
  shows "eval_loop env (OP_CALL # rest) st = Inr ((OP_CALL # rest) # es_stack st)"
  using assms by (simp add: eval_op op_eval)

theorem OP_CALL_returns_witness:
  "EvalScript zero_crypto [] [OP_1, OP_IF, OP_CALL, OP_PUSHDATA1] 0 BaseSignatureChecker BASE =
    Inr [[OP_CALL, OP_PUSHDATA1]]"
proof -
  let ?env = "\<lparr>ev_flags = 0, ev_sigversion = BASE, ev_checker = BaseSignatureChecker, ev_crypto = zero_crypto\<rparr>"
  let ?st = "\<lparr>es_stack = [], es_altstack = [], es_vfExec = [True],
    es_codehash = [OP_1, OP_IF, OP_CALL, OP_PUSHDATA1], es_nOpCount = 1\<rparr>"
  have "EvalScript zero_crypto [] [OP_1, OP_IF, OP_CALL, OP_PUSHDATA1] 0 BaseSignatureChecker BASE =
      eval_loop ?env [OP_CALL, OP_PUSHDATA1] ?st"
    by (simp add: EvalScript_def eval_op op_eval init_state_def flag_def MAX_SCRIPT_SIZE_def
        op_small_int_def op_if_def serialize_def abs_bytes.simps)
  also have "\<dots> = Inr [[OP_CALL, OP_PUSHDATA1]]"
    using OP_CALL_returns [of ?st ?env "[OP_PUSHDATA1]"] by (simp add: MAX_OPS_PER_SCRIPT_def)
  finally show ?thesis .
qed

section \<open>Pay to public key hash\<close>

lemma skip_matches_none: "b \<noteq> [] \<Longrightarrow> pc = [] \<or> hd pc \<noteq> hd b \<Longrightarrow> skip_matches b pc k = (pc, k)"
  by (subst skip_matches.simps) (cases pc; cases b; auto)

lemma FindAndDelete_loop_none:
  assumes "b \<noteq> []" and "list_all instr ins" and "\<forall>i\<in>set ins. hd (iraw i) \<noteq> hd b"
  shows "snd (FindAndDelete_loop b r pc2 (asm ins) k) = k"
  using assms(2,3)
proof (induction ins arbitrary: r pc2)
  case Nil
  then show ?case
    by (subst FindAndDelete_loop.simps) (simp add: skip_matches_none [OF assms(1)])
next
  case (Cons i ins)
  have i: "instr i" "iraw i \<noteq> []" using Cons.prems(1) instr_nonempty by simp_all
  then have "hd (iraw i @ asm ins) \<noteq> hd b" using Cons.prems(2) by simp
  then have "skip_matches b (iraw i @ asm ins) k = (iraw i @ asm ins, k)"
    using assms(1) by (intro skip_matches_none) simp_all
  then show ?case
    using Cons by (subst FindAndDelete_loop.simps) (simp add: GetOp_instr [OF i(1)])
qed

lemma FindAndDelete_none:
  assumes "list_all instr ins" and "\<forall>i\<in>set ins. hd (iraw i) \<noteq> hd b" and "b \<noteq> []"
  shows "FindAndDelete (asm ins) b = (asm ins, 0)"
  using FindAndDelete_loop_none [OF assms(3,1,2), of "[]" "asm ins" 0]
  by (auto simp: FindAndDelete_def split: prod.split)

definition p2pkh_script :: "valtype \<Rightarrow> cscript" where
  "p2pkh_script h = OP_DUP # OP_HASH160 # push_data h @ [OP_EQUALVERIFY, OP_CHECKSIG]"

lemma instr_op: "OP_PUSHDATA4 < opcode \<Longrightarrow> instr (opcode, [], [opcode])"
  by (simp add: instr_def GetOp_op)

lemma p2pkh_FindAndDelete:
  assumes "length h = 20" and "length sig \<le> 75" and "length sig \<noteq> 20"
  shows "FindAndDelete (p2pkh_script h) (push_data sig) = (p2pkh_script h, 0)"
proof -
  let ?ins = "[(OP_DUP, [], [OP_DUP]), (OP_HASH160, [], [OP_HASH160]), (push_op h, h, push_data h),
    (OP_EQUALVERIFY, [], [OP_EQUALVERIFY]), (OP_CHECKSIG, [], [OP_CHECKSIG])]"
  have hs: "unat (hd (push_data sig)) = length sig" "push_data sig \<noteq> []"
    using assms(2) by (auto simp: push_data_def unat_of_nat_small)
  have hh: "hd (push_data h) = 20" using assms(1) by (simp add: push_data_def)
  have "list_all instr ?ins"
    using instr_push_data [of h] assms(1) by (simp add: instr_op)
  moreover have "\<forall>i\<in>set ?ins. hd (iraw i) \<noteq> hd (push_data sig)"
    using hs(1) hh assms(2,3) by (auto dest!: arg_cong [of _ "hd (push_data sig)" unat])
  moreover have "asm ?ins = p2pkh_script h" by (simp add: p2pkh_script_def)
  ultimately show ?thesis using FindAndDelete_none [of ?ins "push_data sig"] hs(2) by metis
qed

lemma CheckMinimalPush_direct:
  "2 \<le> length d \<Longrightarrow> length d \<le> 75 \<Longrightarrow> CheckMinimalPush d (push_op d) = Some True"
  using push_op_le [of d] by (auto simp: CheckMinimalPush_def push_op_def unat_of_nat_small)

lemma IsPushOnly_push_data:
  assumes "length d < 2 ^ 32"
  shows "IsPushOnly (push_data d @ pc) = IsPushOnly pc"
proof -
  have g: "GetOp (push_data d @ pc) = Some (push_op d, d, pc)"
    using GetOp_instr [OF instr_push_data [OF assms], of pc] by simp
  have "push_data d \<noteq> []" by (simp add: push_data_def)
  moreover have "\<not> push_op d > OP_16"
    using push_op_le [of d] by (simp add: not_less order_trans [of _ OP_PUSHDATA4])
  ultimately show ?thesis using g by (subst IsPushOnly.simps) simp
qed

lemma length_push_data_le: "length (push_data d) \<le> length d + 5"
  by (simp add: push_data_def)

lemma EvalScript_sig_pubkey:
  assumes "2 \<le> length sig" "length sig \<le> 75" "2 \<le> length pk" "length pk \<le> 75"
  shows "EvalScript cr [] (push_data sig @ push_data pk) flags chk sv = Inr [pk, sig]"
proof -
  have "length (push_data sig @ push_data pk) \<le> MAX_SCRIPT_SIZE"
    using length_push_data_le [of sig] length_push_data_le [of pk] assms by (simp add: MAX_SCRIPT_SIZE_def)
  then show ?thesis
    using assms eval_push [of pk _ _ "[]"]
    by (simp add: EvalScript_def eval_push CheckMinimalPush_direct init_state_def
        MAX_SCRIPT_ELEMENT_SIZE_def MAX_STACK_SIZE_def)
qed

lemma EvalScript_p2pkh:
  assumes h: "length h = 20" and sig: "2 \<le> length sig" "length sig \<le> 75" "length sig \<noteq> 20"
    and env: "env = \<lparr>ev_flags = flags, ev_sigversion = sv, ev_checker = chk, ev_crypto = cr\<rparr>"
  shows "EvalScript cr [pk, sig] (p2pkh_script h) flags chk sv =
    (if CHash160 cr pk \<noteq> h then serr SCRIPT_ERR_EQUALVERIFY
     else bind_res (check_encodings env sig pk) (\<lambda>_.
       let ok = chk_CheckSig chk sig pk (p2pkh_script h) sv in
       if \<not> ok \<and> flag flags SCRIPT_VERIFY_NULLFAIL then serr SCRIPT_ERR_SIG_NULLFAIL
       else Inr [vchBool ok]))"
proof -
  let ?st = "\<lparr>es_stack = [CHash160 cr pk, pk, sig], es_altstack = [], es_vfExec = [],
    es_codehash = p2pkh_script h, es_nOpCount = 2\<rparr>"
  have len: "length (p2pkh_script h) \<le> MAX_SCRIPT_SIZE"
    using length_push_data_le [of h] h by (simp add: p2pkh_script_def MAX_SCRIPT_SIZE_def)
  have "EvalScript cr [pk, sig] (p2pkh_script h) flags chk sv =
      eval_loop env (push_data h @ [OP_EQUALVERIFY, OP_CHECKSIG]) ?st"
    using len unfolding EvalScript_def env [symmetric]
    by (simp add: init_state_def p2pkh_script_def eval_op op_eval hash_op_def) (simp add: env numeral_2_eq_2)
  also have "\<dots> = eval_loop env [OP_EQUALVERIFY, OP_CHECKSIG] (?st\<lparr>es_stack := h # es_stack ?st\<rparr>)"
    by (rule eval_push)
      (simp_all add: h CheckMinimalPush_direct MAX_SCRIPT_ELEMENT_SIZE_def MAX_STACK_SIZE_def)
  also have "\<dots> = (if CHash160 cr pk \<noteq> h then serr SCRIPT_ERR_EQUALVERIFY
      else eval_loop env [OP_CHECKSIG] (?st\<lparr>es_stack := [pk, sig], es_nOpCount := 3\<rparr>))"
    by (simp add: eval_op op_eval)
  also have "eval_loop env [OP_CHECKSIG] (?st\<lparr>es_stack := [pk, sig], es_nOpCount := 3\<rparr>) =
      bind_res (op_checksig env OP_CHECKSIG (p2pkh_script h) [pk, sig]) Inr"
    using safe_opD(2) [OF safe_op_checksig, of env OP_CHECKSIG "p2pkh_script h" "[pk, sig]"]
    by (cases "op_checksig env OP_CHECKSIG (p2pkh_script h) [pk, sig]")
      (simp_all add: eval_op op_eval del: op_checksig.simps)
  also have "drop_sig env (p2pkh_script h) sig = Inr (p2pkh_script h)"
    using p2pkh_FindAndDelete [OF h sig(2,3)] by (simp add: drop_sig_def)
  then have "op_checksig env OP_CHECKSIG (p2pkh_script h) [pk, sig] =
      bind_res (check_encodings env sig pk) (\<lambda>_.
       let ok = chk_CheckSig chk sig pk (p2pkh_script h) sv in
       if \<not> ok \<and> flag flags SCRIPT_VERIFY_NULLFAIL then serr SCRIPT_ERR_SIG_NULLFAIL
       else Inr [vchBool ok])"
    using sig(1) env by (cases sig) (simp_all add: Let_def)
  finally show ?thesis
    by (cases "check_encodings env sig pk") (simp_all add: Let_def)
qed

text \<open>
  C2. The spending condition of a pay-to-pubkey-hash output: a scriptSig that pushes a signature
  and a public key is accepted by \<^verbatim>\<open>VerifyScript\<close>, with an empty witness, exactly when the key
  hashes to the hash in the output, the encodings pass the checks of the flags, and the checker
  accepts the signature over the output script. (A 20-byte signature could be confused with the
  hash by \<^verbatim>\<open>FindAndDelete\<close> and is left out.)
\<close>

theorem P2PKH_spend_iff:
  assumes h: "length h = 20" and sig: "2 \<le> length sig" "length sig \<le> 75" "length sig \<noteq> 20"
    and pk: "2 \<le> length pk" "length pk \<le> 75" and wf: "flags_wf flags"
  shows "VerifyScript cr (push_data sig @ push_data pk) (p2pkh_script h) [] flags chk = Inr () \<longleftrightarrow>
    CHash160 cr pk = h \<and>
    check_encodings \<lparr>ev_flags = flags, ev_sigversion = BASE, ev_checker = chk, ev_crypto = cr\<rparr> sig pk = Inr () \<and>
    chk_CheckSig chk sig pk (p2pkh_script h) BASE"
proof -
  have po: "IsPushOnly (push_data sig @ push_data pk)"
    using IsPushOnly_push_data [of sig "push_data pk"] IsPushOnly_push_data [of pk "[]"] sig pk
    by (simp add: IsPushOnly.simps)
  have nw: "IsWitnessProgram (p2pkh_script h) = None" and np: "\<not> IsPayToScriptHash (p2pkh_script h)"
    by (simp_all add: IsWitnessProgram_def IsPayToScriptHash_def p2pkh_script_def)
  have cb: "CastToBool (vchBool b) = b" for b
    by (simp add: vchBool_def vchTrue_def vchFalse_def)
  have "verify_clean_stack flags [v] = Inr ()" "verify_witness_expected flags False [] = Inr ()" for v
    using wf by (auto simp: verify_clean_stack_def verify_witness_expected_def flags_wf_def)
  then show ?thesis
    using po nw np cb
    by (auto simp: VerifyScript_def EvalScript_sig_pubkey [OF sig(1,2) pk] EvalScript_p2pkh [OF h sig refl]
        verify_bare_witness_def verify_p2sh_def Let_def split: if_split_asm)
qed

theorem P2PKH_spend_iff_witness:
  "VerifyScript zero_crypto (push_data (replicate 71 1) @ push_data (replicate 33 2))
     (p2pkh_script (replicate 20 0)) [] SCRIPT_VERIFY_P2SH
     (BaseSignatureChecker\<lparr>chk_CheckSig := \<lambda>s k c v. k = replicate 33 2\<rparr>) = Inr ()"
proof -
  have "flags_wf SCRIPT_VERIFY_P2SH" by (simp add: flags_wf_def flag_def)
  then show ?thesis
    by (subst P2PKH_spend_iff)
      (simp_all add: CHash160_def zero_crypto_def check_encodings_def CheckSignatureEncoding_def
        CheckPubKeyEncoding_def flag_def)
qed

section \<open>Instances\<close>

theorem EvalScript_no_crash_witness:
  "crypto_ok zero_crypto \<and>
   EvalScript zero_crypto [serialize (2 ^ 31 - 1)] [OP_DUP, OP_ADD] 0 BaseSignatureChecker BASE \<noteq> Inl Crash"
  using EvalScript_no_crash [OF crypto_ok_zero_crypto] by simp

lemma EvalScript_OP_1:
  "length s < MAX_STACK_SIZE \<Longrightarrow> EvalScript cr s [OP_1] flags chk sv = Inr ([1] # s)"
  by (simp add: EvalScript_def eval_op op_eval init_state_def MAX_SCRIPT_SIZE_def op_small_int_def
      serialize_def abs_bytes.simps)


theorem VerifyScript_soft_fork_witness:
  "VerifyScript zero_crypto [] [OP_1] [] SCRIPT_VERIFY_P2SH BaseSignatureChecker = Inr () \<and>
   VerifyScript zero_crypto [] [OP_1] [] 0 BaseSignatureChecker = Inr ()"
proof -
  have "EvalScript cr [] [] flags chk sv = Inr []" for cr flags chk sv
    by (simp add: EvalScript_def init_state_def)
  then have g: "VerifyScript zero_crypto [] [OP_1] [] SCRIPT_VERIFY_P2SH BaseSignatureChecker = Inr ()"
    by (simp add: VerifyScript_def EvalScript_OP_1 MAX_STACK_SIZE_def flag_def verify_bare_witness_def
        verify_p2sh_def IsPayToScriptHash_def verify_clean_stack_def verify_witness_expected_def)
  moreover have "flags_le 0 SCRIPT_VERIFY_P2SH" "flags_wf 0"
    "flag 0 SCRIPT_OUTPUT_SENDER = flag SCRIPT_VERIFY_P2SH SCRIPT_OUTPUT_SENDER"
    by (simp_all add: flags_le_def flags_wf_def flag_def)
  ultimately show ?thesis using VerifyScript_soft_fork by blast
qed

end
