(* ===== verification/Transaction.thy ===== *)
theory Transaction
  imports Script
begin

text \<open>
  Transactions and blocks: \<^verbatim>\<open>src/primitives/transaction.h\<close>, \<^verbatim>\<open>transaction.cpp\<close>,
  \<^verbatim>\<open>block.h\<close>, \<^verbatim>\<open>block.cpp\<close> and \<^verbatim>\<open>src/amount.h\<close>. Classes are records; the
  templates \<^verbatim>\<open>SerializeTransaction\<close> and \<^verbatim>\<open>UnserializeTransaction\<close> are a writer and a
  reader with the flag \<open>fAllowWitness\<close> of the stream's version. The hash function of
  \<^verbatim>\<open>SerializeHash\<close> is an argument.
\<close>

section \<open>Amounts\<close>

definition COIN :: CAmount where "COIN = 100000000"
definition CENT :: CAmount where "CENT = 1000000"

definition MAX_MONEY :: CAmount where "MAX_MONEY = 107822406 * COIN + 25 * (COIN div 100)"

definition MoneyRange :: "CAmount \<Rightarrow> bool" where
  "MoneyRange nValue \<longleftrightarrow> nValue \<ge> 0 \<and> nValue \<le> MAX_MONEY"

section \<open>Outpoints, inputs and outputs\<close>

record COutPoint =
  outpoint_hash :: uint256
  outpoint_n :: uint32

definition NULL_INDEX :: uint32 where "NULL_INDEX = - 1"

definition COutPoint_IsNull :: "COutPoint \<Rightarrow> bool" where
  "COutPoint_IsNull op \<longleftrightarrow> outpoint_hash op = 0 \<and> outpoint_n op = NULL_INDEX"

definition COutPoint_null :: COutPoint where
  "COutPoint_null = \<lparr>outpoint_hash = 0, outpoint_n = NULL_INDEX\<rparr>"

record CTxIn =
  in_prevout :: COutPoint
  in_scriptSig :: cscript
  in_nSequence :: uint32
  in_scriptWitness :: "valtype list"

definition SEQUENCE_FINAL :: uint32 where "SEQUENCE_FINAL = 0xffffffff"

record CTxOut =
  out_nValue :: CAmount
  out_scriptPubKey :: cscript

definition CTxOut_IsNull :: "CTxOut \<Rightarrow> bool" where
  "CTxOut_IsNull txout \<longleftrightarrow> out_nValue txout = - 1"

definition CTxOut_SetNull :: CTxOut where
  "CTxOut_SetNull = \<lparr>out_nValue = - 1, out_scriptPubKey = []\<rparr>"

definition CTxOut_IsEmpty :: "CTxOut \<Rightarrow> bool" where
  "CTxOut_IsEmpty txout \<longleftrightarrow> out_nValue txout = 0 \<and> out_scriptPubKey txout = []"

record CTransaction =
  tx_nVersion :: uint32
  tx_vin :: "CTxIn list"
  tx_vout :: "CTxOut list"
  tx_nLockTime :: uint32

section \<open>Serialization\<close>

text \<open>A \<^verbatim>\<open>CAmount\<close> is written as its 64-bit two's complement pattern.\<close>

definition ser_int64 :: "CAmount \<Rightarrow> bytes" where
  "ser_int64 v = ser_writedata64 (of_int v)"

definition unser_int64 :: "CAmount reader" where
  "unser_int64 = rmap sint ser_readdata64"

definition Serialize_COutPoint :: "COutPoint \<Rightarrow> bytes" where
  "Serialize_COutPoint op = ser_uint256 (outpoint_hash op) @ ser_writedata32 (outpoint_n op)"

definition Unserialize_COutPoint :: "COutPoint reader" where
  "Unserialize_COutPoint =
     rbind unser_uint256 (\<lambda>h. rbind ser_readdata32 (\<lambda>k.
     rreturn \<lparr>outpoint_hash = h, outpoint_n = k\<rparr>))"

definition Serialize_CTxIn :: "CTxIn \<Rightarrow> bytes" where
  "Serialize_CTxIn txin =
     Serialize_COutPoint (in_prevout txin) @ Serialize_bytes (in_scriptSig txin) @
     ser_writedata32 (in_nSequence txin)"

definition Unserialize_CTxIn :: "CTxIn reader" where
  "Unserialize_CTxIn =
     rbind Unserialize_COutPoint (\<lambda>prevout. rbind Unserialize_bytes (\<lambda>scriptSig.
     rbind ser_readdata32 (\<lambda>nSequence.
     rreturn \<lparr>in_prevout = prevout, in_scriptSig = scriptSig, in_nSequence = nSequence,
       in_scriptWitness = []\<rparr>)))"

definition Serialize_CTxOut :: "CTxOut \<Rightarrow> bytes" where
  "Serialize_CTxOut txout =
     ser_int64 (out_nValue txout) @ Serialize_bytes (out_scriptPubKey txout)"

definition Unserialize_CTxOut :: "CTxOut reader" where
  "Unserialize_CTxOut =
     rbind unser_int64 (\<lambda>v. rbind Unserialize_bytes (\<lambda>s.
     rreturn \<lparr>out_nValue = v, out_scriptPubKey = s\<rparr>))"

definition Serialize_witness :: "valtype list \<Rightarrow> bytes" where
  "Serialize_witness = Serialize_vector Serialize_bytes"

definition Unserialize_witness :: "valtype list reader" where
  "Unserialize_witness = Unserialize_vector Unserialize_bytes"

definition HasWitness :: "CTransaction \<Rightarrow> bool" where
  "HasWitness tx \<longleftrightarrow> (\<exists>txin \<in> set (tx_vin tx). in_scriptWitness txin \<noteq> [])"

definition SerializeTransaction :: "bool \<Rightarrow> CTransaction \<Rightarrow> bytes" where
  "SerializeTransaction fAllowWitness tx =
     (let flags = (if fAllowWitness \<and> HasWitness tx then 1 else 0 :: byte) in
      ser_writedata32 (tx_nVersion tx) @
      (if flags \<noteq> 0 then Serialize_vector Serialize_CTxIn [] @ ser_writedata8 flags else []) @
      Serialize_vector Serialize_CTxIn (tx_vin tx) @
      Serialize_vector Serialize_CTxOut (tx_vout tx) @
      (if flags AND 1 \<noteq> 0
       then concat (map (\<lambda>txin. Serialize_witness (in_scriptWitness txin)) (tx_vin tx)) else []) @
      ser_writedata32 (tx_nLockTime tx))"

text \<open>The loop that reads one witness stack per input.\<close>

fun read_witnesses :: "CTxIn list \<Rightarrow> CTxIn list reader" where
  "read_witnesses [] = rreturn []"
| "read_witnesses (txin # vin) =
     rbind Unserialize_witness (\<lambda>w. rbind (read_witnesses vin) (\<lambda>vin'.
     rreturn (txin\<lparr>in_scriptWitness := w\<rparr> # vin')))"

text \<open>Reading \<open>vin\<close>, the optional flags byte, and \<open>vout\<close>.\<close>

definition read_vin_vout :: "bool \<Rightarrow> (CTxIn list \<times> CTxOut list \<times> byte) reader" where
  "read_vin_vout fAllowWitness =
     rbind (Unserialize_vector Unserialize_CTxIn) (\<lambda>vin.
     if vin = [] \<and> fAllowWitness then
       rbind ser_readdata8 (\<lambda>flags.
       if flags \<noteq> 0 then
         rbind (Unserialize_vector Unserialize_CTxIn) (\<lambda>vin'.
         rbind (Unserialize_vector Unserialize_CTxOut) (\<lambda>vout.
         rreturn (vin', vout, flags)))
       else rreturn ([], [], flags))
     else
       rbind (Unserialize_vector Unserialize_CTxOut) (\<lambda>vout. rreturn (vin, vout, 0)))"

definition UnserializeTransaction :: "bool \<Rightarrow> CTransaction reader" where
  "UnserializeTransaction fAllowWitness =
     rbind ser_readdata32 (\<lambda>nVersion.
     rbind (read_vin_vout fAllowWitness) (\<lambda>(vin, vout, flags).
     rbind
       (if flags AND 1 \<noteq> 0 \<and> fAllowWitness then
          rbind (read_witnesses vin) (\<lambda>vin'.
          if \<not> (\<exists>txin \<in> set vin'. in_scriptWitness txin \<noteq> []) then rthrow SuperfluousWitness
          else rreturn (vin', flags XOR 1))
        else rreturn (vin, flags))
       (\<lambda>(vin', flags').
     if flags' \<noteq> 0 then rthrow UnknownOptionalData
     else rbind ser_readdata32 (\<lambda>nLockTime.
       rreturn \<lparr>tx_nVersion = nVersion, tx_vin = vin', tx_vout = vout, tx_nLockTime = nLockTime\<rparr>))))"

section \<open>Hashes, weight and predicates of a transaction\<close>

text \<open>\<open>H\<close> is \<^verbatim>\<open>CHashWriter::GetHash\<close>, the double SHA-256 as a \<^verbatim>\<open>uint256\<close>.\<close>

definition ComputeHash :: "(bytes \<Rightarrow> uint256) \<Rightarrow> CTransaction \<Rightarrow> uint256" where
  "ComputeHash H tx = H (SerializeTransaction False tx)"

definition ComputeWitnessHash :: "(bytes \<Rightarrow> uint256) \<Rightarrow> CTransaction \<Rightarrow> uint256" where
  "ComputeWitnessHash H tx =
     (if \<not> HasWitness tx then ComputeHash H tx else H (SerializeTransaction True tx))"

definition GetTotalSize :: "CTransaction \<Rightarrow> nat" where
  "GetTotalSize tx = length (SerializeTransaction True tx)"

definition WITNESS_SCALE_FACTOR :: nat where "WITNESS_SCALE_FACTOR = 4"

definition GetTransactionWeight :: "CTransaction \<Rightarrow> nat" where
  "GetTransactionWeight tx =
     length (SerializeTransaction False tx) * (WITNESS_SCALE_FACTOR - 1) +
     length (SerializeTransaction True tx)"

definition IsCoinBase :: "CTransaction \<Rightarrow> bool" where
  "IsCoinBase tx \<longleftrightarrow>
     length (tx_vin tx) = 1 \<and> COutPoint_IsNull (in_prevout (tx_vin tx ! 0)) \<and> length (tx_vout tx) \<ge> 1"

definition IsCoinStake :: "CTransaction \<Rightarrow> bool" where
  "IsCoinStake tx \<longleftrightarrow>
     length (tx_vin tx) > 0 \<and> \<not> COutPoint_IsNull (in_prevout (tx_vin tx ! 0)) \<and>
     length (tx_vout tx) \<ge> 2 \<and> CTxOut_IsEmpty (tx_vout tx ! 0)"

definition IsNormalTx :: "CTransaction \<Rightarrow> bool" where
  "IsNormalTx tx \<longleftrightarrow> \<not> IsCoinBase tx \<and> \<not> IsCoinStake tx"

definition HasCreateOrCall :: "CTransaction \<Rightarrow> bool" where
  "HasCreateOrCall tx \<longleftrightarrow>
     (\<exists>v \<in> set (tx_vout tx). HasOpCreate (out_scriptPubKey v) \<or> HasOpCall (out_scriptPubKey v))"

definition tx_HasOpCoinstakeCall :: "CTransaction \<Rightarrow> bool" where
  "tx_HasOpCoinstakeCall tx \<longleftrightarrow> (\<exists>v \<in> set (tx_vout tx). HasOpCoinstakeCall (out_scriptPubKey v))"

definition tx_HasOpSpend :: "CTransaction \<Rightarrow> bool" where
  "tx_HasOpSpend tx \<longleftrightarrow> (\<exists>i \<in> set (tx_vin tx). HasOpSpend (in_scriptSig i))"

definition tx_HasOpCreate :: "CTransaction \<Rightarrow> bool" where
  "tx_HasOpCreate tx \<longleftrightarrow> (\<exists>v \<in> set (tx_vout tx). HasOpCreate (out_scriptPubKey v))"

definition hasOpCall :: "CTransaction \<Rightarrow> bool" where
  "hasOpCall tx \<longleftrightarrow> (\<exists>v \<in> set (tx_vout tx). HasOpCall (out_scriptPubKey v))"

definition hasOpSender :: "CTransaction \<Rightarrow> bool" where
  "hasOpSender tx \<longleftrightarrow> (\<exists>v \<in> set (tx_vout tx). HasOpSender (out_scriptPubKey v))"

text \<open>\<^verbatim>\<open>GetCreateOrCall\<close>: \<^verbatim>\<open>OpCall = 1\<close>, \<^verbatim>\<open>OpCreate = 2\<close>, summed.\<close>

definition GetCreateOrCall :: "CTransaction \<Rightarrow> nat" where
  "GetCreateOrCall tx = (if hasOpCall tx then 1 else 0) + (if tx_HasOpCreate tx then 2 else 0)"

text \<open>
  \<^verbatim>\<open>GetValueOut\<close> adds an output to the total before it checks either: the addition of 64-bit
  signed integers overflows for some inputs.
\<close>

datatype value_out_error = ValueOutOfRange | SignedOverflow

fun value_out_loop :: "CAmount \<Rightarrow> CTxOut list \<Rightarrow> value_out_error + CAmount" where
  "value_out_loop nValueOut [] = Inr nValueOut"
| "value_out_loop nValueOut (txout # vout) =
     (let nValueOut' = nValueOut + out_nValue txout in
      if nValueOut' < int64_min \<or> nValueOut' > int64_max then Inl SignedOverflow
      else if \<not> MoneyRange (out_nValue txout) \<or> \<not> MoneyRange nValueOut' then Inl ValueOutOfRange
      else value_out_loop nValueOut' vout)"

definition GetValueOut :: "CTransaction \<Rightarrow> value_out_error + CAmount" where
  "GetValueOut tx = value_out_loop 0 (tx_vout tx)"

section \<open>Blocks\<close>

record CBlockHeader =
  hdr_nVersion :: uint32
  hdr_hashPrevBlock :: uint256
  hdr_hashMerkleRoot :: uint256
  hdr_nTime :: uint32
  hdr_nBits :: uint32
  hdr_nNonce :: uint32
  hdr_hashStateRoot :: uint256
  hdr_hashUTXORoot :: uint256
  hdr_prevoutStake :: COutPoint
  hdr_vchBlockSigDlgt :: bytes

record CBlock =
  blk_header :: CBlockHeader
  blk_vtx :: "CTransaction list"

definition COMPACT_SIGNATURE_SIZE :: nat where "COMPACT_SIGNATURE_SIZE = 65"

definition ser_header_fields :: "CBlockHeader \<Rightarrow> bytes" where
  "ser_header_fields h =
     ser_writedata32 (hdr_nVersion h) @ ser_uint256 (hdr_hashPrevBlock h) @
     ser_uint256 (hdr_hashMerkleRoot h) @ ser_writedata32 (hdr_nTime h) @
     ser_writedata32 (hdr_nBits h) @ ser_writedata32 (hdr_nNonce h) @
     ser_uint256 (hdr_hashStateRoot h) @ ser_uint256 (hdr_hashUTXORoot h) @
     Serialize_COutPoint (hdr_prevoutStake h)"

definition Serialize_CBlockHeader :: "CBlockHeader \<Rightarrow> bytes" where
  "Serialize_CBlockHeader h = ser_header_fields h @ Serialize_bytes (hdr_vchBlockSigDlgt h)"

definition Unserialize_CBlockHeader :: "CBlockHeader reader" where
  "Unserialize_CBlockHeader =
     rbind ser_readdata32 (\<lambda>nVersion. rbind unser_uint256 (\<lambda>hashPrevBlock.
     rbind unser_uint256 (\<lambda>hashMerkleRoot. rbind ser_readdata32 (\<lambda>nTime.
     rbind ser_readdata32 (\<lambda>nBits. rbind ser_readdata32 (\<lambda>nNonce.
     rbind unser_uint256 (\<lambda>hashStateRoot. rbind unser_uint256 (\<lambda>hashUTXORoot.
     rbind Unserialize_COutPoint (\<lambda>prevoutStake. rbind Unserialize_bytes (\<lambda>sig.
     rreturn \<lparr>hdr_nVersion = nVersion, hdr_hashPrevBlock = hashPrevBlock,
       hdr_hashMerkleRoot = hashMerkleRoot, hdr_nTime = nTime, hdr_nBits = nBits,
       hdr_nNonce = nNonce, hdr_hashStateRoot = hashStateRoot, hdr_hashUTXORoot = hashUTXORoot,
       hdr_prevoutStake = prevoutStake, hdr_vchBlockSigDlgt = sig\<rparr>))))))))))"

definition Serialize_CBlock :: "bool \<Rightarrow> CBlock \<Rightarrow> bytes" where
  "Serialize_CBlock fAllowWitness b =
     Serialize_CBlockHeader (blk_header b) @
     Serialize_vector (SerializeTransaction fAllowWitness) (blk_vtx b)"

definition Unserialize_CBlock :: "bool \<Rightarrow> CBlock reader" where
  "Unserialize_CBlock fAllowWitness =
     rbind Unserialize_CBlockHeader (\<lambda>h.
     rbind (Unserialize_vector (UnserializeTransaction fAllowWitness)) (\<lambda>vtx.
     rreturn \<lparr>blk_header = h, blk_vtx = vtx\<rparr>))"

definition IsProofOfStake :: "CBlockHeader \<Rightarrow> bool" where
  "IsProofOfStake h \<longleftrightarrow> \<not> COutPoint_IsNull (hdr_prevoutStake h)"

definition StakeTime :: "CBlockHeader \<Rightarrow> uint32" where
  "StakeTime h = (if IsProofOfStake h then hdr_nTime h else 0)"

definition HasProofOfDelegation :: "CBlockHeader \<Rightarrow> bool" where
  "HasProofOfDelegation h \<longleftrightarrow> length (hdr_vchBlockSigDlgt h) \<ge> 2 * COMPACT_SIGNATURE_SIZE"

definition GetBlockSignature :: "CBlockHeader \<Rightarrow> bytes" where
  "GetBlockSignature h =
     (let v = hdr_vchBlockSigDlgt h in
      if length v < 2 * COMPACT_SIGNATURE_SIZE then v
      else take (length v - COMPACT_SIGNATURE_SIZE) v)"

definition GetProofOfDelegation :: "CBlockHeader \<Rightarrow> bytes" where
  "GetProofOfDelegation h =
     (let v = hdr_vchBlockSigDlgt h in
      if length v < 2 * COMPACT_SIGNATURE_SIZE then []
      else drop (length v - COMPACT_SIGNATURE_SIZE) v)"

definition SetBlockSignature :: "bytes \<Rightarrow> CBlockHeader \<Rightarrow> CBlockHeader" where
  "SetBlockSignature vchSign h =
     (if HasProofOfDelegation h
      then h\<lparr>hdr_vchBlockSigDlgt := vchSign @ GetProofOfDelegation h\<rparr>
      else h\<lparr>hdr_vchBlockSigDlgt := vchSign\<rparr>)"

text \<open>\<^verbatim>\<open>vector::resize(n, 0)\<close>.\<close>

definition resize_bytes :: "nat \<Rightarrow> bytes \<Rightarrow> bytes" where
  "resize_bytes k v = take k v @ replicate (k - length v) 0"

definition SetProofOfDelegation :: "bytes \<Rightarrow> CBlockHeader \<Rightarrow> CBlockHeader" where
  "SetProofOfDelegation vchPoD h =
     (let vchSign = GetBlockSignature h;
          vchSign' = (if length vchSign \<noteq> COMPACT_SIGNATURE_SIZE
                      then resize_bytes COMPACT_SIGNATURE_SIZE vchSign else vchSign)
      in h\<lparr>hdr_vchBlockSigDlgt := vchSign' @ vchPoD\<rparr>)"

text \<open>\<^verbatim>\<open>CBlockHeaderSign\<close>: the header without the signature.\<close>

definition Serialize_CBlockHeaderSign :: "CBlockHeader \<Rightarrow> bytes" where
  "Serialize_CBlockHeaderSign h =
     ser_header_fields h @
     (if HasProofOfDelegation h then Serialize_bytes (GetProofOfDelegation h) else [])"

definition Header_GetHash :: "(bytes \<Rightarrow> uint256) \<Rightarrow> CBlockHeader \<Rightarrow> uint256" where
  "Header_GetHash H h = H (Serialize_CBlockHeader h)"

definition GetHashWithoutSign :: "(bytes \<Rightarrow> uint256) \<Rightarrow> CBlockHeader \<Rightarrow> uint256" where
  "GetHashWithoutSign H h = H (Serialize_CBlockHeaderSign h)"

definition GetBlockWeight :: "CBlock \<Rightarrow> nat" where
  "GetBlockWeight b =
     length (Serialize_CBlock False b) * (WITNESS_SCALE_FACTOR - 1) +
     length (Serialize_CBlock True b)"

section \<open>The codecs of the parts\<close>

definition int64_range :: "int \<Rightarrow> bool" where
  "int64_range v \<longleftrightarrow> int64_min \<le> v \<and> v \<le> int64_max"

lemma sint_of_int64: "int64_range v \<Longrightarrow> sint (of_int v :: uint64) = v"
  by (simp add: int64_range_def int64_min_def int64_max_def signed_of_int signed_take_bit_int_eq_self)

lemma int64_range_sint: "int64_range (sint (x :: uint64))"
  using sint_ge [of x] sint_lt [of x] by (simp add: int64_range_def int64_min_def int64_max_def)

interpretation amount: canonical_codec ser_int64 unser_int64 int64_range
proof
  show "unser_int64 (ser_int64 x @ s) = Inr (x, s)" if "int64_range x" for x s
    using that by (simp add: unser_int64_def ser_int64_def rmap_def ser64.dec_enc sint_of_int64)
  show "s = ser_int64 x @ t \<and> int64_range x" if r: "unser_int64 s = Inr (x, t)" for s x t
  proof -
    from r obtain y where y: "ser_readdata64 s = Inr (y, t)" "x = sint y"
      by (auto simp: unser_int64_def rmap_def elim!: rbind_eq_InrE)
    from ser64.enc_dec [OF y(1)] y(2) show ?thesis by (simp add: ser_int64_def int64_range_sint)
  qed
qed

interpretation outpoint: canonical_codec Serialize_COutPoint Unserialize_COutPoint "\<lambda>_. True"
proof
  show "Unserialize_COutPoint (Serialize_COutPoint x @ s) = Inr (x, s)" for x s
    by (simp add: Unserialize_COutPoint_def Serialize_COutPoint_def ser256.dec_enc ser32.dec_enc)
  show "s = Serialize_COutPoint x @ t \<and> True" if "Unserialize_COutPoint s = Inr (x, t)" for s x t
    using that unfolding Unserialize_COutPoint_def
    by (auto elim!: rbind_eq_InrE simp: Serialize_COutPoint_def dest!: ser256.enc_dec ser32.enc_dec)
qed

definition txin_ok :: "CTxIn \<Rightarrow> bool" where
  "txin_ok txin \<longleftrightarrow> size_ok (in_scriptSig txin) \<and> in_scriptWitness txin = []"

interpretation txin: canonical_codec Serialize_CTxIn Unserialize_CTxIn txin_ok
proof
  show "Unserialize_CTxIn (Serialize_CTxIn x @ s) = Inr (x, s)" if "txin_ok x" for x s
    using that
    by (cases x) (simp add: txin_ok_def Unserialize_CTxIn_def Serialize_CTxIn_def outpoint.dec_enc
        bytes_codec.dec_enc ser32.dec_enc)
  show "s = Serialize_CTxIn x @ t \<and> txin_ok x" if "Unserialize_CTxIn s = Inr (x, t)" for s x t
    using that unfolding Unserialize_CTxIn_def
    by (auto elim!: rbind_eq_InrE simp: Serialize_CTxIn_def txin_ok_def
        dest!: outpoint.enc_dec bytes_codec.enc_dec ser32.enc_dec)
qed

definition txout_ok :: "CTxOut \<Rightarrow> bool" where
  "txout_ok txout \<longleftrightarrow> int64_range (out_nValue txout) \<and> size_ok (out_scriptPubKey txout)"

interpretation txout: canonical_codec Serialize_CTxOut Unserialize_CTxOut txout_ok
proof
  show "Unserialize_CTxOut (Serialize_CTxOut x @ s) = Inr (x, s)" if "txout_ok x" for x s
    using that
    by (cases x) (simp add: txout_ok_def Unserialize_CTxOut_def Serialize_CTxOut_def amount.dec_enc
        bytes_codec.dec_enc)
  show "s = Serialize_CTxOut x @ t \<and> txout_ok x" if "Unserialize_CTxOut s = Inr (x, t)" for s x t
    using that unfolding Unserialize_CTxOut_def
    by (auto elim!: rbind_eq_InrE simp: Serialize_CTxOut_def txout_ok_def
        dest!: amount.enc_dec bytes_codec.enc_dec)
qed

definition witness_ok :: "valtype list \<Rightarrow> bool" where
  "witness_ok w \<longleftrightarrow> size_ok w \<and> list_all size_ok w"

interpretation witness: canonical_codec Serialize_witness Unserialize_witness witness_ok
proof
  show "Unserialize_witness (Serialize_witness x @ s) = Inr (x, s)" if "witness_ok x" for x s
    using that
    by (simp add: witness_ok_def Unserialize_witness_def Serialize_witness_def bytes_codec.vector_dec_enc)
  show "s = Serialize_witness x @ t \<and> witness_ok x" if "Unserialize_witness s = Inr (x, t)" for s x t
    using that bytes_codec.vector_enc_dec
    by (auto simp: witness_ok_def Unserialize_witness_def Serialize_witness_def)
qed

section \<open>Transactions are canonical\<close>

text \<open>\<open>bare\<close> drops the witnesses, which the inputs alone do not carry.\<close>

definition bare :: "CTxIn \<Rightarrow> CTxIn" where
  "bare txin = txin\<lparr>in_scriptWitness := []\<rparr>"

lemma bare_simps [simp]:
  "in_prevout (bare i) = in_prevout i" "in_scriptSig (bare i) = in_scriptSig i"
  "in_nSequence (bare i) = in_nSequence i" "in_scriptWitness (bare i) = []"
  by (simp_all add: bare_def)

lemma Serialize_CTxIn_bare [simp]: "Serialize_CTxIn (bare i) = Serialize_CTxIn i"
  by (simp add: Serialize_CTxIn_def)

lemma Serialize_vector_bare [simp]:
  "Serialize_vector Serialize_CTxIn (map bare vin) = Serialize_vector Serialize_CTxIn vin"
  by (simp add: Serialize_vector_def o_def)

lemma bare_id: "in_scriptWitness i = [] \<Longrightarrow> bare i = i"
  by (cases i) (simp add: bare_def)

definition tx_ok :: "CTransaction \<Rightarrow> bool" where
  "tx_ok tx \<longleftrightarrow> size_ok (tx_vin tx) \<and> size_ok (tx_vout tx) \<and>
     list_all (\<lambda>i. size_ok (in_scriptSig i) \<and> witness_ok (in_scriptWitness i)) (tx_vin tx) \<and>
     list_all txout_ok (tx_vout tx)"

lemma read_witnesses_enc:
  "list_all (\<lambda>i. witness_ok (in_scriptWitness i)) vin \<Longrightarrow>
   read_witnesses (map bare vin) (concat (map (\<lambda>i. Serialize_witness (in_scriptWitness i)) vin) @ s) =
     Inr (vin, s)"
proof (induction vin)
  case (Cons i vin)
  then have "witness_ok (in_scriptWitness i)" and
    r: "read_witnesses (map bare vin)
      (concat (map (\<lambda>i. Serialize_witness (in_scriptWitness i)) vin) @ s) = Inr (vin, s)"
    by simp_all
  moreover have "(bare i)\<lparr>in_scriptWitness := in_scriptWitness i\<rparr> = i"
    by (cases i) (simp add: bare_def)
  ultimately show ?case
    by (simp add: rbind_Inr [of Unserialize_witness, OF witness.dec_enc]
        rbind_Inr [of "read_witnesses (map bare vin)", OF r])
qed simp

lemma read_witnesses_dec:
  "read_witnesses vin s = Inr (vin', t) \<Longrightarrow>
   s = concat (map (\<lambda>i. Serialize_witness (in_scriptWitness i)) vin') @ t \<and>
   map bare vin' = map bare vin \<and> list_all (\<lambda>i. witness_ok (in_scriptWitness i)) vin'"
proof (induction vin arbitrary: s vin')
  case (Cons i vin)
  from Cons.prems obtain w s1 v2 where w: "Unserialize_witness s = Inr (w, s1)"
    and v: "read_witnesses vin s1 = Inr (v2, t)" and r: "vin' = i\<lparr>in_scriptWitness := w\<rparr> # v2"
    by (auto elim!: rbind_eq_InrE)
  from witness.enc_dec [OF w] Cons.IH [OF v] r show ?case by (simp add: bare_def)
qed simp

lemma list_all_txin_ok_bare:
  "list_all (\<lambda>i. size_ok (in_scriptSig i)) vin \<Longrightarrow> list_all txin_ok (map bare vin)"
  by (induction vin) (auto simp: txin_ok_def)

lemma list_all_bare:
  "map bare vin' = vin \<Longrightarrow> list_all txin_ok vin \<Longrightarrow> list_all (\<lambda>i. size_ok (in_scriptSig i)) vin'"
  by (auto simp: list_all_iff txin_ok_def)

lemma vector_nonempty_head:
  assumes "size_ok (xs :: 'a list)"
  shows "\<exists>c r. Serialize_vector ser xs = c # r"
proof -
  have "length (WriteCompactSize (of_nat (length xs))) \<noteq> 0"
    by (simp add: length_WriteCompactSize GetSizeOfCompactSize_def)
  then show ?thesis unfolding Serialize_vector_def by (cases "WriteCompactSize (of_nat (length xs))") auto
qed

lemma Serialize_vector_Nil [simp]: "Serialize_vector ser [] = [0]"
  by (simp add: Serialize_vector_def WriteCompactSize_def ser_writedata8_def)

lemma Serialize_vector_hd_zero:
  assumes "size_ok xs" and "Serialize_vector ser xs @ s = 0 # t"
  shows "xs = [] \<and> s = t"
proof -
  have "WriteCompactSize (of_nat (length xs)) @ (concat (map ser xs) @ s) = WriteCompactSize 0 @ t"
    using assms(2) by (simp add: Serialize_vector_def WriteCompactSize_def [of 0] ser_writedata8_def)
  then have "of_nat (length xs) = (0 :: uint64) \<and> concat (map ser xs) @ s = t"
    using cs.enc_prefix_free size_ok_le [OF assms(1)] by (metis word_zero_le)
  then show ?thesis using size_ok_unat [OF assms(1)] by auto
qed

text \<open>Reading inputs and outputs, in the three formats.\<close>

lemma read_vin_vout_basic:
  assumes "size_ok vin" "size_ok vout" "list_all txin_ok vin" "list_all txout_ok vout"
    and "vin \<noteq> [] \<or> \<not> w"
  shows "read_vin_vout w (Serialize_vector Serialize_CTxIn vin @
    Serialize_vector Serialize_CTxOut vout @ s) = Inr ((vin, vout, 0), s)"
  using assms
  by (auto simp: read_vin_vout_def txin.vector_dec_enc txout.vector_dec_enc)

lemma read_vin_vout_dec:
  assumes "read_vin_vout w s = Inr ((vin, vout, flags), t)"
  shows "(flags = 0 \<and> (w \<longrightarrow> vin \<noteq> [] \<or> vout = []) \<and>
      s = Serialize_vector Serialize_CTxIn vin @ Serialize_vector Serialize_CTxOut vout @ t \<or>
     flags \<noteq> 0 \<and> w \<and>
      s = 0 # flags # Serialize_vector Serialize_CTxIn vin @ Serialize_vector Serialize_CTxOut vout @ t) \<and>
    size_ok vin \<and> size_ok vout \<and> list_all txin_ok vin \<and> list_all txout_ok vout"
proof -
  from assms obtain v s1 where v: "Unserialize_vector Unserialize_CTxIn s = Inr (v, s1)"
    and r: "(if v = [] \<and> w then
       rbind ser_readdata8 (\<lambda>flags.
       if flags \<noteq> 0 then
         rbind (Unserialize_vector Unserialize_CTxIn) (\<lambda>vin'.
         rbind (Unserialize_vector Unserialize_CTxOut) (\<lambda>vout.
         rreturn (vin', vout, flags)))
       else rreturn ([], [], flags))
     else
       rbind (Unserialize_vector Unserialize_CTxOut) (\<lambda>vout. rreturn (v, vout, 0))) s1 =
      Inr ((vin, vout, flags), t)"
    unfolding read_vin_vout_def by (rule rbind_eq_InrE) simp
  note v' = txin.vector_enc_dec [OF v]
  show ?thesis
  proof (cases "v = [] \<and> w")
    case True
    then obtain f s2 where f: "ser_readdata8 s1 = Inr (f, s2)"
      and r2: "(if f \<noteq> 0 then
         rbind (Unserialize_vector Unserialize_CTxIn) (\<lambda>vin'.
         rbind (Unserialize_vector Unserialize_CTxOut) (\<lambda>vout.
         rreturn (vin', vout, f)))
       else rreturn ([], [], f)) s2 = Inr ((vin, vout, flags), t)"
      using r by (auto elim!: rbind_eq_InrE)
    have s1: "s1 = f # s2" using ser8.enc_dec [OF f] by (simp add: ser_writedata8_def)
    show ?thesis
    proof (cases "f = 0")
      case True
      then show ?thesis using r2 s1 v' \<open>v = [] \<and> w\<close> by (auto simp: size_ok_def)
    next
      case False
      with r2 obtain s3 where "Unserialize_vector Unserialize_CTxIn s2 = Inr (vin, s3)"
        "Unserialize_vector Unserialize_CTxOut s3 = Inr (vout, t)" "flags = f"
        by (auto elim!: rbind_eq_InrE)
      with txin.vector_enc_dec [OF this(1)] txout.vector_enc_dec [OF this(2)] s1 v' \<open>v = [] \<and> w\<close> False
      show ?thesis by simp
    qed
  next
    case False
    with r have "Unserialize_vector Unserialize_CTxOut s1 = Inr (vout, t)" "flags = 0" "vin = v"
      by (auto elim!: rbind_eq_InrE)
    with txout.vector_enc_dec [OF this(1)] v' False show ?thesis by auto
  qed
qed

lemma flag_byte: "(1 :: byte) AND 1 \<noteq> 0" "(0 :: byte) AND 1 = 0" "(1 :: byte) XOR 1 = 0"
  by simp_all

lemma tx_ok_bare: "tx_ok tx \<Longrightarrow> list_all txin_ok (map bare (tx_vin tx))"
  by (rule list_all_txin_ok_bare) (auto simp: tx_ok_def list_all_iff)

lemma no_witness_bare: "\<not> HasWitness tx \<Longrightarrow> map bare (tx_vin tx) = tx_vin tx"
  by (simp add: HasWitness_def bare_id map_idI)

lemma HasWitness_nonempty: "HasWitness tx \<Longrightarrow> tx_vin tx \<noteq> []"
  by (auto simp: HasWitness_def)

text \<open>Serialization without witness data, on the bytes after the version.\<close>

lemma SerializeTransaction_basic:
  "\<not> (w \<and> HasWitness tx) \<Longrightarrow> SerializeTransaction w tx =
    ser_writedata32 (tx_nVersion tx) @ Serialize_vector Serialize_CTxIn (tx_vin tx) @
    Serialize_vector Serialize_CTxOut (tx_vout tx) @ ser_writedata32 (tx_nLockTime tx)"
  by (simp add: SerializeTransaction_def Let_def)

lemma SerializeTransaction_extended:
  "HasWitness tx \<Longrightarrow> SerializeTransaction True tx =
    ser_writedata32 (tx_nVersion tx) @ 0 # 1 # Serialize_vector Serialize_CTxIn (tx_vin tx) @
    Serialize_vector Serialize_CTxOut (tx_vout tx) @
    concat (map (\<lambda>txin. Serialize_witness (in_scriptWitness txin)) (tx_vin tx)) @
    ser_writedata32 (tx_nLockTime tx)"
  by (simp add: SerializeTransaction_def Let_def ser_writedata8_def)

lemma Unserialize_basic:
  assumes "tx_ok tx" and "\<not> HasWitness tx" and "w \<longrightarrow> tx_vin tx \<noteq> [] \<or> tx_vout tx = []"
  shows "UnserializeTransaction w (SerializeTransaction w tx @ s) = Inr (tx, s)"
proof -
  have ok: "size_ok (tx_vin tx)" "size_ok (tx_vout tx)" "list_all txin_ok (tx_vin tx)"
    "list_all txout_ok (tx_vout tx)"
    using assms(1) tx_ok_bare [OF assms(1)] no_witness_bare [OF assms(2)] by (simp_all add: tx_ok_def)
  let ?r = "ser_writedata32 (tx_nLockTime tx) @ s"
  have "read_vin_vout w (Serialize_vector Serialize_CTxIn (tx_vin tx) @
      Serialize_vector Serialize_CTxOut (tx_vout tx) @ ?r) = Inr ((tx_vin tx, tx_vout tx, 0), ?r)"
  proof (cases "tx_vin tx = [] \<and> w")
    case True
    then show ?thesis
      using assms(3) txin.vector_dec_enc [of "[]" "0 # ?r"] ser8.dec_enc [of 0 ?r]
      by (simp add: read_vin_vout_def size_ok_def ser_writedata8_def)
  qed (use ok read_vin_vout_basic in auto)
  note r = rbind_Inr [of "read_vin_vout w", OF this]
  show ?thesis
    using assms(2)
    by (simp add: SerializeTransaction_basic UnserializeTransaction_def r
        rbind_Inr [of ser_readdata32, OF ser32.dec_enc])
qed

lemma Unserialize_extended:
  assumes "tx_ok tx" and "HasWitness tx"
  shows "UnserializeTransaction True (SerializeTransaction True tx @ s) = Inr (tx, s)"
proof -
  let ?w = "concat (map (\<lambda>txin. Serialize_witness (in_scriptWitness txin)) (tx_vin tx))"
  let ?r = "?w @ ser_writedata32 (tx_nLockTime tx) @ s"
  have ok: "size_ok (map bare (tx_vin tx))" "size_ok (tx_vout tx)"
    "list_all txout_ok (tx_vout tx)" "list_all (\<lambda>i. witness_ok (in_scriptWitness i)) (tx_vin tx)"
    using assms(1) by (auto simp: tx_ok_def size_ok_def list_all_iff)
  note vin = txin.vector_dec_enc [OF ok(1) tx_ok_bare [OF assms(1)]]
  have "read_vin_vout True (0 # 1 # Serialize_vector Serialize_CTxIn (tx_vin tx) @
      Serialize_vector Serialize_CTxOut (tx_vout tx) @ ?r) = Inr ((map bare (tx_vin tx), tx_vout tx, 1), ?r)"
    using txin.vector_dec_enc [of "[]" "1 # t" for t] ser8.dec_enc [of 1] vin
      txout.vector_dec_enc [OF ok(2,3)]
    by (simp add: read_vin_vout_def size_ok_def ser_writedata8_def)
  note r = rbind_Inr [of "read_vin_vout True", OF this]
  note w = rbind_Inr [of "read_witnesses (map bare (tx_vin tx))", OF read_witnesses_enc [OF ok(4)]]
  have "\<exists>i \<in> set (tx_vin tx). in_scriptWitness i \<noteq> []" using assms(2) by (simp add: HasWitness_def)
  then show ?thesis
    using assms(2)
    by (simp add: SerializeTransaction_extended UnserializeTransaction_def r w rbind_def [of "rbind _ _"]
        rbind_Inr [of ser_readdata32, OF ser32.dec_enc])
qed

lemma Unserialize_dec:
  assumes "UnserializeTransaction w s = Inr (tx, t)"
  shows "s = SerializeTransaction w tx @ t \<and> tx_ok tx \<and> (HasWitness tx \<longrightarrow> w) \<and>
    (w \<longrightarrow> tx_vin tx \<noteq> [] \<or> tx_vout tx = [])"
proof -
  from assms obtain v s1 vin vout flags s2 vin' flags' s3 lt
    where v: "ser_readdata32 s = Inr (v, s1)"
      and vv: "read_vin_vout w s1 = Inr ((vin, vout, flags), s2)"
      and wt: "(if flags AND 1 \<noteq> 0 \<and> w then
          rbind (read_witnesses vin) (\<lambda>vin'.
          if \<not> (\<exists>txin \<in> set vin'. in_scriptWitness txin \<noteq> []) then rthrow SuperfluousWitness
          else rreturn (vin', flags XOR 1))
        else rreturn (vin, flags)) s2 = Inr ((vin', flags'), s3)"
      and f: "flags' = 0" and lt: "ser_readdata32 s3 = Inr (lt, t)"
      and tx: "tx = \<lparr>tx_nVersion = v, tx_vin = vin', tx_vout = vout, tx_nLockTime = lt\<rparr>"
    unfolding UnserializeTransaction_def
    by (auto elim!: rbind_eq_InrE split: if_split_asm)
  note s = ser32.enc_dec [OF v] and s3 = ser32.enc_dec [OF lt] and d = read_vin_vout_dec [OF vv]
  show ?thesis
  proof (cases "flags AND 1 \<noteq> 0 \<and> w")
    case True
    with wt obtain v1 where rw: "read_witnesses vin s2 = Inr (v1, s3)" and "v1 = vin'"
      and wit: "\<exists>txin \<in> set vin'. in_scriptWitness txin \<noteq> []" and "flags' = flags XOR 1"
      by (auto elim!: rbind_eq_InrE split: if_split_asm)
    note rd = read_witnesses_dec [OF rw [unfolded \<open>v1 = vin'\<close>]]
    from f \<open>flags' = flags XOR 1\<close> have f1: "flags = 1" by (metis xor_self_eq xor.right_neutral xor.assoc)
    have "HasWitness tx" using wit by (simp add: HasWitness_def tx)
    have vin: "map bare vin = vin" using d by (auto simp: list_all_iff txin_ok_def bare_id map_idI)
    then have "map bare vin' = vin" using rd by simp
    then have "size_ok vin'" "list_all (\<lambda>i. size_ok (in_scriptSig i)) vin'"
      "Serialize_vector Serialize_CTxIn vin' = Serialize_vector Serialize_CTxIn vin"
      using d list_all_bare by (auto simp: size_ok_def)
    then have "tx_ok tx" using rd d by (simp add: tx_ok_def tx list_all_iff)
    moreover have "s = SerializeTransaction True tx @ t"
      using s s3 d rd f1 True \<open>Serialize_vector Serialize_CTxIn vin' = _\<close>
      unfolding SerializeTransaction_extended [OF \<open>HasWitness tx\<close>] by (simp add: tx)
    ultimately show ?thesis using True HasWitness_nonempty [OF \<open>HasWitness tx\<close>] by simp
  next
    case False
    then have "vin' = vin" "flags = 0" "s3 = s2" using wt f by (auto split: if_split_asm)
    moreover have "\<not> HasWitness tx"
      using d \<open>vin' = vin\<close> by (auto simp: HasWitness_def tx list_all_iff txin_ok_def)
    moreover have "tx_ok tx"
      using d \<open>vin' = vin\<close> by (auto simp: tx_ok_def tx list_all_iff txin_ok_def witness_ok_def size_ok_def)
    ultimately show ?thesis
      using s s3 d by (simp add: SerializeTransaction_basic tx)
  qed
qed

text \<open>
  C23. The network format of transactions is canonical: \<^verbatim>\<open>UnserializeTransaction\<close> accepts a byte
  stream as a transaction exactly when the stream starts with the bytes
  \<^verbatim>\<open>SerializeTransaction\<close> writes for that transaction, with or without witness data. So no two
  byte strings decode to the same transaction, and every transaction within the size limits
  round-trips, except that one with outputs but no inputs cannot be told from the extended format,
  and one with a witness cannot be read without witness support.
\<close>

theorem UnserializeTransaction_iff:
  "UnserializeTransaction w s = Inr (tx, t) \<longleftrightarrow>
   s = SerializeTransaction w tx @ t \<and> tx_ok tx \<and> (HasWitness tx \<longrightarrow> w) \<and>
   (w \<longrightarrow> tx_vin tx \<noteq> [] \<or> tx_vout tx = [])"
proof
  assume "s = SerializeTransaction w tx @ t \<and> tx_ok tx \<and> (HasWitness tx \<longrightarrow> w) \<and>
    (w \<longrightarrow> tx_vin tx \<noteq> [] \<or> tx_vout tx = [])"
  then show "UnserializeTransaction w s = Inr (tx, t)"
    using Unserialize_basic [of tx w t] Unserialize_extended [of tx t] by (cases "HasWitness tx") auto
qed (rule Unserialize_dec)

definition sample_tx :: CTransaction where
  "sample_tx = \<lparr>tx_nVersion = 2,
     tx_vin = [\<lparr>in_prevout = \<lparr>outpoint_hash = 5, outpoint_n = 1\<rparr>, in_scriptSig = [],
       in_nSequence = SEQUENCE_FINAL, in_scriptWitness = [[1, 2]]\<rparr>],
     tx_vout = [\<lparr>out_nValue = 7 * COIN, out_scriptPubKey = [OP_1]\<rparr>], tx_nLockTime = 0\<rparr>"

lemma tx_ok_sample: "tx_ok sample_tx" "HasWitness sample_tx" "tx_vin sample_tx \<noteq> []"
  by (simp_all add: sample_tx_def tx_ok_def witness_ok_def size_ok_def MAX_SIZE_def txout_ok_def
      int64_range_def int64_min_def int64_max_def COIN_def HasWitness_def)

theorem UnserializeTransaction_iff_witness:
  "UnserializeTransaction True (SerializeTransaction True sample_tx @ [7]) = Inr (sample_tx, [7])"
  using UnserializeTransaction_iff [of True "SerializeTransaction True sample_tx @ [7]" sample_tx "[7]"]
    tx_ok_sample by simp

section \<open>Transaction identifiers\<close>

definition strip :: "CTransaction \<Rightarrow> CTransaction" where
  "strip tx = tx\<lparr>tx_vin := map bare (tx_vin tx)\<rparr>"

lemma SerializeTransaction_strip: "SerializeTransaction False (strip tx) = SerializeTransaction False tx"
  by (simp add: SerializeTransaction_basic strip_def)

text \<open>
  C36. A transaction identifier commits to everything but the witnesses: for transactions within
  the size limits and a hash function without a collision between their two encodings, equal
  identifiers mean equal transactions up to witness data, and equal transactions up to witness
  data have equal identifiers. The witness hash commits to the witnesses too.
\<close>

theorem txid_commits:
  assumes "tx_ok tx" and "tx_ok tx'"
    and "\<And>w w'. H (SerializeTransaction w tx) = H (SerializeTransaction w' tx') \<Longrightarrow>
      SerializeTransaction w tx = SerializeTransaction w' tx'"
    and "tx_vin tx \<noteq> []" and "tx_vin tx' \<noteq> []"
  shows "(ComputeHash H tx = ComputeHash H tx' \<longleftrightarrow> strip tx = strip tx') \<and>
    (ComputeWitnessHash H tx = ComputeWitnessHash H tx' \<longleftrightarrow> tx = tx')"
proof -
  have ok: "tx_ok (strip tx)" "\<not> HasWitness (strip tx)" if "tx_ok tx" for tx
    using that by (auto simp: tx_ok_def strip_def HasWitness_def list_all_iff size_ok_def witness_ok_def)
  have "SerializeTransaction False tx = SerializeTransaction False tx' \<longleftrightarrow> strip tx = strip tx'"
  proof
    assume "SerializeTransaction False tx = SerializeTransaction False tx'"
    then show "strip tx = strip tx'"
      using Unserialize_basic [OF ok(1) [OF assms(1)] ok(2) [OF assms(1)], of False "[]"]
        Unserialize_basic [OF ok(1) [OF assms(2)] ok(2) [OF assms(2)], of False "[]"]
      by (simp add: SerializeTransaction_strip)
  next
    assume "strip tx = strip tx'"
    then show "SerializeTransaction False tx = SerializeTransaction False tx'"
      using SerializeTransaction_strip [of tx] SerializeTransaction_strip [of tx'] by simp
  qed
  then have "ComputeHash H tx = ComputeHash H tx' \<longleftrightarrow> strip tx = strip tx'"
    unfolding ComputeHash_def using assms(3) [of False False] by metis
  moreover have full: "ComputeWitnessHash H u = H (SerializeTransaction True u)" for u
    by (auto simp: ComputeWitnessHash_def ComputeHash_def SerializeTransaction_basic)
  have rt: "UnserializeTransaction True (SerializeTransaction True u @ []) = Inr (u, [])"
    if "tx_ok u" "tx_vin u \<noteq> []" for u
    using that Unserialize_basic [of u True "[]"] Unserialize_extended [of u "[]"]
    by (cases "HasWitness u") auto
  have "tx = tx'" if "SerializeTransaction True tx = SerializeTransaction True tx'"
    using rt [OF assms(1,4)] rt [OF assms(2,5)] unfolding that by simp
  then have "ComputeWitnessHash H tx = ComputeWitnessHash H tx' \<longleftrightarrow> tx = tx'"
    unfolding full using assms(3) [of True True] by metis
  ultimately show ?thesis by blast
qed

lemma length_ser_simps:
  "length (ser_writedata32 a) = 4" "length (ser_writedata8 b) = 1" "length (ser_uint256 c) = 32"
  "length (ser_int64 d) = 8" "length (Serialize_COutPoint e) = 36"
  by (simp_all add: ser_writedata32_def ser_writedata8_def ser_uint256_def ser_int64_def
      ser_writedata64_def Serialize_COutPoint_def)

theorem txid_commits_witness:
  "let H = (\<lambda>b. of_nat (length b) :: uint256);
       tx' = sample_tx\<lparr>tx_vin := [(hd (tx_vin sample_tx))\<lparr>in_scriptWitness := [[9]]\<rparr>]\<rparr>
   in ComputeHash H sample_tx = ComputeHash H tx' \<and> ComputeWitnessHash H sample_tx \<noteq> ComputeWitnessHash H tx'"
proof -
  let ?H = "\<lambda>b. of_nat (length b) :: uint256"
  let ?tx' = "sample_tx\<lparr>tx_vin := [(hd (tx_vin sample_tx))\<lparr>in_scriptWitness := [[9]]\<rparr>]\<rparr>"
  note lens = sample_tx_def SerializeTransaction_def Let_def HasWitness_def length_ser_simps
    Serialize_vector_def Serialize_CTxIn_def Serialize_CTxOut_def Serialize_bytes_def Serialize_witness_def
    length_WriteCompactSize GetSizeOfCompactSize_def
  have l: "length (SerializeTransaction False sample_tx) = 61" "length (SerializeTransaction False ?tx') = 61"
    "length (SerializeTransaction True sample_tx) = 67" "length (SerializeTransaction True ?tx') = 66"
    by (simp_all add: lens)
  have ok: "tx_ok ?tx'"
    by (simp add: sample_tx_def tx_ok_def witness_ok_def size_ok_def MAX_SIZE_def txout_ok_def
      int64_range_def int64_min_def int64_max_def COIN_def)
  have st: "strip sample_tx = strip ?tx'" "sample_tx \<noteq> ?tx'" by (simp_all add: sample_tx_def strip_def bare_def)
  then have eq: "SerializeTransaction False sample_tx = SerializeTransaction False ?tx'"
    using SerializeTransaction_strip [of sample_tx] SerializeTransaction_strip [of ?tx'] by simp
  have "SerializeTransaction w sample_tx = SerializeTransaction w' ?tx'"
    if "?H (SerializeTransaction w sample_tx) = ?H (SerializeTransaction w' ?tx')" for w w'
    using that eq l by (cases w; cases w') simp_all
  from txid_commits [OF tx_ok_sample(1) ok this] st show ?thesis
    by (simp add: tx_ok_sample(3))
qed

section \<open>Value of the outputs\<close>

lemma value_out_loop_ok:
  assumes "MoneyRange acc" and "list_all (\<lambda>v. MoneyRange (out_nValue v)) vout"
  shows "value_out_loop acc vout =
    (if acc + sum_list (map out_nValue vout) \<le> MAX_MONEY
     then Inr (acc + sum_list (map out_nValue vout)) else Inl ValueOutOfRange)"
  using assms
proof (induction vout arbitrary: acc)
  case Nil
  then show ?case by (simp add: MoneyRange_def)
next
  case (Cons v vout)
  have nn: "0 \<le> sum_list (map out_nValue vout)"
    using Cons.prems(2) by (intro sum_list_nonneg) (auto simp: list_all_iff MoneyRange_def)
  have "acc + out_nValue v \<le> int64_max" "int64_min \<le> acc + out_nValue v"
    using Cons.prems by (auto simp: MoneyRange_def MAX_MONEY_def COIN_def int64_max_def int64_min_def)
  moreover have "MoneyRange (acc + out_nValue v) \<longleftrightarrow> acc + out_nValue v \<le> MAX_MONEY"
    using Cons.prems by (auto simp: MoneyRange_def)
  ultimately show ?case
    using Cons.IH [of "acc + out_nValue v"] Cons.prems nn by (auto simp: Let_def algebra_simps)
qed

lemma value_out_loop_Inr:
  "value_out_loop acc vout = Inr amount \<Longrightarrow> MoneyRange acc \<Longrightarrow>
   amount = acc + sum_list (map out_nValue vout) \<and> MoneyRange amount \<and>
   list_all (\<lambda>v. MoneyRange (out_nValue v)) vout"
proof (induction vout arbitrary: acc)
  case (Cons v vout)
  then have rec: "value_out_loop (acc + out_nValue v) vout = Inr amount"
    and mr: "MoneyRange (acc + out_nValue v)" "MoneyRange (out_nValue v)"
    by (simp_all add: Let_def split: if_splits)
  note ih = Cons.IH [OF rec mr(1)]
  then have "amount = acc + (out_nValue v + sum_list (map out_nValue vout))" by linarith
  with ih mr(2) show ?case unfolding list.map sum_list.Cons list.pred_inject by blast
qed simp

text \<open>
  \<^verbatim>\<open>GetValueOut\<close> is the sum of the outputs: when every output is in the money range it
  returns the exact sum if that is in range and throws otherwise, and no 64-bit addition
  overflows; when it returns at all, every output and the total are in range.
\<close>

theorem GetValueOut_sum:
  "(GetValueOut tx = Inr amount \<longleftrightarrow>
      amount = sum_list (map out_nValue (tx_vout tx)) \<and> amount \<le> MAX_MONEY \<and>
      list_all (\<lambda>v. MoneyRange (out_nValue v)) (tx_vout tx)) \<and>
   (list_all (\<lambda>v. MoneyRange (out_nValue v)) (tx_vout tx) \<longrightarrow> GetValueOut tx \<noteq> Inl SignedOverflow)"
proof -
  have z: "MoneyRange 0" by (simp add: MoneyRange_def MAX_MONEY_def COIN_def)
  show ?thesis
  proof (cases "list_all (\<lambda>v. MoneyRange (out_nValue v)) (tx_vout tx)")
    case True
    show ?thesis
      unfolding GetValueOut_def value_out_loop_ok [OF z True] using True by auto
  next
    case False
    then have "GetValueOut tx \<noteq> Inr amount"
      using value_out_loop_Inr [OF _ z, of "tx_vout tx" amount] unfolding GetValueOut_def by blast
    with False show ?thesis by simp
  qed
qed

theorem GetValueOut_sum_witness: "GetValueOut sample_tx = Inr (7 * COIN)"
  using GetValueOut_sum [of sample_tx "7 * COIN"]
  by (simp add: sample_tx_def MoneyRange_def MAX_MONEY_def COIN_def)


section \<open>Weight\<close>

lemma GetTransactionWeight_no_witness:
  "\<not> HasWitness tx \<Longrightarrow> GetTransactionWeight tx = WITNESS_SCALE_FACTOR * GetTotalSize tx"
  by (simp add: GetTransactionWeight_def GetTotalSize_def SerializeTransaction_basic WITNESS_SCALE_FACTOR_def)

section \<open>Block headers\<close>

interpretation header: canonical_codec Serialize_CBlockHeader Unserialize_CBlockHeader
  "\<lambda>h. size_ok (hdr_vchBlockSigDlgt h)"
proof
  show "Unserialize_CBlockHeader (Serialize_CBlockHeader h @ s) = Inr (h, s)"
    if "size_ok (hdr_vchBlockSigDlgt h)" for h s
    using that
    by (simp add: Unserialize_CBlockHeader_def Serialize_CBlockHeader_def ser_header_fields_def
        ser32.dec_enc ser256.dec_enc outpoint.dec_enc bytes_codec.dec_enc)
  show "s = Serialize_CBlockHeader h @ t \<and> size_ok (hdr_vchBlockSigDlgt h)"
    if "Unserialize_CBlockHeader s = Inr (h, t)" for s h t
    using that unfolding Unserialize_CBlockHeader_def
    by (auto elim!: rbind_eq_InrE simp: Serialize_CBlockHeader_def ser_header_fields_def
        dest!: ser32.enc_dec ser256.enc_dec outpoint.enc_dec bytes_codec.enc_dec)
qed

text \<open>A transaction that the network format can carry.\<close>

definition tx_encodable :: "bool \<Rightarrow> CTransaction \<Rightarrow> bool" where
  "tx_encodable w tx \<longleftrightarrow> tx_ok tx \<and> (HasWitness tx \<longrightarrow> w) \<and> (w \<longrightarrow> tx_vin tx \<noteq> [] \<or> tx_vout tx = [])"

lemma transaction_codec: "canonical_codec (SerializeTransaction w) (UnserializeTransaction w) (tx_encodable w)"
proof
  show "UnserializeTransaction w (SerializeTransaction w x @ s) = Inr (x, s)" if "tx_encodable w x" for x s
    using that Unserialize_basic [of x w s] Unserialize_extended [of x s]
    by (cases "HasWitness x") (auto simp: tx_encodable_def)
  show "s = SerializeTransaction w x @ t \<and> tx_encodable w x"
    if "UnserializeTransaction w s = Inr (x, t)" for s x t
    using Unserialize_dec [OF that] by (simp add: tx_encodable_def)
qed

interpretation tx_w: canonical_codec "SerializeTransaction True" "UnserializeTransaction True" "tx_encodable True"
  by (rule transaction_codec)

interpretation tx_nw: canonical_codec "SerializeTransaction False" "UnserializeTransaction False" "tx_encodable False"
  by (rule transaction_codec)

text \<open>
  Blocks have one encoding: \<^verbatim>\<open>CBlock\<close> is deserialized from a stream, with witnesses, exactly
  when the stream starts with the serialization of that block.
\<close>

theorem Unserialize_CBlock_iff:
  "Unserialize_CBlock True s = Inr (b, t) \<longleftrightarrow>
   s = Serialize_CBlock True b @ t \<and> size_ok (hdr_vchBlockSigDlgt (blk_header b)) \<and>
   size_ok (blk_vtx b) \<and> list_all (tx_encodable True) (blk_vtx b)"
proof
  assume "Unserialize_CBlock True s = Inr (b, t)"
  then obtain h s1 vtx where "Unserialize_CBlockHeader s = Inr (h, s1)"
    and "Unserialize_vector (UnserializeTransaction True) s1 = Inr (vtx, t)"
    and "b = \<lparr>blk_header = h, blk_vtx = vtx\<rparr>"
    unfolding Unserialize_CBlock_def by (auto elim!: rbind_eq_InrE)
  with header.enc_dec [OF this(1)] tx_w.vector_enc_dec [OF this(2)]
  show "s = Serialize_CBlock True b @ t \<and> size_ok (hdr_vchBlockSigDlgt (blk_header b)) \<and>
   size_ok (blk_vtx b) \<and> list_all (tx_encodable True) (blk_vtx b)"
    by (simp add: Serialize_CBlock_def)
next
  assume "s = Serialize_CBlock True b @ t \<and> size_ok (hdr_vchBlockSigDlgt (blk_header b)) \<and>
   size_ok (blk_vtx b) \<and> list_all (tx_encodable True) (blk_vtx b)"
  then show "Unserialize_CBlock True s = Inr (b, t)"
    by (cases b) (simp add: Unserialize_CBlock_def Serialize_CBlock_def header.dec_enc tx_w.vector_dec_enc)
qed

text \<open>
  C38. Signing a block header does not change what is signed: setting a signature of 65 to 129
  bytes leaves the proof of delegation and the hash without signature as they were, and the
  signature can be read back.
\<close>

theorem SetBlockSignature_signed_hash:
  assumes "COMPACT_SIGNATURE_SIZE \<le> length sig" and "length sig < 2 * COMPACT_SIGNATURE_SIZE"
  shows "GetHashWithoutSign H (SetBlockSignature sig h) = GetHashWithoutSign H h \<and>
    GetBlockSignature (SetBlockSignature sig h) = sig \<and>
    GetProofOfDelegation (SetBlockSignature sig h) = GetProofOfDelegation h"
proof -
  have f: "ser_header_fields (h\<lparr>hdr_vchBlockSigDlgt := v\<rparr>) = ser_header_fields h" for v
    by (simp add: ser_header_fields_def)
  have l: "length (GetProofOfDelegation h) = COMPACT_SIGNATURE_SIZE" if "HasProofOfDelegation h"
    using that by (simp add: HasProofOfDelegation_def GetProofOfDelegation_def Let_def COMPACT_SIGNATURE_SIZE_def)
  show ?thesis
  proof (cases "HasProofOfDelegation h")
    case True
    then show ?thesis
      using assms(1) l
      by (simp add: SetBlockSignature_def GetHashWithoutSign_def Serialize_CBlockHeaderSign_def f
          HasProofOfDelegation_def GetBlockSignature_def Let_def) (simp add: GetProofOfDelegation_def Let_def)
  next
    case False
    then show ?thesis
      using assms(2)
      by (simp add: SetBlockSignature_def GetHashWithoutSign_def Serialize_CBlockHeaderSign_def f
          HasProofOfDelegation_def GetBlockSignature_def GetProofOfDelegation_def Let_def)
  qed
qed

theorem SetBlockSignature_signed_hash_witness:
  "let h = \<lparr>hdr_nVersion = 4, hdr_hashPrevBlock = 1, hdr_hashMerkleRoot = 2, hdr_nTime = 3, hdr_nBits = 4,
     hdr_nNonce = 0, hdr_hashStateRoot = 5, hdr_hashUTXORoot = 6,
     hdr_prevoutStake = \<lparr>outpoint_hash = 7, outpoint_n = 0\<rparr>, hdr_vchBlockSigDlgt = replicate 130 9\<rparr>;
     H = (\<lambda>b. of_nat (le_nat b)) in
   GetHashWithoutSign H (SetBlockSignature (replicate 71 8) h) = GetHashWithoutSign H h \<and>
   GetBlockSignature (SetBlockSignature (replicate 71 8) h) = replicate 71 8"
  unfolding Let_def by (subst SetBlockSignature_signed_hash; simp add: SetBlockSignature_signed_hash COMPACT_SIGNATURE_SIZE_def)

end
