(* ===== verification/Sighash.thy ===== *)
theory Sighash
  imports Interpreter Transaction
begin

text \<open>
  Signature hashes and the transaction signature checkers of
  \<^verbatim>\<open>src/script/interpreter.cpp\<close>: \<^verbatim>\<open>CTransactionSignatureSerializer\<close>,
  \<^verbatim>\<open>PrecomputedTransactionData\<close>, \<^verbatim>\<open>SignatureHash\<close>, \<^verbatim>\<open>SignatureHashOutput\<close>,
  \<^verbatim>\<open>CheckSig\<close>, \<^verbatim>\<open>CheckLockTime\<close> and \<^verbatim>\<open>CheckSequence\<close>. A hash type is a 32-bit
  word; \<open>H\<close> is the hash of a \<^verbatim>\<open>CHashWriter\<close>; \<open>Verify\<close> is \<^verbatim>\<open>CPubKey::Verify\<close>, a call
  into libsecp256k1. A failed \<^verbatim>\<open>assert\<close> is \<open>None\<close>.
\<close>

section \<open>Hash types\<close>

definition anyone_can_pay :: "uint32 \<Rightarrow> bool" where
  "anyone_can_pay nHashType \<longleftrightarrow> nHashType AND 0x80 \<noteq> 0"

definition hash_single :: "uint32 \<Rightarrow> bool" where
  "hash_single nHashType \<longleftrightarrow> nHashType AND 0x1f = 3"

definition hash_none :: "uint32 \<Rightarrow> bool" where
  "hash_none nHashType \<longleftrightarrow> nHashType AND 0x1f = 2"

section \<open>The legacy serializer\<close>

text \<open>The two loops of \<^verbatim>\<open>SerializeScriptCode\<close>; the iterator moves even when \<^verbatim>\<open>GetOp\<close> fails.\<close>

lemma GetScriptOp_shrinks: "GetScriptOp it = (True, opcode, v, it') \<Longrightarrow> length it' < length it"
  using GetOp_shrinks [of it opcode v it'] by (simp add: GetOp_def)

function count_separators :: "cscript \<Rightarrow> nat" where
  "count_separators it =
     (case GetScriptOp it of (ok, opcode, _, it') \<Rightarrow>
        if ok then (if opcode = OP_CODESEPARATOR then 1 else 0) + count_separators it' else 0)"
  by pat_completeness auto
termination
  by (relation "measure length") (auto dest: GetScriptOp_shrinks [OF sym])

function write_script_code :: "cscript \<Rightarrow> cscript \<Rightarrow> bytes" where
  "write_script_code itBegin it =
     (case GetScriptOp it of (ok, opcode, _, it') \<Rightarrow>
        if ok then
          (if opcode = OP_CODESEPARATOR
           then take (length itBegin - length it' - 1) itBegin @ write_script_code it' it'
           else write_script_code itBegin it')
        else if itBegin \<noteq> [] then take (length itBegin - length it') itBegin
        else [])"
  by pat_completeness auto
termination
  by (relation "measure (\<lambda>(_, it). length it)") (auto dest: GetScriptOp_shrinks [OF sym])

declare count_separators.simps [simp del] write_script_code.simps [simp del]

definition SerializeScriptCode :: "cscript \<Rightarrow> bytes" where
  "SerializeScriptCode scriptCode =
     WriteCompactSize (of_nat (length scriptCode - count_separators scriptCode)) @
     write_script_code scriptCode scriptCode"

definition SerializeInput ::
  "CTransaction \<Rightarrow> cscript \<Rightarrow> nat \<Rightarrow> uint32 \<Rightarrow> nat \<Rightarrow> bytes" where
  "SerializeInput txTo scriptCode nIn nHashType nInput =
     (let nInput = (if anyone_can_pay nHashType then nIn else nInput) in
      Serialize_COutPoint (in_prevout (tx_vin txTo ! nInput)) @
      (if nInput \<noteq> nIn then Serialize_bytes [] else SerializeScriptCode scriptCode) @
      (if nInput \<noteq> nIn \<and> (hash_single nHashType \<or> hash_none nHashType) then ser_writedata32 0
       else ser_writedata32 (in_nSequence (tx_vin txTo ! nInput))))"

definition SerializeOutput :: "CTransaction \<Rightarrow> nat \<Rightarrow> uint32 \<Rightarrow> nat \<Rightarrow> bytes" where
  "SerializeOutput txTo nIn nHashType nOutput =
     (if hash_single nHashType \<and> nOutput \<noteq> nIn then Serialize_CTxOut CTxOut_SetNull
      else Serialize_CTxOut (tx_vout txTo ! nOutput))"

definition SignatureSerializer :: "CTransaction \<Rightarrow> cscript \<Rightarrow> nat \<Rightarrow> uint32 \<Rightarrow> bytes" where
  "SignatureSerializer txTo scriptCode nIn nHashType =
     (let nInputs = (if anyone_can_pay nHashType then 1 else length (tx_vin txTo));
          nOutputs = (if hash_none nHashType then 0
                      else if hash_single nHashType then nIn + 1 else length (tx_vout txTo))
      in ser_writedata32 (tx_nVersion txTo) @
         WriteCompactSize (of_nat nInputs) @
         concat (map (SerializeInput txTo scriptCode nIn nHashType) [0 ..< nInputs]) @
         WriteCompactSize (of_nat nOutputs) @
         concat (map (SerializeOutput txTo nIn nHashType) [0 ..< nOutputs]) @
         ser_writedata32 (tx_nLockTime txTo))"

section \<open>Precomputed hashes\<close>

definition GetPrevoutHash :: "(bytes \<Rightarrow> uint256) \<Rightarrow> CTransaction \<Rightarrow> uint256" where
  "GetPrevoutHash H txTo = H (concat (map (\<lambda>i. Serialize_COutPoint (in_prevout i)) (tx_vin txTo)))"

definition GetSequenceHash :: "(bytes \<Rightarrow> uint256) \<Rightarrow> CTransaction \<Rightarrow> uint256" where
  "GetSequenceHash H txTo = H (concat (map (\<lambda>i. ser_writedata32 (in_nSequence i)) (tx_vin txTo)))"

definition GetFirstPrevoutHash :: "(bytes \<Rightarrow> uint256) \<Rightarrow> CTransaction \<Rightarrow> uint256" where
  "GetFirstPrevoutHash H txTo = H (Serialize_COutPoint (in_prevout (tx_vin txTo ! 0)))"

definition GetFirstSequenceHash :: "(bytes \<Rightarrow> uint256) \<Rightarrow> CTransaction \<Rightarrow> uint256" where
  "GetFirstSequenceHash H txTo = H (ser_writedata32 (in_nSequence (tx_vin txTo ! 0)))"

definition GetOutputsHash :: "(bytes \<Rightarrow> uint256) \<Rightarrow> CTransaction \<Rightarrow> uint256" where
  "GetOutputsHash H txTo = H (concat (map Serialize_CTxOut (tx_vout txTo)))"

definition GetOutputWithoutSenderSig :: "CTxOut \<Rightarrow> CTxOut" where
  "GetOutputWithoutSenderSig out =
     \<lparr>out_nValue = out_nValue out, out_scriptPubKey = WithoutSenderSig (out_scriptPubKey out)\<rparr>"

definition GetOutputsOpSenderHash :: "(bytes \<Rightarrow> uint256) \<Rightarrow> CTransaction \<Rightarrow> uint256" where
  "GetOutputsOpSenderHash H txTo =
     H (concat (map (\<lambda>txout.
          if HasOpSender (out_scriptPubKey txout) then Serialize_CTxOut (GetOutputWithoutSenderSig txout)
          else Serialize_CTxOut txout) (tx_vout txTo)))"

text \<open>The struct, and its constructor \<open>Precompute\<close>.\<close>

record PrecomputedTransactionData =
  pd_hashPrevouts :: uint256
  pd_hashSequence :: uint256
  pd_hashOutputs :: uint256
  pd_hashOutputsOpSender :: uint256
  pd_ready :: bool

definition Precompute ::
  "(bytes \<Rightarrow> uint256) \<Rightarrow> CTransaction \<Rightarrow> PrecomputedTransactionData" where
  "Precompute H txTo =
     (if HasWitness txTo \<or> hasOpSender txTo then
        \<lparr>pd_hashPrevouts = GetPrevoutHash H txTo, pd_hashSequence = GetSequenceHash H txTo,
         pd_hashOutputs = GetOutputsHash H txTo,
         pd_hashOutputsOpSender = (if hasOpSender txTo then GetOutputsOpSenderHash H txTo else 0),
         pd_ready = True\<rparr>
      else \<lparr>pd_hashPrevouts = 0, pd_hashSequence = 0, pd_hashOutputs = 0,
            pd_hashOutputsOpSender = 0, pd_ready = False\<rparr>)"

text \<open>\<open>cached cache sel h\<close> is the idiom \<^verbatim>\<open>cacheready ? cache->field : compute\<close>.\<close>

definition cached ::
  "PrecomputedTransactionData option \<Rightarrow> (PrecomputedTransactionData \<Rightarrow> uint256) \<Rightarrow> uint256 \<Rightarrow> uint256" where
  "cached cache sel h = (case cache of Some pd \<Rightarrow> if pd_ready pd then sel pd else h | None \<Rightarrow> h)"

section \<open>Signature hashes\<close>

definition SignatureHash_witness_v0 ::
  "(bytes \<Rightarrow> uint256) \<Rightarrow> cscript \<Rightarrow> CTransaction \<Rightarrow> nat \<Rightarrow> uint32 \<Rightarrow> CAmount \<Rightarrow>
   PrecomputedTransactionData option \<Rightarrow> uint256" where
  "SignatureHash_witness_v0 H scriptCode txTo nIn nHashType amount cache =
     (let hashPrevouts = (if \<not> anyone_can_pay nHashType
            then cached cache pd_hashPrevouts (GetPrevoutHash H txTo) else 0);
          hashSequence = (if \<not> anyone_can_pay nHashType \<and> \<not> hash_single nHashType \<and> \<not> hash_none nHashType
            then cached cache pd_hashSequence (GetSequenceHash H txTo) else 0);
          hashOutputs = (if \<not> hash_single nHashType \<and> \<not> hash_none nHashType
              then cached cache pd_hashOutputs (GetOutputsHash H txTo)
            else if hash_single nHashType \<and> nIn < length (tx_vout txTo)
              then H (Serialize_CTxOut (tx_vout txTo ! nIn)) else 0);
          txin = tx_vin txTo ! nIn
      in H (ser_writedata32 (tx_nVersion txTo) @ ser_uint256 hashPrevouts @ ser_uint256 hashSequence @
            Serialize_COutPoint (in_prevout txin) @ Serialize_bytes scriptCode @ ser_int64 amount @
            ser_writedata32 (in_nSequence txin) @ ser_uint256 hashOutputs @
            ser_writedata32 (tx_nLockTime txTo) @ ser_writedata32 nHashType))"

definition SignatureHash ::
  "(bytes \<Rightarrow> uint256) \<Rightarrow> cscript \<Rightarrow> CTransaction \<Rightarrow> nat \<Rightarrow> uint32 \<Rightarrow> CAmount \<Rightarrow> SigVersion \<Rightarrow>
   PrecomputedTransactionData option \<Rightarrow> uint256 option" where
  "SignatureHash H scriptCode txTo nIn nHashType amount sigversion cache =
     (if \<not> nIn < length (tx_vin txTo) then None
      else if sigversion = WITNESS_V0
        then Some (SignatureHash_witness_v0 H scriptCode txTo nIn nHashType amount cache)
      else if hash_single nHashType \<and> nIn \<ge> length (tx_vout txTo) then Some 1
      else Some (H (SignatureSerializer txTo scriptCode nIn nHashType @ ser_writedata32 nHashType)))"

definition SignatureHashOutput ::
  "(bytes \<Rightarrow> uint256) \<Rightarrow> cscript \<Rightarrow> CTransaction \<Rightarrow> nat \<Rightarrow> uint32 \<Rightarrow> CAmount \<Rightarrow>
   PrecomputedTransactionData option \<Rightarrow> uint256 option" where
  "SignatureHashOutput H scriptCode txTo nOut nHashType amount cache =
     (if \<not> nOut < length (tx_vout txTo) then None
      else if anyone_can_pay nHashType \<and> \<not> 0 < length (tx_vin txTo) then None
      else
        let hashPrevouts = (if anyone_can_pay nHashType then GetFirstPrevoutHash H txTo
              else cached cache pd_hashPrevouts (GetPrevoutHash H txTo));
            hashSequence = (if anyone_can_pay nHashType then GetFirstSequenceHash H txTo
              else if \<not> hash_single nHashType \<and> \<not> hash_none nHashType
                then cached cache pd_hashSequence (GetSequenceHash H txTo) else 0);
            hashOutputs = (if \<not> hash_single nHashType \<and> \<not> hash_none nHashType
                then cached cache pd_hashOutputsOpSender (GetOutputsOpSenderHash H txTo)
              else if hash_single nHashType \<and> nOut < length (tx_vout txTo)
                then H (Serialize_CTxOut (GetOutputWithoutSenderSig (tx_vout txTo ! nOut))) else 0)
        in Some (H (ser_writedata32 (tx_nVersion txTo) @ ser_uint256 hashPrevouts @
             ser_uint256 hashSequence @
             Serialize_CTxOut (GetOutputWithoutSenderSig (tx_vout txTo ! nOut)) @
             Serialize_bytes scriptCode @ ser_int64 amount @ ser_uint256 hashOutputs @
             ser_writedata32 (tx_nLockTime txTo) @ ser_writedata32 nHashType)))"

section \<open>Signature checkers\<close>

definition CPubKey_GetLen :: "byte \<Rightarrow> nat" where
  "CPubKey_GetLen chHeader =
     (if chHeader = 2 \<or> chHeader = 3 then COMPRESSED_PUBLIC_KEY_SIZE
      else if chHeader = 4 \<or> chHeader = 6 \<or> chHeader = 7 then PUBLIC_KEY_SIZE
      else 0)"

text \<open>\<^verbatim>\<open>CPubKey(vch).IsValid()\<close>.\<close>

definition CPubKey_IsValid :: "bytes \<Rightarrow> bool" where
  "CPubKey_IsValid vch =
     (let len = (if vch = [] then 0 else CPubKey_GetLen (vch ! 0)) in len \<noteq> 0 \<and> len = length vch)"

definition CheckSig ::
  "(bytes \<Rightarrow> uint256) \<Rightarrow> (bytes \<Rightarrow> uint256 \<Rightarrow> bytes \<Rightarrow> bool) \<Rightarrow> CTransaction \<Rightarrow> nat \<Rightarrow> CAmount \<Rightarrow>
   PrecomputedTransactionData option \<Rightarrow> valtype \<Rightarrow> valtype \<Rightarrow> cscript \<Rightarrow> SigVersion \<Rightarrow> bool option" where
  "CheckSig H Verify txTo nIn amount cache vchSigIn vchPubKey scriptCode sigversion =
     (if \<not> CPubKey_IsValid vchPubKey then Some False
      else if vchSigIn = [] then Some False
      else let nHashType = ucast (last vchSigIn); vchSig = butlast vchSigIn in
        map_option (\<lambda>sighash. Verify vchPubKey sighash vchSig)
          (SignatureHash H scriptCode txTo nIn nHashType amount sigversion cache))"

definition CheckSigOutput ::
  "(bytes \<Rightarrow> uint256) \<Rightarrow> (bytes \<Rightarrow> uint256 \<Rightarrow> bytes \<Rightarrow> bool) \<Rightarrow> CTransaction \<Rightarrow> nat \<Rightarrow> CAmount \<Rightarrow>
   PrecomputedTransactionData option \<Rightarrow> valtype \<Rightarrow> valtype \<Rightarrow> cscript \<Rightarrow> bool option" where
  "CheckSigOutput H Verify txTo nOut amount cache vchSigIn vchPubKey scriptCode =
     (if \<not> CPubKey_IsValid vchPubKey then Some False
      else if vchSigIn = [] then Some False
      else let nHashType = ucast (last vchSigIn); vchSig = butlast vchSigIn in
        map_option (\<lambda>sighash. Verify vchPubKey sighash vchSig)
          (SignatureHashOutput H scriptCode txTo nOut nHashType amount cache))"

definition CheckLockTime :: "CTransaction \<Rightarrow> nat \<Rightarrow> int \<Rightarrow> bool" where
  "CheckLockTime txTo nIn nLockTime =
     (let txLockTime = int (unat (tx_nLockTime txTo)) in
      if \<not> ((txLockTime < LOCKTIME_THRESHOLD \<and> nLockTime < LOCKTIME_THRESHOLD) \<or>
            (txLockTime \<ge> LOCKTIME_THRESHOLD \<and> nLockTime \<ge> LOCKTIME_THRESHOLD)) then False
      else if nLockTime > txLockTime then False
      else if SEQUENCE_FINAL = in_nSequence (tx_vin txTo ! nIn) then False
      else True)"

definition SEQUENCE_LOCKTIME_TYPE_FLAG :: int where "SEQUENCE_LOCKTIME_TYPE_FLAG = 2 ^ 22"
definition SEQUENCE_LOCKTIME_MASK :: int where "SEQUENCE_LOCKTIME_MASK = 0xffff"

definition CheckSequence :: "CTransaction \<Rightarrow> nat \<Rightarrow> int \<Rightarrow> bool" where
  "CheckSequence txTo nIn nSequence =
     (let txToSequence = int (unat (in_nSequence (tx_vin txTo ! nIn))) in
      if unat (tx_nVersion txTo) < 2 then False
      else if txToSequence AND SEQUENCE_LOCKTIME_DISABLE_FLAG \<noteq> 0 then False
      else
        let nLockTimeMask = SEQUENCE_LOCKTIME_TYPE_FLAG OR SEQUENCE_LOCKTIME_MASK;
            txToSequenceMasked = txToSequence AND nLockTimeMask;
            nSequenceMasked = nSequence AND nLockTimeMask
        in
          if \<not> ((txToSequenceMasked < SEQUENCE_LOCKTIME_TYPE_FLAG \<and>
                  nSequenceMasked < SEQUENCE_LOCKTIME_TYPE_FLAG) \<or>
                (txToSequenceMasked \<ge> SEQUENCE_LOCKTIME_TYPE_FLAG \<and>
                  nSequenceMasked \<ge> SEQUENCE_LOCKTIME_TYPE_FLAG)) then False
          else if nSequenceMasked > txToSequenceMasked then False
          else True)"

text \<open>\<^verbatim>\<open>GenericTransactionSignatureChecker\<close> as a checker of the interpreter.\<close>

definition TransactionSignatureChecker ::
  "(bytes \<Rightarrow> uint256) \<Rightarrow> (bytes \<Rightarrow> uint256 \<Rightarrow> bytes \<Rightarrow> bool) \<Rightarrow> CTransaction \<Rightarrow> nat \<Rightarrow> CAmount \<Rightarrow>
   PrecomputedTransactionData option \<Rightarrow> checker" where
  "TransactionSignatureChecker H Verify txTo nIn amount cache =
     \<lparr>chk_CheckSig = (\<lambda>vchSig vchPubKey scriptCode sigversion.
        CheckSig H Verify txTo nIn amount cache vchSig vchPubKey scriptCode sigversion = Some True),
      chk_CheckLockTime = CheckLockTime txTo nIn,
      chk_CheckSequence = CheckSequence txTo nIn\<rparr>"

text \<open>\<^verbatim>\<open>GenericTransactionSignatureOutputChecker\<close>: the lock times keep the base class's answer.\<close>

definition TransactionSignatureOutputChecker ::
  "(bytes \<Rightarrow> uint256) \<Rightarrow> (bytes \<Rightarrow> uint256 \<Rightarrow> bytes \<Rightarrow> bool) \<Rightarrow> CTransaction \<Rightarrow> nat \<Rightarrow> CAmount \<Rightarrow>
   PrecomputedTransactionData option \<Rightarrow> checker" where
  "TransactionSignatureOutputChecker H Verify txTo nOut amount cache =
     BaseSignatureChecker\<lparr>chk_CheckSig := (\<lambda>vchSig vchPubKey scriptCode sigversion.
        CheckSigOutput H Verify txTo nOut amount cache vchSig vchPubKey scriptCode = Some True)\<rparr>"

section \<open>The legacy serializer signs a modified copy of the transaction\<close>

lemma GetScriptOp_instr: "instr i \<Longrightarrow> GetScriptOp (iraw i @ r) = (True, iop i, idata i, r)"
  using GetOp_instr [of i r] by (auto simp: GetOp_def split: prod.splits bool.splits)

lemma GetScriptOp_Nil [simp]: "GetScriptOp [] = (False, OP_INVALIDOPCODE, [], [])"
  by (simp add: GetScriptOp_def)

lemma instr_separator:
  assumes "instr i" "iop i = OP_CODESEPARATOR"
  shows "length (iraw i) = 1"
proof -
  obtain b r where br: "iraw i = b # r" using instr_nonempty [OF assms(1)] by (cases "iraw i") auto
  have g: "GetScriptOp (b # r) = (True, OP_CODESEPARATOR, idata i, [])"
    using GetScriptOp_instr [OF assms(1), of "[]"] br assms(2) by simp
  then have "b = OP_CODESEPARATOR"
    by (auto simp: GetScriptOp_def split: if_splits sum.splits prod.splits)
  moreover have "\<not> OP_CODESEPARATOR \<le> OP_PUSHDATA4" by code_simp
  ultimately have "\<not> b \<le> OP_PUSHDATA4" by simp
  with g br show ?thesis by (simp add: GetScriptOp_def)
qed

definition no_separators :: "instruction list \<Rightarrow> instruction list" where
  "no_separators ins = filter (\<lambda>i. iop i \<noteq> OP_CODESEPARATOR) ins"

lemma count_separators_asm:
  "list_all instr ins \<Longrightarrow> length (asm ins) = length (asm (no_separators ins)) + count_separators (asm ins)"
  by (induction ins)
    (simp_all add: count_separators.simps [of "[]"] no_separators_def
      count_separators.simps [of "iraw _ @ _"] GetScriptOp_instr instr_separator)

lemma write_script_code_asm:
  "list_all instr ins \<Longrightarrow>
    write_script_code (asm d @ asm ins) (asm ins) = asm d @ asm (no_separators ins)"
proof (induction ins arbitrary: d)
  case Nil
  then show ?case by (simp add: write_script_code.simps [of _ "[]"] no_separators_def)
next
  case (Cons i ins)
  have g: "GetScriptOp (iraw i @ asm ins) = (True, iop i, idata i, asm ins)"
    using Cons.prems by (simp add: GetScriptOp_instr)
  have tl: "list_all instr ins" using Cons.prems by simp
  show ?case
  proof (cases "iop i = OP_CODESEPARATOR")
    case True
    then have "length (iraw i) = 1" using Cons.prems instr_separator by simp
    with True show ?thesis
      using Cons.IH [OF tl, of "[]"]
      by (simp add: write_script_code.simps [of _ "iraw i @ _"] g no_separators_def)
  next
    case False
    then show ?thesis
      using Cons.IH [OF tl, of "d @ [i]"]
      by (simp add: write_script_code.simps [of _ "iraw i @ _"] g no_separators_def)
  qed
qed

lemma SerializeScriptCode_asm:
  "list_all instr ins \<Longrightarrow> SerializeScriptCode (asm ins) = Serialize_bytes (asm (no_separators ins))"
  using count_separators_asm [of ins] write_script_code_asm [of ins "[]"]
  by (simp add: SerializeScriptCode_def Serialize_bytes_def)

text \<open>The copy of the transaction that a legacy signature covers.\<close>

definition sighash_input :: "CTransaction \<Rightarrow> cscript \<Rightarrow> nat \<Rightarrow> uint32 \<Rightarrow> nat \<Rightarrow> CTxIn" where
  "sighash_input tx code nIn ht k =
     \<lparr>in_prevout = in_prevout (tx_vin tx ! k),
      in_scriptSig = (if k = nIn then code else []),
      in_nSequence = (if k \<noteq> nIn \<and> (hash_single ht \<or> hash_none ht) then 0
                      else in_nSequence (tx_vin tx ! k)),
      in_scriptWitness = []\<rparr>"

definition sighash_tx :: "CTransaction \<Rightarrow> cscript \<Rightarrow> nat \<Rightarrow> uint32 \<Rightarrow> CTransaction" where
  "sighash_tx tx code nIn ht =
     tx\<lparr>tx_vin := map (sighash_input tx code nIn ht)
            (if anyone_can_pay ht then [nIn] else [0 ..< length (tx_vin tx)]),
        tx_vout := (if hash_none ht then []
          else if hash_single ht then replicate nIn CTxOut_SetNull @ [tx_vout tx ! nIn]
          else tx_vout tx)\<rparr>"

lemma SerializeInput_sighash:
  assumes "list_all instr ins"
  shows "SerializeInput tx (asm ins) nIn ht k =
    Serialize_CTxIn (sighash_input tx (asm (no_separators ins)) nIn ht (if anyone_can_pay ht then nIn else k))"
  by (simp add: SerializeInput_def sighash_input_def Serialize_CTxIn_def Let_def
      SerializeScriptCode_asm [OF assms])

lemma map_replicate_upt: "(\<And>i. i < n \<Longrightarrow> f i = c) \<Longrightarrow> map f [0 ..< n] = replicate n c"
  by (induction n) (simp_all flip: replicate_append_same)

lemma SerializeOutput_sighash:
  "map (SerializeOutput tx nIn ht) [0 ..< (if hash_none ht then 0
      else if hash_single ht then nIn + 1 else length (tx_vout tx))] =
   map Serialize_CTxOut (tx_vout (sighash_tx tx code nIn ht))"
proof -
  have "map (SerializeOutput tx nIn ht) [0 ..< nIn] = replicate nIn (Serialize_CTxOut CTxOut_SetNull)"
    if "hash_single ht"
    using that by (intro map_replicate_upt) (simp add: SerializeOutput_def)
  moreover have "map (SerializeOutput tx nIn ht) [0 ..< length (tx_vout tx)] =
      map Serialize_CTxOut (tx_vout tx)" if "\<not> hash_single ht"
    using that by (auto simp: SerializeOutput_def intro: nth_equalityI)
  ultimately show ?thesis
    by (simp add: sighash_tx_def) (simp add: SerializeOutput_def)
qed

text \<open>
  C24. The in-place legacy serializer is the ordinary transaction serializer run on a
  modified copy: for a script code that decodes completely, the bytes that a legacy
  signature covers are the network encoding without witnesses of the transaction in which
  the signed input carries the script code without its \<^verbatim>\<open>OP_CODESEPARATOR\<close>s, the other
  scripts are blank, and the hash type has dropped inputs, outputs and sequence numbers.
\<close>

theorem SignatureSerializer_reference:
  assumes "list_all instr ins"
  shows "SignatureSerializer tx (asm ins) nIn ht =
    SerializeTransaction False (sighash_tx tx (asm (no_separators ins)) nIn ht)"
proof -
  let ?code = "asm (no_separators ins)"
  have out: "length (tx_vout (sighash_tx tx ?code nIn ht)) =
      (if hash_none ht then 0 else if hash_single ht then nIn + 1 else length (tx_vout tx))"
    by (simp add: sighash_tx_def)
  have ins: "map (SerializeInput tx (asm ins) nIn ht)
        [0 ..< (if anyone_can_pay ht then 1 else length (tx_vin tx))] =
      map Serialize_CTxIn (tx_vin (sighash_tx tx ?code nIn ht))"
    by (simp add: sighash_tx_def SerializeInput_sighash [OF assms])
  have n: "(if anyone_can_pay ht then 1 else length (tx_vin tx)) =
      length (tx_vin (sighash_tx tx ?code nIn ht))"
    by (simp add: sighash_tx_def)
  have "tx_nVersion (sighash_tx tx ?code nIn ht) = tx_nVersion tx"
    "tx_nLockTime (sighash_tx tx ?code nIn ht) = tx_nLockTime tx"
    by (simp_all add: sighash_tx_def)
  then show ?thesis
    unfolding SignatureSerializer_def SerializeTransaction_def Serialize_vector_def Let_def
    unfolding ins SerializeOutput_sighash [of tx nIn ht ?code] unfolding n out by simp
qed

theorem SignatureSerializer_reference_witness:
  "SignatureSerializer sample_tx [OP_DUP, OP_CODESEPARATOR, OP_CHECKSIG] 0 1 =
   SerializeTransaction False (sighash_tx sample_tx [OP_DUP, OP_CHECKSIG] 0 1)"
proof -
  let ?ins = "[(OP_DUP, [], [OP_DUP]), (OP_CODESEPARATOR, [], [OP_CODESEPARATOR]),
    (OP_CHECKSIG, [], [OP_CHECKSIG])]"
  have "\<not> OP_DUP \<le> OP_PUSHDATA4" "\<not> OP_CODESEPARATOR \<le> OP_PUSHDATA4" "\<not> OP_CHECKSIG \<le> OP_PUSHDATA4"
    "OP_DUP \<noteq> OP_CODESEPARATOR" "OP_CHECKSIG \<noteq> OP_CODESEPARATOR"
    by code_simp+
  then have "list_all instr ?ins" "no_separators ?ins = [(OP_DUP, [], [OP_DUP]), (OP_CHECKSIG, [], [OP_CHECKSIG])]"
    by (simp_all add: instr_def GetOp_def GetScriptOp_def no_separators_def)
  then show ?thesis
    using SignatureSerializer_reference [of ?ins sample_tx 0 1] by simp
qed

section \<open>What a signature does not cover, and the cache\<close>

definition strip_sigs :: "CTransaction \<Rightarrow> CTransaction" where
  "strip_sigs tx = tx\<lparr>tx_vin := map (\<lambda>i. i\<lparr>in_scriptSig := [], in_scriptWitness := []\<rparr>) (tx_vin tx)\<rparr>"

lemma strip_sigs_simps [simp]:
  "tx_nVersion (strip_sigs tx) = tx_nVersion tx" "tx_vout (strip_sigs tx) = tx_vout tx"
  "tx_nLockTime (strip_sigs tx) = tx_nLockTime tx" "length (tx_vin (strip_sigs tx)) = length (tx_vin tx)"
  by (simp_all add: strip_sigs_def)

lemma strip_sigs_nth:
  assumes "k < length (tx_vin tx)"
  shows "in_prevout (tx_vin (strip_sigs tx) ! k) = in_prevout (tx_vin tx ! k)"
    and "in_nSequence (tx_vin (strip_sigs tx) ! k) = in_nSequence (tx_vin tx ! k)"
  using assms by (simp_all add: strip_sigs_def)

lemma strip_sigs_hashes [simp]:
  "GetPrevoutHash H (strip_sigs tx) = GetPrevoutHash H tx"
  "GetSequenceHash H (strip_sigs tx) = GetSequenceHash H tx"
  "GetOutputsHash H (strip_sigs tx) = GetOutputsHash H tx"
  by (simp_all add: GetPrevoutHash_def GetSequenceHash_def GetOutputsHash_def strip_sigs_def comp_def)

lemma SerializeInput_strip:
  assumes "nIn < length (tx_vin tx)" "k < length (tx_vin tx)"
  shows "SerializeInput (strip_sigs tx) code nIn ht k = SerializeInput tx code nIn ht k"
  using assms by (simp add: SerializeInput_def strip_sigs_nth Let_def)

lemma SerializeOutput_strip: "SerializeOutput (strip_sigs tx) = SerializeOutput tx"
  by (intro ext) (simp add: SerializeOutput_def)

lemma SignatureSerializer_strip:
  assumes "nIn < length (tx_vin tx)"
  shows "SignatureSerializer (strip_sigs tx) code nIn ht = SignatureSerializer tx code nIn ht"
proof -
  have "map (SerializeInput (strip_sigs tx) code nIn ht) [0 ..< (if anyone_can_pay ht then 1 else length (tx_vin tx))] =
      map (SerializeInput tx code nIn ht) [0 ..< (if anyone_can_pay ht then 1 else length (tx_vin tx))]"
    using assms by (intro map_cong refl SerializeInput_strip) (auto split: if_splits)
  then show ?thesis
    unfolding SignatureSerializer_def Let_def SerializeOutput_strip strip_sigs_simps by (simp only:)
qed

text \<open>
  C37. A signature hash does not depend on any \<^verbatim>\<open>scriptSig\<close> or witness of the transaction,
  in either signature version: erasing them all keeps the hash, so inputs can be signed in
  any order.
\<close>

theorem SignatureHash_strip_sigs:
  "SignatureHash H code (strip_sigs tx) nIn ht amount sv None =
   SignatureHash H code tx nIn ht amount sv None"
  by (simp add: SignatureHash_def SignatureSerializer_strip SignatureHash_witness_v0_def cached_def
      strip_sigs_nth Let_def)

text \<open>
  C25. The cache of intermediate hashes is transparent: with the data precomputed for the
  transaction, \<^verbatim>\<open>SignatureHash\<close> returns what it returns without a cache, and so does
  \<^verbatim>\<open>SignatureHashOutput\<close> on a transaction that has an \<^verbatim>\<open>OP_SENDER\<close> output.
\<close>

theorem PrecomputedTransactionData_transparent:
  "SignatureHash H code tx nIn ht amount sv (Some (Precompute H tx)) =
     SignatureHash H code tx nIn ht amount sv None \<and>
   (hasOpSender tx \<longrightarrow>
     SignatureHashOutput H code tx nOut ht amount (Some (Precompute H tx)) =
     SignatureHashOutput H code tx nOut ht amount None)"
  by (simp add: SignatureHash_def SignatureHash_witness_v0_def SignatureHashOutput_def
      cached_def Precompute_def)

theorem PrecomputedTransactionData_transparent_witness:
  "let tx = sample_tx\<lparr>tx_vout := [\<lparr>out_nValue = 0, out_scriptPubKey = [OP_SENDER]\<rparr>]\<rparr> in
   SignatureHashOutput (\<lambda>s. of_nat (length s)) [] tx 0 1 0
     (Some (Precompute (\<lambda>s. of_nat (length s)) tx)) =
   SignatureHashOutput (\<lambda>s. of_nat (length s)) [] tx 0 1 0 None"
proof -
  let ?tx = "sample_tx\<lparr>tx_vout := [\<lparr>out_nValue = 0, out_scriptPubKey = [OP_SENDER]\<rparr>]\<rparr>"
  have "HasOpSender [OP_SENDER]" by code_simp
  then have "hasOpSender ?tx" by (simp add: hasOpSender_def)
  then show ?thesis
    unfolding Let_def
    using PrecomputedTransactionData_transparent [of "\<lambda>s. of_nat (length s)" "[]" ?tx 0 1 0 BASE 0]
    by blast
qed

end
