(* ===== verification/Standard.thy ===== *)
theory Standard
  imports Sighash
begin

text \<open>
  Standard scripts (\<^verbatim>\<open>src/script/standard.h\<close>, \<^verbatim>\<open>src/script/standard.cpp\<close>): the template
  matcher \<^verbatim>\<open>Solver\<close> with its consensus and mempool rules for contract outputs, destinations
  and the scripts that pay to them, and the sender of a contract output. The fields of a
  contract version are those of \<^verbatim>\<open>src/qtum/qtumtransaction.h\<close>. A \<^verbatim>\<open>uint160\<close> or \<^verbatim>\<open>uint256\<close> that a
  destination holds is its array of bytes; the hash functions are arguments.
\<close>

unbundle bit_operations_syntax

section \<open>Output types and destinations\<close>

datatype txnouttype =
    TX_NONSTANDARD | TX_PUBKEY | TX_PUBKEYHASH | TX_SCRIPTHASH | TX_MULTISIG | TX_NULL_DATA
  | TX_WITNESS_V0_SCRIPTHASH | TX_WITNESS_V0_KEYHASH | TX_WITNESS_UNKNOWN | TX_COINSTAKE_CALL
  | TX_CREATE_SENDER | TX_CALL_SENDER | TX_CREATE | TX_CALL

fun GetTxnOutputType :: "txnouttype \<Rightarrow> string" where
  "GetTxnOutputType TX_NONSTANDARD = ''nonstandard''"
| "GetTxnOutputType TX_PUBKEY = ''pubkey''"
| "GetTxnOutputType TX_PUBKEYHASH = ''pubkeyhash''"
| "GetTxnOutputType TX_SCRIPTHASH = ''scripthash''"
| "GetTxnOutputType TX_MULTISIG = ''multisig''"
| "GetTxnOutputType TX_NULL_DATA = ''nulldata''"
| "GetTxnOutputType TX_WITNESS_V0_KEYHASH = ''witness_v0_keyhash''"
| "GetTxnOutputType TX_WITNESS_V0_SCRIPTHASH = ''witness_v0_scripthash''"
| "GetTxnOutputType TX_WITNESS_UNKNOWN = ''witness_unknown''"
| "GetTxnOutputType TX_CREATE_SENDER = ''create_sender''"
| "GetTxnOutputType TX_CALL_SENDER = ''call_sender''"
| "GetTxnOutputType TX_CREATE = ''create''"
| "GetTxnOutputType TX_CALL = ''call''"
| "GetTxnOutputType TX_COINSTAKE_CALL = ''coinstake_call''"

datatype CTxDestination =
    CNoDestination
  | CKeyID bytes
  | CScriptID bytes
  | WitnessV0ScriptHash bytes
  | WitnessV0KeyHash bytes
  | WitnessUnknown nat bytes

definition IsValidDestination :: "CTxDestination \<Rightarrow> bool" where
  "IsValidDestination dest \<longleftrightarrow> dest \<noteq> CNoDestination"

definition IsValidContractSenderAddress :: "CTxDestination \<Rightarrow> bool" where
  "IsValidContractSenderAddress dest \<longleftrightarrow> (case dest of CKeyID _ \<Rightarrow> True | _ \<Rightarrow> False)"

fun DataVisitor :: "CTxDestination \<Rightarrow> valtype" where
  "DataVisitor CNoDestination = []"
| "DataVisitor (CKeyID keyID) = keyID"
| "DataVisitor (CScriptID scriptID) = scriptID"
| "DataVisitor (WitnessV0ScriptHash witnessScriptHash) = witnessScriptHash"
| "DataVisitor (WitnessV0KeyHash witnessKeyHash) = witnessKeyHash"
| "DataVisitor (WitnessUnknown _ _) = []"

text \<open>
  The visitor of \<^verbatim>\<open>GetScriptForDestination\<close>; the assertion of \<^verbatim>\<open>EncodeOP_N\<close> on an unknown
  witness version is \<open>None\<close>.
\<close>

fun GetScriptForDestination :: "CTxDestination \<Rightarrow> cscript option" where
  "GetScriptForDestination CNoDestination = Some []"
| "GetScriptForDestination (CKeyID keyID) =
     Some ([OP_DUP, OP_HASH160] @ push_data keyID @ [OP_EQUALVERIFY, OP_CHECKSIG])"
| "GetScriptForDestination (CScriptID scriptID) = Some ([OP_HASH160] @ push_data scriptID @ [OP_EQUAL])"
| "GetScriptForDestination (WitnessV0KeyHash h) = Some ([OP_0] @ push_data h)"
| "GetScriptForDestination (WitnessV0ScriptHash h) = Some ([OP_0] @ push_data h)"
| "GetScriptForDestination (WitnessUnknown version prog) =
     map_option (\<lambda>opc. [opc] @ push_data prog) (EncodeOP_N version)"

definition GetScriptForRawPubKey :: "bytes \<Rightarrow> cscript" where
  "GetScriptForRawPubKey pubKey = push_data pubKey @ [OP_CHECKSIG]"

definition GetScriptForMultisig :: "nat \<Rightarrow> bytes list \<Rightarrow> cscript option" where
  "GetScriptForMultisig nRequired keys =
     (case (EncodeOP_N nRequired, EncodeOP_N (length keys)) of
        (Some m, Some n) \<Rightarrow> Some ([m] @ concat (map push_data keys) @ [n] @ [OP_CHECKMULTISIG])
      | _ \<Rightarrow> None)"

section \<open>Contract versions\<close>

record VersionVM =
  ver_format :: nat
  ver_rootVM :: nat
  ver_vmVersion :: nat
  ver_flagOptions :: nat

definition VersionVM_toRaw :: "VersionVM \<Rightarrow> uint32" where
  "VersionVM_toRaw v =
     of_nat (ver_format v + 4 * ver_rootVM v + 256 * ver_vmVersion v + 65536 * ver_flagOptions v)"

definition VersionVM_fromRaw :: "uint32 \<Rightarrow> VersionVM" where
  "VersionVM_fromRaw val =
     (let r = unat val in
      \<lparr>ver_format = r mod 4, ver_rootVM = r div 4 mod 64, ver_vmVersion = r div 256 mod 256,
       ver_flagOptions = r div 65536 mod 65536\<rparr>)"

definition GetNoExec :: VersionVM where
  "GetNoExec = \<lparr>ver_format = 0, ver_rootVM = 0, ver_vmVersion = 0, ver_flagOptions = 0\<rparr>"

definition GetEVMDefault :: VersionVM where
  "GetEVMDefault = \<lparr>ver_format = 0, ver_rootVM = 1, ver_vmVersion = 0, ver_flagOptions = 0\<rparr>"

section \<open>The template matcher\<close>

definition STANDARD_MINIMUM_GAS_LIMIT :: uint64 where "STANDARD_MINIMUM_GAS_LIMIT = 10000"
definition MAX_BLOCK_GAS_LIMIT_DGP :: uint64 where "MAX_BLOCK_GAS_LIMIT_DGP = 1000000000"
definition DEFAULT_BLOCK_GAS_LIMIT_DGP :: uint64 where "DEFAULT_BLOCK_GAS_LIMIT_DGP = 40000000"
definition MAX_BASE_SCRIPT_SIZE :: nat where "MAX_BASE_SCRIPT_SIZE = 10000"

text \<open>The multimap of templates, in the order of its keys.\<close>

definition mTemplates :: "(txnouttype \<times> cscript) list" where
  "mTemplates =
    [(TX_PUBKEY, [OP_PUBKEY, OP_CHECKSIG]),
     (TX_PUBKEYHASH, [OP_DUP, OP_HASH160, OP_PUBKEYHASH, OP_EQUALVERIFY, OP_CHECKSIG]),
     (TX_MULTISIG, [OP_SMALLINTEGER, OP_PUBKEYS, OP_SMALLINTEGER, OP_CHECKMULTISIG]),
     (TX_COINSTAKE_CALL, [OP_VERSION, OP_DATA, OP_PUBKEYHASH, OP_COINSTAKE_CALL]),
     (TX_CREATE_SENDER,
       [OP_ADDRESS_TYPE, OP_ADDRESS, OP_SCRIPT_SIG, OP_SENDER, OP_VERSION, OP_GAS_LIMIT, OP_DATA, OP_CREATE]),
     (TX_CALL_SENDER,
       [OP_ADDRESS_TYPE, OP_ADDRESS, OP_SCRIPT_SIG, OP_SENDER, OP_VERSION, OP_GAS_LIMIT, OP_DATA, OP_PUBKEYHASH, OP_CALL]),
     (TX_CREATE, [OP_VERSION, OP_GAS_LIMIT, OP_DATA, OP_CREATE]),
     (TX_CALL, [OP_VERSION, OP_GAS_LIMIT, OP_DATA, OP_PUBKEYHASH, OP_CALL])]"

text \<open>
  The variables of one template: the solutions, \<^verbatim>\<open>addressType\<close> and \<^verbatim>\<open>version.rootVM\<close>. A step
  breaks out of the template, returns from \<^verbatim>\<open>Solver\<close>, or goes on.
\<close>

record match_state =
  ms_solutions :: "valtype list"
  ms_addressType :: uint64
  ms_rootVM :: nat

datatype match_step = Break_template | Return_type txnouttype "valtype list" | Go_on match_state

function pubkeys_loop ::
  "opcodetype \<Rightarrow> valtype \<Rightarrow> cscript \<Rightarrow> valtype list \<Rightarrow> opcodetype \<times> valtype \<times> cscript \<times> valtype list" where
  "pubkeys_loop opcode1 vch1 pc1 sols =
     (if length vch1 \<ge> 33 \<and> length vch1 \<le> 65 then
        (case GetOp pc1 of
           None \<Rightarrow> (OP_INVALIDOPCODE, [], snd (snd (snd (GetScriptOp pc1))), sols @ [vch1])
         | Some (opcode, vch, pc) \<Rightarrow> pubkeys_loop opcode vch pc (sols @ [vch1]))
      else (opcode1, vch1, pc1, sols))"
  by pat_completeness auto
termination
  by (relation "measure (\<lambda>(_, _, pc, _). length pc)") (auto dest: GetOp_shrinks)

declare pubkeys_loop.simps [simp del]

definition gas_limit_ok :: "bool \<Rightarrow> nat \<Rightarrow> uint64 \<Rightarrow> bool" where
  "gas_limit_ok contractConsensus rootVM val =
     (if contractConsensus then
        if rootVM \<noteq> 0 \<and> val < 1 then False
        else if val > MAX_BLOCK_GAS_LIMIT_DGP then False
        else True
      else
        if rootVM \<noteq> 0 \<and> val < STANDARD_MINIMUM_GAS_LIMIT then False
        else if val > DEFAULT_BLOCK_GAS_LIMIT_DGP div 2 then False
        else True)"

definition match_op ::
  "bool \<Rightarrow> bool \<Rightarrow> opcodetype \<Rightarrow> valtype \<Rightarrow> opcodetype \<Rightarrow> valtype \<Rightarrow> match_state \<Rightarrow> match_step" where
  "match_op contractConsensus allowEmptySenderSig opcode1 vch1 opcode2 vch2 st =
     (let sols = ms_solutions st;
          found = (\<lambda>v. Go_on (st\<lparr>ms_solutions := sols @ [v]\<rparr>)) in
      if opcode2 = OP_PUBKEY then
        if length vch1 < 33 \<or> length vch1 > 65 then Break_template else found vch1
      else if opcode2 = OP_PUBKEYHASH then
        if length vch1 \<noteq> 20 then Break_template else found vch1
      else if opcode2 = OP_SMALLINTEGER then
        if opcode1 = OP_0 \<or> (opcode1 \<ge> OP_1 \<and> opcode1 \<le> OP_16) then
          found [of_nat (the (DecodeOP_N opcode1))]
        else Break_template
      else if opcode2 = OP_VERSION then
        if opcode1 \<le> OP_PUSHDATA4 then
          if vch1 = [] \<or> length vch1 > 4 \<or> last vch1 AND 0x80 \<noteq> 0 then Return_type TX_NONSTANDARD sols
          else
            (case vch_to_uint64 vch1 of
               Inl _ \<Rightarrow> Return_type TX_NONSTANDARD sols
             | Inr raw \<Rightarrow>
                 let version = VersionVM_fromRaw (ucast raw) in
                 if \<not> (VersionVM_toRaw version = VersionVM_toRaw GetEVMDefault \<or>
                        VersionVM_toRaw version = VersionVM_toRaw GetNoExec)
                 then Return_type TX_NONSTANDARD sols
                 else Go_on (st\<lparr>ms_rootVM := ver_rootVM version\<rparr>))
        else Go_on st
      else if opcode2 = OP_GAS_LIMIT then
        (case vch_to_uint64 vch1 of
           Inl _ \<Rightarrow> Return_type TX_NONSTANDARD sols
         | Inr val \<Rightarrow>
             if gas_limit_ok contractConsensus (ms_rootVM st) val then Go_on st
             else Return_type TX_NONSTANDARD sols)
      else if opcode2 = OP_DATA then
        if opcode1 \<le> OP_PUSHDATA4 \<and> vch1 = [] then Break_template else Go_on st
      else if opcode2 = OP_ADDRESS_TYPE then
        (case vch_to_uint64 vch1 of
           Inl _ \<Rightarrow> Break_template
         | Inr val \<Rightarrow> if val < 1 \<or> val > 5 then Break_template else Go_on (st\<lparr>ms_addressType := val\<rparr>))
      else if opcode2 = OP_ADDRESS then
        if ms_addressType st = 1 \<and> length vch1 = 20 then
          found (Serialize_bytes (the (GetScriptForDestination (CKeyID vch1))))
        else Break_template
      else if opcode2 = OP_SCRIPT_SIG then
        if opcode1 \<le> OP_PUSHDATA4 then
          if \<not> allowEmptySenderSig \<and> vch1 = [] then Break_template
          else if length vch1 > MAX_BASE_SCRIPT_SIZE then Return_type TX_NONSTANDARD sols
          else found vch1
        else Go_on st
      else if opcode1 \<noteq> opcode2 \<or> vch1 \<noteq> vch2 then Break_template
      else Go_on st)"

text \<open>The checks at the end of a template.\<close>

definition matched :: "txnouttype \<Rightarrow> valtype list \<Rightarrow> txnouttype \<times> valtype list" where
  "matched tplate sols =
     (if tplate = TX_MULTISIG then
        let m = unat (hd (hd sols)); n = unat (hd (last sols)) in
        if m < 1 \<or> n < 1 \<or> m > n \<or> length sols - 2 \<noteq> n then (TX_NONSTANDARD, sols) else (tplate, sols)
      else (tplate, sols))"

text \<open>The loop over one template; \<open>None\<close> is a break, after which the next template is tried.\<close>

function match_template ::
  "bool \<Rightarrow> bool \<Rightarrow> txnouttype \<Rightarrow> cscript \<Rightarrow> cscript \<Rightarrow> match_state \<Rightarrow> (txnouttype \<times> valtype list) option" where
  "match_template cc ae tplate pc1 pc2 st =
     (if pc1 = [] \<and> pc2 = [] then Some (matched tplate (ms_solutions st))
      else case GetOp pc1 of
        None \<Rightarrow> None
      | Some (opcode1, vch1, pc1) \<Rightarrow>
      (case GetOp pc2 of
        None \<Rightarrow> None
      | Some (opcode2, vch2, pc2) \<Rightarrow>
          if opcode2 = OP_PUBKEYS then
            (case pubkeys_loop opcode1 vch1 pc1 (ms_solutions st) of (opcode1, vch1, pc1, sols) \<Rightarrow>
             (case GetOp pc2 of
                None \<Rightarrow> None
              | Some (opcode2, vch2, pc2) \<Rightarrow>
                  (case match_op cc ae opcode1 vch1 opcode2 vch2 (st\<lparr>ms_solutions := sols\<rparr>) of
                     Break_template \<Rightarrow> None
                   | Return_type t sols \<Rightarrow> Some (t, sols)
                   | Go_on st \<Rightarrow> match_template cc ae tplate pc1 pc2 st)))
          else
            (case match_op cc ae opcode1 vch1 opcode2 vch2 st of
               Break_template \<Rightarrow> None
             | Return_type t sols \<Rightarrow> Some (t, sols)
             | Go_on st \<Rightarrow> match_template cc ae tplate pc1 pc2 st)))"
  by pat_completeness auto
termination
  by (relation "measure (\<lambda>(_, _, _, _, pc2, _). length pc2)") (auto dest!: GetOp_shrinks)

declare match_template.simps [simp del]

fun scan_templates ::
  "bool \<Rightarrow> bool \<Rightarrow> cscript \<Rightarrow> (txnouttype \<times> cscript) list \<Rightarrow> txnouttype \<times> valtype list" where
  "scan_templates cc ae script1 [] = (TX_NONSTANDARD, [])"
| "scan_templates cc ae script1 ((tplate, script2) # rest) =
     (case match_template cc ae tplate script1 script2
        \<lparr>ms_solutions = [], ms_addressType = 0, ms_rootVM = 20\<rparr> of
        Some r \<Rightarrow> r
      | None \<Rightarrow> scan_templates cc ae script1 rest)"

definition Solver :: "cscript \<Rightarrow> bool \<Rightarrow> bool \<Rightarrow> txnouttype \<times> valtype list" where
  "Solver scriptPubKey contractConsensus allowEmptySenderSig =
     (if IsPayToScriptHash scriptPubKey then (TX_SCRIPTHASH, [take 20 (drop 2 scriptPubKey)])
      else case IsWitnessProgram scriptPubKey of
        Some (witnessversion, witnessprogram) \<Rightarrow>
          if witnessversion = 0 \<and> length witnessprogram = 20 then (TX_WITNESS_V0_KEYHASH, [witnessprogram])
          else if witnessversion = 0 \<and> length witnessprogram = 32 then (TX_WITNESS_V0_SCRIPTHASH, [witnessprogram])
          else if witnessversion \<noteq> 0 then (TX_WITNESS_UNKNOWN, [[of_nat witnessversion], witnessprogram])
          else (TX_NONSTANDARD, [])
      | None \<Rightarrow>
          if length scriptPubKey \<ge> 1 \<and> scriptPubKey ! 0 = OP_RETURN \<and> IsPushOnly (drop 1 scriptPubKey)
          then (TX_NULL_DATA, [])
          else scan_templates contractConsensus allowEmptySenderSig scriptPubKey mTemplates)"

section \<open>Destinations of a script\<close>

text \<open>\<open>Hash160\<close> is an argument; \<open>None\<close> is the return value false.\<close>

definition ExtractDestination :: "(bytes \<Rightarrow> bytes) \<Rightarrow> cscript \<Rightarrow> txnouttype \<times> CTxDestination option" where
  "ExtractDestination Hash160 scriptPubKey =
     (let (whichType, vSolutions) = Solver scriptPubKey False False in
      (whichType,
       if whichType = TX_PUBKEY then
         if \<not> CPubKey_IsValid (vSolutions ! 0) then None else Some (CKeyID (Hash160 (vSolutions ! 0)))
       else if whichType = TX_PUBKEYHASH then Some (CKeyID (vSolutions ! 0))
       else if whichType = TX_SCRIPTHASH then Some (CScriptID (vSolutions ! 0))
       else if whichType = TX_WITNESS_V0_KEYHASH then Some (WitnessV0KeyHash (vSolutions ! 0))
       else if whichType = TX_WITNESS_V0_SCRIPTHASH then Some (WitnessV0ScriptHash (vSolutions ! 0))
       else if whichType = TX_WITNESS_UNKNOWN then
         Some (WitnessUnknown (unat (vSolutions ! 0 ! 0)) (vSolutions ! 1))
       else None))"

definition createQtumAddress :: "(bytes \<Rightarrow> bytes) \<Rightarrow> (bytes \<Rightarrow> bytes) \<Rightarrow> uint256 \<Rightarrow> uint32 \<Rightarrow> bytes" where
  "createQtumAddress SHA256 RIPEMD160 hashTx voutNumber =
     RIPEMD160 (SHA256 (ser_uint256 hashTx @ ser_writedata32 voutNumber))"

definition ExtractDestination_out ::
  "(bytes \<Rightarrow> bytes) \<Rightarrow> (bytes \<Rightarrow> bytes) \<Rightarrow> COutPoint \<Rightarrow> cscript \<Rightarrow> txnouttype \<times> CTxDestination option" where
  "ExtractDestination_out SHA256 RIPEMD160 prevout scriptPubKey =
     (let (whichType, vSolutions) = Solver scriptPubKey False False in
      (whichType,
       if whichType = TX_PUBKEY then
         if \<not> CPubKey_IsValid (vSolutions ! 0) then None
         else Some (CKeyID (RIPEMD160 (SHA256 (vSolutions ! 0))))
       else if whichType = TX_PUBKEYHASH then Some (CKeyID (vSolutions ! 0))
       else if whichType = TX_SCRIPTHASH then Some (CScriptID (vSolutions ! 0))
       else if whichType = TX_CALL then Some (CKeyID (vSolutions ! 0))
       else if whichType = TX_WITNESS_V0_KEYHASH then Some (WitnessV0KeyHash (vSolutions ! 0))
       else if whichType = TX_WITNESS_V0_SCRIPTHASH then Some (WitnessV0ScriptHash (vSolutions ! 0))
       else if whichType = TX_WITNESS_UNKNOWN then
         Some (WitnessUnknown (unat (vSolutions ! 0 ! 0)) (vSolutions ! 1))
       else if whichType = TX_CREATE then
         Some (CKeyID (createQtumAddress SHA256 RIPEMD160 (outpoint_hash prevout) (outpoint_n prevout)))
       else None))"

definition ExtractDestinations ::
  "(bytes \<Rightarrow> bytes) \<Rightarrow> cscript \<Rightarrow> bool \<Rightarrow> txnouttype \<times> (CTxDestination list \<times> nat) option" where
  "ExtractDestinations Hash160 scriptPubKey contractConsensus =
     (let (typeRet, vSolutions) = Solver scriptPubKey contractConsensus False in
      (typeRet,
       if typeRet = TX_NONSTANDARD then None
       else if typeRet = TX_NULL_DATA then None
       else if typeRet = TX_MULTISIG then
         let addressRet = map (\<lambda>k. CKeyID (Hash160 k)) (filter CPubKey_IsValid (butlast (tl vSolutions))) in
         if addressRet = [] then None else Some (addressRet, unat (hd (hd vSolutions)))
       else
         map_option (\<lambda>address. ([address], 1)) (snd (ExtractDestination Hash160 scriptPubKey))))"

definition GetScriptForWitness :: "(bytes \<Rightarrow> bytes) \<Rightarrow> (bytes \<Rightarrow> bytes) \<Rightarrow> cscript \<Rightarrow> cscript option" where
  "GetScriptForWitness SHA256 Hash160 redeemscript =
     (let (typ, vSolutions) = Solver redeemscript False False in
      if typ = TX_PUBKEY then GetScriptForDestination (WitnessV0KeyHash (Hash160 (vSolutions ! 0)))
      else if typ = TX_PUBKEYHASH then GetScriptForDestination (WitnessV0KeyHash (vSolutions ! 0))
      else GetScriptForDestination (WitnessV0ScriptHash (SHA256 redeemscript)))"

definition ExtractPublicKeyHash :: "(bytes \<Rightarrow> bytes) \<Rightarrow> cscript \<Rightarrow> bytes option" where
  "ExtractPublicKeyHash Hash160 scriptPubKey =
     (case ExtractDestination Hash160 scriptPubKey of
        (txType, Some (CKeyID keyID)) \<Rightarrow>
          if txType = TX_PUBKEY \<or> txType = TX_PUBKEYHASH then Some keyID else None
      | _ \<Rightarrow> None)"

section \<open>The sender of a contract output\<close>

definition solve_sender :: "cscript \<Rightarrow> bool \<Rightarrow> valtype list option" where
  "solve_sender outputPubKey allowEmpty =
     (let (t1, s1) = Solver outputPubKey True allowEmpty;
          (t2, s2) = Solver outputPubKey False allowEmpty in
      if t1 \<noteq> TX_NONSTANDARD then Some s1
      else if t2 \<noteq> TX_NONSTANDARD then Some s2
      else None)"

definition read_script :: "bool \<Rightarrow> valtype \<Rightarrow> ser_error + cscript option" where
  "read_script wanted v =
     (if wanted then bind_res (Unserialize_bytes v) (\<lambda>(s, _). Inr (Some s)) else Inr None)"

text \<open>
  \<open>wantPubKey\<close> and \<open>wantSig\<close> tell which of the output pointers are not null; an exception of
  the stream is caught and gives false.
\<close>

definition ExtractSenderData :: "cscript \<Rightarrow> bool \<Rightarrow> bool \<Rightarrow> (cscript option \<times> cscript option) option" where
  "ExtractSenderData outputPubKey wantPubKey wantSig =
     (if HasOpSender outputPubKey then
        (case solve_sender outputPubKey False of
           None \<Rightarrow> None
         | Some vSolutions \<Rightarrow>
             if length vSolutions < 2 then None
             else
               (case bind_res (read_script wantPubKey (vSolutions ! 0)) (\<lambda>senderPubKey.
                     bind_res (read_script wantSig (vSolutions ! 1)) (\<lambda>senderSig.
                       Inr (senderPubKey, senderSig))) of
                  Inr r \<Rightarrow> Some r
                | Inl _ \<Rightarrow> None))
      else None)"

definition GetSenderPubKey :: "cscript \<Rightarrow> cscript option" where
  "GetSenderPubKey outputPubKey =
     (if HasOpSender outputPubKey then
        (case solve_sender outputPubKey True of
           None \<Rightarrow> None
         | Some vSolutions \<Rightarrow>
             if length vSolutions < 1 then None
             else
               (case Unserialize_bytes (vSolutions ! 0) of
                  Inr (senderPubKey, _) \<Rightarrow> Some senderPubKey
                | Inl _ \<Rightarrow> None))
      else None)"

section \<open>Running a template\<close>

lemma GetOp_single: "op > OP_PUSHDATA4 \<Longrightarrow> GetOp (op # r) = Some (op, [], r)"
  by (simp add: GetOp_def GetScriptOp_def not_le [symmetric])

lemma instr_single: "op > OP_PUSHDATA4 \<Longrightarrow> instr (op, [], [op])"
  by (simp add: instr_def GetOp_single)

lemma match_template_end [simp]:
  "match_template cc ae t [] [] st = Some (matched t (ms_solutions st))"
  by (simp add: match_template.simps)

lemma match_template_end_None: "pc1 \<noteq> [] \<Longrightarrow> match_template cc ae t pc1 [] st = None"
  by (subst match_template.simps) (simp split: option.split)

lemma match_template_step:
  assumes "GetOp pc1 = Some (op1, v1, pc1')" "op2 > OP_PUSHDATA4" "op2 \<noteq> OP_PUBKEYS"
  shows "match_template cc ae t pc1 (op2 # pc2) st =
    (case match_op cc ae op1 v1 op2 [] st of
       Break_template \<Rightarrow> None
     | Return_type r sols \<Rightarrow> Some (r, sols)
     | Go_on st' \<Rightarrow> match_template cc ae t pc1' pc2 st')"
  using assms by (subst match_template.simps) (simp add: GetOp_single)

lemma match_template_stuck: "GetOp pc1 = None \<Longrightarrow> match_template cc ae t pc1 (op2 # pc2) st = None"
  by (subst match_template.simps) simp

lemma match_template_pubkeys:
  assumes "GetOp pc1 = Some (op1, v1, pc1')" "op2 > OP_PUSHDATA4"
    and "pubkeys_loop op1 v1 pc1' (ms_solutions st) = (op, v, pc, sols)"
  shows "match_template cc ae t pc1 (OP_PUBKEYS # op2 # pc2) st =
    (case match_op cc ae op v op2 [] (st\<lparr>ms_solutions := sols\<rparr>) of
       Break_template \<Rightarrow> None
     | Return_type r sols \<Rightarrow> Some (r, sols)
     | Go_on st' \<Rightarrow> match_template cc ae t pc pc2 st')"
  using assms by (subst match_template.simps) (simp add: GetOp_single)

text \<open>A return from inside a template is always \<^verbatim>\<open>TX_NONSTANDARD\<close>.\<close>

lemma match_op_Return: "match_op cc ae op1 v1 op2 v2 st = Return_type r sols \<Longrightarrow> r = TX_NONSTANDARD"
  by (auto simp: match_op_def Let_def split: if_splits sum.splits)

lemma match_template_SomeD:
  assumes "match_template cc ae t pc1 (op2 # pc2) st = Some (r, sols)" "r \<noteq> TX_NONSTANDARD"
    "op2 > OP_PUSHDATA4" "op2 \<noteq> OP_PUBKEYS"
  shows "\<exists>i pc1' st'. instr i \<and> pc1 = iraw i @ pc1' \<and> match_op cc ae (iop i) (idata i) op2 [] st = Go_on st' \<and>
    match_template cc ae t pc1' pc2 st' = Some (r, sols)"
proof (cases "GetOp pc1")
  case None
  then show ?thesis using assms(1) by (simp add: match_template_stuck)
next
  case (Some x)
  obtain op1 v1 pc1' where x: "x = (op1, v1, pc1')" by (cases x)
  from Some x obtain raw where raw: "pc1 = raw @ pc1'" "instr (op1, v1, raw)" by (auto elim: GetOp_SomeE)
  have step: "(case match_op cc ae op1 v1 op2 [] st of Break_template \<Rightarrow> None
     | Return_type r sols \<Rightarrow> Some (r, sols) | Go_on st' \<Rightarrow> match_template cc ae t pc1' pc2 st') = Some (r, sols)"
    using match_template_step [OF Some [unfolded x] assms(3,4)] assms(1) by simp
  then show ?thesis
    using raw assms(2) by (cases "match_op cc ae op1 v1 op2 [] st") (force dest: match_op_Return)+
qed

lemma matched_type: "matched t sols = (r, s) \<Longrightarrow> r = t \<or> r = TX_NONSTANDARD"
  by (auto simp: matched_def Let_def split: if_splits)

lemma match_template_type:
  "match_template cc ae t pc1 pc2 st = Some (r, sols) \<Longrightarrow> r = t \<or> r = TX_NONSTANDARD"
proof (induction cc ae t pc1 pc2 st rule: match_template.induct)
  case (1 cc ae t pc1 pc2 st)
  note prem = "1.prems" [unfolded match_template.simps [of cc ae t pc1 pc2 st]]
  show ?case
  proof (cases "pc1 = [] \<and> pc2 = []")
    case True
    with prem show ?thesis by (auto dest: matched_type)
  next
    case False
    with prem obtain op1 v1 p1 op2 v2 p2 where
      g: "GetOp pc1 = Some (op1, v1, p1)" "GetOp pc2 = Some (op2, v2, p2)"
      by (auto split: option.splits)
    show ?thesis
    proof (cases "op2 = OP_PUBKEYS")
      case pk: False
      show ?thesis
      proof (cases "match_op cc ae op1 v1 op2 v2 st")
        case (Go_on st')
        with "1.IH"(2) [OF False g(1) refl refl g(2) refl refl pk Go_on] prem False g pk show ?thesis by simp
      qed (use prem False g pk in \<open>auto dest: match_op_Return\<close>)
    next
      case pk: True
      obtain o1 w1 q1 s1 where l: "pubkeys_loop op1 v1 p1 (ms_solutions st) = (o1, w1, q1, s1)"
        by (cases "pubkeys_loop op1 v1 p1 (ms_solutions st)") auto
      obtain o2 w2 q2 where g2: "GetOp p2 = Some (o2, w2, q2)"
        using prem False g pk l by (auto split: option.splits)
      show ?thesis
      proof (cases "match_op cc ae o1 w1 o2 w2 (st\<lparr>ms_solutions := s1\<rparr>)")
        case (Go_on st')
        with "1.IH"(1) [OF False g(1) refl refl g(2) refl refl pk l [symmetric] refl refl g2 refl refl Go_on]
          prem False g pk l g2
        show ?thesis by simp
      qed (use prem False g pk l g2 in \<open>auto dest: match_op_Return\<close>)
    qed
  qed
qed

lemma scan_templates_type:
  "scan_templates cc ae s ts = (t, sols) \<Longrightarrow> t \<noteq> TX_NONSTANDARD \<Longrightarrow>
    \<exists>script2. (t, script2) \<in> set ts \<and>
      match_template cc ae t s script2 \<lparr>ms_solutions = [], ms_addressType = 0, ms_rootVM = 20\<rparr> = Some (t, sols)"
proof (induction ts)
  case (Cons a ts)
  obtain tp sc where a: "a = (tp, sc)" by (cases a)
  show ?case
  proof (cases "match_template cc ae tp s sc \<lparr>ms_solutions = [], ms_addressType = 0, ms_rootVM = 20\<rparr>")
    case None
    with Cons a show ?thesis by auto
  next
    case (Some r)
    with Cons.prems a have "r = (t, sols)" by simp
    with Some Cons.prems(2) match_template_type [of cc ae tp s sc _ t sols] a show ?thesis by force
  qed
qed simp


section \<open>What the matcher accepts\<close>

lemma VersionVM_toRaw_fromRaw [simp]: "VersionVM_toRaw (VersionVM_fromRaw v) = v"
proof -
  let ?r = "unat v"
  have "?r < 2 ^ 32" using unsigned_less [of v] by simp
  then have "?r mod 4 + 4 * (?r div 4 mod 64) + 256 * (?r div 256 mod 256) + 65536 * (?r div 65536 mod 65536) = ?r"
    using mod_mult2_eq [of ?r 4 64] mod_mult2_eq [of ?r 256 256] mod_mult2_eq [of ?r 65536 65536] by simp
  then show ?thesis by (simp only: VersionVM_toRaw_def VersionVM_fromRaw_def Let_def VersionVM.simps) simp
qed

lemma VersionVM_raws [simp]: "VersionVM_toRaw GetEVMDefault = 4" "VersionVM_toRaw GetNoExec = 0"
  by (simp_all add: VersionVM_toRaw_def GetEVMDefault_def GetNoExec_def)

lemma vch_to_uint64_unat: "vch_to_uint64 v = Inr x \<Longrightarrow> unat x = le_nat v"
  by (auto simp: vch_to_uint64_def Let_def or_bytes_le_nat split: if_splits)

lemma short_version:
  assumes "vch_to_uint64 v = Inr x" "length v \<le> 4" "(ucast x :: uint32) = of_nat k" "k < 2 ^ 32"
  shows "x = of_nat k"
proof -
  have "unat x < 2 ^ 32"
    using vch_to_uint64_unat [OF assms(1)] le_nat_less [of v] power_increasing [of "length v" 4 "256::nat"] assms(2) by simp
  then have "unat x = unat (ucast x :: uint32)" by (simp add: unsigned_ucast_eq unsigned_take_bit_eq take_bit_eq_mod)
  also have "\<dots> = k" using assms(3,4) by (simp add: unat_of_nat)
  finally have "of_nat (unat x) = (of_nat k :: uint64)" by simp
  then show ?thesis by simp
qed

lemma Solver_template:
  assumes "Solver s cc ae = (t, sols)"
    "t \<notin> {TX_NONSTANDARD, TX_SCRIPTHASH, TX_NULL_DATA, TX_WITNESS_V0_SCRIPTHASH, TX_WITNESS_V0_KEYHASH, TX_WITNESS_UNKNOWN}"
  obtains script2 where "(t, script2) \<in> set mTemplates"
    "match_template cc ae t s script2 \<lparr>ms_solutions = [], ms_addressType = 0, ms_rootVM = 20\<rparr> = Some (t, sols)"
  using assms scan_templates_type [of cc ae s mTemplates t sols]
  by (auto simp: Solver_def split: if_splits option.splits)

lemma match_op_exact:
  "op2 \<notin> {OP_PUBKEY, OP_PUBKEYHASH, OP_SMALLINTEGER, OP_VERSION, OP_GAS_LIMIT, OP_DATA, OP_ADDRESS_TYPE, OP_ADDRESS, OP_SCRIPT_SIG}
    \<Longrightarrow> match_op cc ae op1 v1 op2 v2 st = (if op1 \<noteq> op2 \<or> v1 \<noteq> v2 then Break_template else Go_on st)"
  by (simp add: match_op_def Let_def)

lemma match_op_pubkeyhash:
  "match_op cc ae op1 v1 OP_PUBKEYHASH v2 st =
    (if length v1 \<noteq> 20 then Break_template else Go_on (st\<lparr>ms_solutions := ms_solutions st @ [v1]\<rparr>))"
  by (simp add: match_op_def Let_def)

lemma instr_single_raw: "instr (op, d, raw) \<Longrightarrow> op > OP_PUSHDATA4 \<Longrightarrow> d = [] \<and> raw = [op]"
proof -
  assume i: "instr (op, d, raw)" and op: "op > OP_PUSHDATA4"
  then obtain r where raw: "raw = op # r"
    using GetOp_instr [OF i, of "[]"] op
    by (auto simp: GetOp_def GetScriptOp_def split: list.splits if_splits sum.splits prod.splits bool.splits)
  with i op show ?thesis using GetOp_instr [OF i, of "[]"] by (simp add: GetOp_single)
qed

text \<open>
  C12. What a contract call output that passes the consensus rules looks like: a version, a
  gas limit of at most the largest block gas limit, the call data, a contract address of 20
  bytes, and the call opcode, with nothing after it; the address is the only solution, and a
  version that is a data push names the default machine or no execution.
\<close>

theorem Solver_contract_call:
  assumes "Solver s True ae = (TX_CALL, sols)"
  shows "\<exists>ver gas d addr limit.
    s = asm [ver, gas, d, addr] @ [OP_CALL] \<and> list_all instr [ver, gas, d, addr] \<and>
    vch_to_uint64 (idata gas) = Inr limit \<and> limit \<le> MAX_BLOCK_GAS_LIMIT_DGP \<and>
    length (idata addr) = 20 \<and> sols = [idata addr] \<and>
    (iop ver \<le> OP_PUSHDATA4 \<longrightarrow> vch_to_uint64 (idata ver) \<in> {Inr 0, Inr 4})"
proof -
  let ?init = "\<lparr>ms_solutions = [], ms_addressType = 0, ms_rootVM = 20\<rparr>"
  have m: "match_template True ae TX_CALL s [OP_VERSION, OP_GAS_LIMIT, OP_DATA, OP_PUBKEYHASH, OP_CALL] ?init
      = Some (TX_CALL, sols)"
    using Solver_template [OF assms] by (auto simp: mTemplates_def)
  obtain ver s1 st1 where ver: "instr ver" "s = iraw ver @ s1"
    "match_op True ae (iop ver) (idata ver) OP_VERSION [] ?init = Go_on st1"
    "match_template True ae TX_CALL s1 [OP_GAS_LIMIT, OP_DATA, OP_PUBKEYHASH, OP_CALL] st1 = Some (TX_CALL, sols)"
    using match_template_SomeD [OF m] by auto
  obtain gas s2 st2 where gas: "instr gas" "s1 = iraw gas @ s2"
    "match_op True ae (iop gas) (idata gas) OP_GAS_LIMIT [] st1 = Go_on st2"
    "match_template True ae TX_CALL s2 [OP_DATA, OP_PUBKEYHASH, OP_CALL] st2 = Some (TX_CALL, sols)"
    using match_template_SomeD [OF ver(4)] by auto
  obtain d s3 st3 where d: "instr d" "s2 = iraw d @ s3"
    "match_op True ae (iop d) (idata d) OP_DATA [] st2 = Go_on st3"
    "match_template True ae TX_CALL s3 [OP_PUBKEYHASH, OP_CALL] st3 = Some (TX_CALL, sols)"
    using match_template_SomeD [OF gas(4)] by auto
  obtain addr s4 st4 where addr: "instr addr" "s3 = iraw addr @ s4"
    "match_op True ae (iop addr) (idata addr) OP_PUBKEYHASH [] st3 = Go_on st4"
    "match_template True ae TX_CALL s4 [OP_CALL] st4 = Some (TX_CALL, sols)"
    using match_template_SomeD [OF d(4)] by auto
  obtain c s5 st5 where c: "instr c" "s4 = iraw c @ s5"
    "match_op True ae (iop c) (idata c) OP_CALL [] st4 = Go_on st5"
    "match_template True ae TX_CALL s5 [] st5 = Some (TX_CALL, sols)"
    using match_template_SomeD [OF addr(4)] by auto
  have s5: "s5 = []" using c(4) match_template_end_None [of s5] by fastforce
  have c': "iraw c = [OP_CALL]" "st5 = st4"
    using c(1,3) instr_single_raw [of "iop c" "idata c" "iraw c"] by (auto simp: match_op_exact split: if_splits)
  have sols: "sols = ms_solutions st4" using c(4) c'(2) s5 by (simp add: matched_def)
  have st1: "ms_solutions st1 = []" "iop ver \<le> OP_PUSHDATA4 \<longrightarrow> vch_to_uint64 (idata ver) \<in> {Inr 0, Inr 4}"
    using ver(3) short_version [of "idata ver" _ 0] short_version [of "idata ver" _ 4]
    by (auto simp: match_op_def Let_def split: if_splits sum.splits)
  have st2: "st2 = st1" "\<exists>limit. vch_to_uint64 (idata gas) = Inr limit \<and> limit \<le> MAX_BLOCK_GAS_LIMIT_DGP"
    using gas(3) by (auto simp: match_op_def Let_def gas_limit_ok_def not_less split: if_splits sum.splits)
  have st3: "st3 = st2" using d(3) by (auto simp: match_op_def Let_def split: if_splits)
  have st4: "length (idata addr) = 20" "ms_solutions st4 = ms_solutions st3 @ [idata addr]"
    using addr(3) by (auto simp: match_op_pubkeyhash split: if_splits)
  obtain limit where lim: "vch_to_uint64 (idata gas) = Inr limit" "limit \<le> MAX_BLOCK_GAS_LIMIT_DGP" using st2(2) by blast
  have "s = asm [ver, gas, d, addr] @ [OP_CALL]" using ver(2) gas(2) d(2) addr(2) c(2) c'(1) s5 by simp
  moreover have "list_all instr [ver, gas, d, addr]" using ver(1) gas(1) d(1) addr(1) by simp
  moreover have "sols = [idata addr]" using st1(1) st4(2) st2(1) st3 sols by simp
  ultimately show ?thesis using lim st1(2) st4(1) by blast
qed

section \<open>Scripts that pay to a destination\<close>

definition dest_ok :: "CTxDestination \<Rightarrow> bool" where
  "dest_ok d \<longleftrightarrow> (case d of
     CNoDestination \<Rightarrow> False
   | CKeyID h \<Rightarrow> length h = 20
   | CScriptID h \<Rightarrow> length h = 20
   | WitnessV0ScriptHash h \<Rightarrow> length h = 32
   | WitnessV0KeyHash h \<Rightarrow> length h = 20
   | WitnessUnknown v p \<Rightarrow> 1 \<le> v \<and> v \<le> 16 \<and> 2 \<le> length p \<and> length p \<le> 40)"

lemma push_data_short: "length d < 76 \<Longrightarrow> push_data d = of_nat (length d) # d"
  by (simp add: push_data_def)

lemma GetOp_push_data: "length d < 2 ^ 32 \<Longrightarrow> GetOp (push_data d @ r) = Some (push_op d, d, r)"
  using GetOp_instr [OF instr_push_data [of d], of r] by simp

lemma Solver_pubkeyhash:
  assumes h: "length h = 20"
  shows "Solver ([OP_DUP, OP_HASH160] @ push_data h @ [OP_EQUALVERIFY, OP_CHECKSIG]) cc ae = (TX_PUBKEYHASH, [h])"
proof -
  let ?s = "[OP_DUP, OP_HASH160] @ push_data h @ [OP_EQUALVERIFY, OP_CHECKSIG]"
  have n: "\<not> IsPayToScriptHash ?s" "IsWitnessProgram ?s = None" "?s ! 0 \<noteq> OP_RETURN"
    using h by (simp_all add: IsPayToScriptHash_def IsWitnessProgram_def push_data_short)
  have pk: "match_template cc ae TX_PUBKEY ?s [OP_PUBKEY, OP_CHECKSIG] st = None" for st
    by (simp add: match_template_step [OF GetOp_single] match_op_def Let_def)
  have pkh: "match_template cc ae TX_PUBKEYHASH ?s
      [OP_DUP, OP_HASH160, OP_PUBKEYHASH, OP_EQUALVERIFY, OP_CHECKSIG]
      \<lparr>ms_solutions = [], ms_addressType = 0, ms_rootVM = 20\<rparr> = Some (TX_PUBKEYHASH, [h])"
    using h by (simp add: match_template_step [OF GetOp_single] match_template_step [OF GetOp_push_data]
        match_op_exact match_op_pubkeyhash matched_def)
  show ?thesis
    unfolding Solver_def n(2) option.case using n(1,3) pk pkh by (simp add: mTemplates_def)
qed

lemma IsWitnessProgram_push:
  assumes "v \<le> 16" "2 \<le> length p" "length p \<le> 40"
  shows "IsWitnessProgram (the (EncodeOP_N v) # push_data p) = Some (v, p)"
    "\<not> IsPayToScriptHash (the (EncodeOP_N v) # push_data p)"
proof -
  show "IsWitnessProgram (the (EncodeOP_N v) # push_data p) = Some (v, p)"
    using assms by (simp add: IsWitnessProgram_iff)
  have "unat (the (EncodeOP_N v)) \<noteq> 169"
    using assms(1) by (simp add: EncodeOP_N_def unat_small_int_op)
  then show "\<not> IsPayToScriptHash (the (EncodeOP_N v) # push_data p)" by (auto simp: IsPayToScriptHash_def)
qed

text \<open>
  The script for a destination leads back to it: for every destination that an address
  can encode, \<^verbatim>\<open>ExtractDestination\<close> of \<^verbatim>\<open>GetScriptForDestination\<close> returns the same destination.
\<close>

theorem ExtractDestination_roundtrip:
  assumes "dest_ok d"
  shows "\<exists>s. GetScriptForDestination d = Some s \<and> snd (ExtractDestination Hash160 s) = Some d"
proof (cases d)
  case (CKeyID h)
  with assms show ?thesis using Solver_pubkeyhash [of h] by (simp add: dest_ok_def ExtractDestination_def)
next
  case (CScriptID h)
  with assms show ?thesis
    by (simp add: dest_ok_def ExtractDestination_def Solver_def IsPayToScriptHash_def push_data_short nth_append)
next
  case (WitnessV0ScriptHash h)
  with assms show ?thesis using IsWitnessProgram_push [of 0 h]
    by (simp add: dest_ok_def ExtractDestination_def Solver_def EncodeOP_N_def)
next
  case (WitnessV0KeyHash h)
  with assms show ?thesis using IsWitnessProgram_push [of 0 h]
    by (simp add: dest_ok_def ExtractDestination_def Solver_def EncodeOP_N_def)
next
  case (WitnessUnknown v p)
  with assms show ?thesis using IsWitnessProgram_push [of v p]
    by (auto simp: dest_ok_def ExtractDestination_def Solver_def EncodeOP_N_def unat_of_nat_small)
qed (use assms in \<open>simp add: dest_ok_def\<close>)

theorem ExtractDestination_roundtrip_witness:
  "\<exists>s. GetScriptForDestination (WitnessUnknown 3 [7, 8, 9]) = Some s \<and>
    snd (ExtractDestination (\<lambda>_. []) s) = Some (WitnessUnknown 3 [7, 8, 9])"
  by (rule ExtractDestination_roundtrip) (simp add: dest_ok_def)

text \<open>A whole contract call, and its consensus reading.\<close>

definition sample_call :: cscript where
  "sample_call = push_data [4] @ push_data [0x40, 0x0d, 0x03] @ push_data [0xca, 0xfe] @ push_data (replicate 20 7) @ [OP_CALL]"

lemma sample_call_solved: "Solver sample_call True False = (TX_CALL, [replicate 20 7])"
proof -
  have n: "\<not> IsPayToScriptHash sample_call" "IsWitnessProgram sample_call = None" "sample_call ! 0 \<noteq> OP_RETURN"
    by (simp_all add: sample_call_def push_data_short IsPayToScriptHash_def IsWitnessProgram_def)
  have v: "vch_to_uint64 [4] = Inr 4" "vch_to_uint64 [0x40, 0x0d, 0x03] = Inr 200000"
    by (simp_all add: vch_to_uint64_def push_bit_eq_mult)
  have r: "ver_rootVM (VersionVM_fromRaw 4) = 1" by (simp add: VersionVM_fromRaw_def)
  note step = match_template_step [OF GetOp_push_data] match_template_step [OF GetOp_single]
  have 1: "match_template True False TX_PUBKEY sample_call [OP_PUBKEY, OP_CHECKSIG] st = None" for st
    unfolding sample_call_def by (subst step) (simp_all add: match_op_def)
  have 2: "match_template True False TX_PUBKEYHASH sample_call (OP_DUP # x) st = None" for st x
    unfolding sample_call_def by (subst step) (simp_all add: match_op_def push_op_def)
  have 3: "match_template True False TX_MULTISIG sample_call (OP_SMALLINTEGER # x) st = None" for st x
    unfolding sample_call_def by (subst step) (simp_all add: match_op_def push_op_def word_le_nat_alt)
  have v1: "match_op True False (push_op [4]) [4] OP_VERSION [] st = Go_on (st\<lparr>ms_rootVM := 1\<rparr>)" for st
    by (simp add: match_op_def v r push_op_le)
  have v2: "match_op True False (push_op [0x40, 0x0d, 0x03]) [0x40, 0x0d, 0x03] OP_GAS_LIMIT [] st = Go_on st" for st
    by (simp add: match_op_def v gas_limit_ok_def MAX_BLOCK_GAS_LIMIT_DGP_def)
  have v3: "match_op True False x d OP_DATA [] st = Go_on st" if "d \<noteq> []" for x d st
    using that by (simp add: match_op_def)
  have 4: "match_template True False TX_COINSTAKE_CALL sample_call (OP_VERSION # OP_DATA # OP_PUBKEYHASH # x) st = None" for st x
    unfolding sample_call_def by (simp add: step v1 v3 match_op_pubkeyhash)
  have 5: "match_template True False t sample_call (OP_ADDRESS_TYPE # OP_ADDRESS # x) st = None" for t st x
    unfolding sample_call_def by (simp add: step) (simp add: match_op_def v step)
  have 6: "match_template True False TX_CREATE sample_call [OP_VERSION, OP_GAS_LIMIT, OP_DATA, OP_CREATE] st = None" for st
    unfolding sample_call_def by (simp add: step v1 v2 v3 match_op_exact)
  have 7: "match_template True False TX_CALL sample_call [OP_VERSION, OP_GAS_LIMIT, OP_DATA, OP_PUBKEYHASH, OP_CALL]
      \<lparr>ms_solutions = [], ms_addressType = 0, ms_rootVM = 20\<rparr> = Some (TX_CALL, [replicate 20 7])"
    unfolding sample_call_def by (simp add: step v1 v2 v3 match_op_exact match_op_pubkeyhash matched_def)
  show ?thesis unfolding Solver_def n(2) option.case using n(1,3) 1 2 3 4 5 6 7 by (simp add: mTemplates_def)
qed

theorem Solver_contract_call_witness:
  "\<exists>ver gas d addr. sample_call = asm [ver, gas, d, addr] @ [OP_CALL] \<and> idata addr = replicate 20 7"
  using Solver_contract_call [OF sample_call_solved] by (metis list.inject)

section \<open>Multisignature scripts\<close>

lemma pubkeys_loop_keys:
  assumes "\<forall>k \<in> set keys. 33 \<le> length k \<and> length k \<le> 65"
    and "GetOp r = Some (op, v, r')" "length v < 33"
  shows "33 \<le> length v1 \<Longrightarrow> length v1 \<le> 65 \<Longrightarrow>
    pubkeys_loop op1 v1 (concat (map push_data keys) @ r) sols = (op, v, r', sols @ v1 # keys)"
  using assms
proof (induction keys arbitrary: op1 v1 sols)
  case Nil
  then show ?case by (subst pubkeys_loop.simps) (simp add: pubkeys_loop.simps)
next
  case (Cons k keys)
  have "GetOp (push_data k @ concat (map push_data keys) @ r) = Some (push_op k, k, concat (map push_data keys) @ r)"
    using Cons.prems by (intro GetOp_push_data) simp
  then show ?case using Cons by (subst pubkeys_loop.simps) simp
qed

lemma EncodeOP_N_small:
  assumes "1 \<le> n" "n \<le> 16"
  shows "EncodeOP_N n = Some (0x50 + of_nat n)" "the (DecodeOP_N (0x50 + of_nat n)) = n"
    "OP_1 \<le> 0x50 + (of_nat n :: byte)" "0x50 + (of_nat n :: byte) \<le> OP_16" "OP_PUSHDATA4 < 0x50 + (of_nat n :: byte)"
    "0x50 + (of_nat n :: byte) \<noteq> OP_HASH160" "0x50 + (of_nat n :: byte) \<noteq> OP_RETURN"
    "unat (of_nat n :: byte) = n"
proof -
  have u: "unat (0x50 + of_nat n :: byte) = 80 + n" using assms(2) by (rule unat_small_int_op)
  show "0x50 + (of_nat n :: byte) \<noteq> OP_HASH160" "0x50 + (of_nat n :: byte) \<noteq> OP_RETURN"
    using u assms by (auto simp: word_eq_iff_unsigned simp del: of_nat_add)
  show "EncodeOP_N n = Some (0x50 + of_nat n)" using assms by (simp add: EncodeOP_N_def)
  then show "the (DecodeOP_N (0x50 + of_nat n)) = n" using DecodeOP_N_EncodeOP_N [OF assms(2)] by simp
qed (use assms unat_small_int_op [OF assms(2)] unat_of_nat_small [of n] in
    \<open>simp_all add: word_le_nat_alt word_less_nat_alt\<close>)

text \<open>
  \<^verbatim>\<open>Solver\<close> recognises every multisignature script: the script that
  \<^verbatim>\<open>GetScriptForMultisig\<close> builds for m of at most 16 keys of 33 to 65 bytes is solved as
  \<^verbatim>\<open>TX_MULTISIG\<close>, with m, the keys in order and their number as solutions.
\<close>

theorem Solver_multisig:
  assumes mn: "1 \<le> m" "m \<le> length keys" "length keys \<le> 16"
    and keys: "\<forall>k \<in> set keys. 33 \<le> length k \<and> length k \<le> 65"
  shows "\<exists>s. GetScriptForMultisig m keys = Some s \<and>
    Solver s cc ae = (TX_MULTISIG, [of_nat m] # keys @ [[of_nat (length keys)]])"
proof -
  obtain k ks where ks: "keys = k # ks" using mn by (cases keys) auto
  let ?m = "0x50 + of_nat m :: byte" and ?n = "0x50 + of_nat (length keys) :: byte"
  note e = EncodeOP_N_small [of m] EncodeOP_N_small [of "length keys"]
  let ?r = "concat (map push_data ks) @ [?n, OP_CHECKMULTISIG]"
  let ?s = "?m # push_data k @ ?r"
  have s: "GetScriptForMultisig m keys = Some ?s"
    using mn e ks by (simp add: GetScriptForMultisig_def)
  have kl: "33 \<le> length k" "length k \<le> 65" using keys ks by auto
  have wit: "IsWitnessProgram ?s = None"
    using kl by (auto simp: IsWitnessProgram_def push_data_short unat_of_nat_small)
  have hd: "\<not> IsPayToScriptHash ?s" "?s ! 0 \<noteq> OP_RETURN" using mn e by (simp_all add: IsPayToScriptHash_def)
  have pk: "match_template cc ae TX_PUBKEY ?s [OP_PUBKEY, OP_CHECKSIG] st = None" for st
    using mn e by (simp add: match_template_step [OF GetOp_single] match_op_def Let_def)
  have pkh: "match_template cc ae TX_PUBKEYHASH ?s (OP_DUP # t) st = None" for t st
    using mn e by (auto simp: match_template_step [OF GetOp_single] match_op_exact word_le_nat_alt unat_small_int_op)
  have loop: "pubkeys_loop (push_op k) k ?r [[of_nat m]] = (?n, [], [OP_CHECKMULTISIG], [of_nat m] # keys)"
    using pubkeys_loop_keys [of ks "[?n, OP_CHECKMULTISIG]" ?n "[]" "[OP_CHECKMULTISIG]" k "push_op k" "[[of_nat m]]"]
      keys ks kl mn e by (simp add: GetOp_single)
  have ms: "match_template cc ae TX_MULTISIG ?s [OP_SMALLINTEGER, OP_PUBKEYS, OP_SMALLINTEGER, OP_CHECKMULTISIG]
      \<lparr>ms_solutions = [], ms_addressType = 0, ms_rootVM = 20\<rparr>
      = Some (TX_MULTISIG, [of_nat m] # keys @ [[of_nat (length keys)]])"
  proof -
    have i: "match_op cc ae ?m [] OP_SMALLINTEGER [] \<lparr>ms_solutions = [], ms_addressType = 0, ms_rootVM = 20\<rparr>
        = Go_on \<lparr>ms_solutions = [[of_nat m]], ms_addressType = 0, ms_rootVM = 20\<rparr>"
      using mn e by (simp add: match_op_def Let_def)
    have j: "match_op cc ae ?n [] OP_SMALLINTEGER []
        \<lparr>ms_solutions = [of_nat m] # keys, ms_addressType = 0, ms_rootVM = 20\<rparr>
        = Go_on \<lparr>ms_solutions = [of_nat m] # keys @ [[of_nat (length keys)]], ms_addressType = 0, ms_rootVM = 20\<rparr>"
      using mn e by (simp add: match_op_def Let_def)
    have ne: "keys \<noteq> []" using ks by simp
    have g: "GetOp (push_data k @ ?r) = Some (push_op k, k, ?r)" using kl by (intro GetOp_push_data) simp
    show ?thesis
      using mn e(5,8,16) loop j
      by (simp add: match_template_step [OF GetOp_single] i match_template_pubkeys [OF g, of _ _ ?n "[]"]
          match_op_exact matched_def Let_def ne)
  qed
  have "Solver ?s cc ae = (TX_MULTISIG, [of_nat m] # keys @ [[of_nat (length keys)]])"
    unfolding Solver_def wit option.case using hd pk pkh ms by (simp add: mTemplates_def)
  with s show ?thesis by blast
qed

theorem Solver_multisig_witness:
  "\<exists>s. GetScriptForMultisig 1 [replicate 33 2, replicate 33 3] = Some s \<and> fst (Solver s False False) = TX_MULTISIG"
  using Solver_multisig [of 1 "[replicate 33 2, replicate 33 3]" False False] by auto

end
