(* ===== verification/Coins.thy ===== *)
theory Coins
  imports Transaction "HOL-Library.AList"
begin

text \<open>
  The unspent output set: \<^verbatim>\<open>src/coins.h\<close>, \<^verbatim>\<open>coins.cpp\<close> and the coin database of
  \<^verbatim>\<open>txdb.cpp\<close>. A \<^verbatim>\<open>CCoinsView\<close> is a record of its virtual methods over a state type, so
  that a cache stands on a database or on another cache. \<^verbatim>\<open>CCoinsMap\<close> is an association
  list: its order is the iteration order of the hash map. The \<^verbatim>\<open>const\<close> readers return
  the state too, since they fill the cache. The memory accounting (\<^verbatim>\<open>cachedCoinsUsage\<close>) is
  left out. The locale \<open>coins_view\<close> is the contract of a view: a map from outpoints to
  unspent coins.
\<close>

section \<open>Coins\<close>

record Coin =
  coin_out :: CTxOut
  coin_fCoinBase :: bool
  coin_fCoinStake :: bool
  coin_nHeight :: "30 word"

definition Coin_Clear :: Coin where
  "Coin_Clear = \<lparr>coin_out = CTxOut_SetNull, coin_fCoinBase = False, coin_fCoinStake = False, coin_nHeight = 0\<rparr>"

definition IsSpent :: "Coin \<Rightarrow> bool" where
  "IsSpent coin \<longleftrightarrow> CTxOut_IsNull (coin_out coin)"

record CCoinsCacheEntry =
  entry_coin :: Coin
  entry_flags :: byte

definition DIRTY :: byte where "DIRTY = 1"
definition FRESH :: byte where "FRESH = 2"

type_synonym CCoinsMap = "(COutPoint \<times> CCoinsCacheEntry) list"

definition is_dirty :: "CCoinsCacheEntry \<Rightarrow> bool" where
  "is_dirty e \<longleftrightarrow> entry_flags e AND DIRTY \<noteq> 0"

definition is_fresh :: "CCoinsCacheEntry \<Rightarrow> bool" where
  "is_fresh e \<longleftrightarrow> entry_flags e AND FRESH \<noteq> 0"

datatype coins_error = Assert_failed | Replaces_unspent | Fresh_misapplied

section \<open>Views\<close>

text \<open>The virtual methods of a view with states of type \<open>'b\<close>.\<close>

record 'b CCoinsView =
  view_GetCoin :: "COutPoint \<Rightarrow> 'b \<Rightarrow> Coin option \<times> 'b"
  view_GetBestBlock :: "'b \<Rightarrow> uint256 \<times> 'b"
  view_BatchWrite :: "CCoinsMap \<Rightarrow> uint256 \<Rightarrow> 'b \<Rightarrow> coins_error + 'b"

subsection \<open>The cache\<close>

record 'b CCoinsViewCache =
  cache_hashBlock :: uint256
  cacheCoins :: CCoinsMap
  cache_base :: 'b

definition new_cache :: "'b \<Rightarrow> 'b CCoinsViewCache" where
  "new_cache base = \<lparr>cache_hashBlock = 0, cacheCoins = [], cache_base = base\<rparr>"

definition FetchCoin ::
  "'b CCoinsView \<Rightarrow> COutPoint \<Rightarrow> 'b CCoinsViewCache \<Rightarrow> CCoinsCacheEntry option \<times> 'b CCoinsViewCache" where
  "FetchCoin V outpoint c =
     (case map_of (cacheCoins c) outpoint of
        Some e \<Rightarrow> (Some e, c)
      | None \<Rightarrow>
          case view_GetCoin V outpoint (cache_base c) of
            (None, b) \<Rightarrow> (None, c\<lparr>cache_base := b\<rparr>)
          | (Some tmp, b) \<Rightarrow>
              let e = \<lparr>entry_coin = tmp, entry_flags = (if IsSpent tmp then FRESH else 0)\<rparr>
              in (Some e, c\<lparr>cache_base := b, cacheCoins := AList.update outpoint e (cacheCoins c)\<rparr>))"

definition Cache_GetCoin ::
  "'b CCoinsView \<Rightarrow> COutPoint \<Rightarrow> 'b CCoinsViewCache \<Rightarrow> Coin option \<times> 'b CCoinsViewCache" where
  "Cache_GetCoin V outpoint c =
     (case FetchCoin V outpoint c of
        (Some e, c') \<Rightarrow> (if IsSpent (entry_coin e) then None else Some (entry_coin e), c')
      | (None, c') \<Rightarrow> (None, c'))"

definition AddCoin ::
  "COutPoint \<Rightarrow> Coin \<Rightarrow> bool \<Rightarrow> 'b CCoinsViewCache \<Rightarrow> coins_error + 'b CCoinsViewCache" where
  "AddCoin outpoint coin possible_overwrite c =
     (if IsSpent coin then Inl Assert_failed
      else if IsUnspendable (out_scriptPubKey (coin_out coin)) then Inr c
      else
        let old = (case map_of (cacheCoins c) outpoint of
                     Some e \<Rightarrow> e | None \<Rightarrow> \<lparr>entry_coin = Coin_Clear, entry_flags = 0\<rparr>)
        in if \<not> possible_overwrite \<and> \<not> IsSpent (entry_coin old) then Inl Replaces_unspent
           else
             let fresh = (\<not> possible_overwrite \<and> \<not> is_dirty old);
                 e = \<lparr>entry_coin = coin,
                      entry_flags = entry_flags old OR (DIRTY OR (if fresh then FRESH else 0))\<rparr>
             in Inr (c\<lparr>cacheCoins := AList.update outpoint e (cacheCoins c)\<rparr>))"

text \<open>\<^verbatim>\<open>SpendCoin\<close>: the answer, what is moved out, and the cache.\<close>

definition SpendCoin ::
  "'b CCoinsView \<Rightarrow> COutPoint \<Rightarrow> 'b CCoinsViewCache \<Rightarrow> Coin option \<times> 'b CCoinsViewCache" where
  "SpendCoin V outpoint c =
     (case FetchCoin V outpoint c of
        (None, c') \<Rightarrow> (None, c')
      | (Some e, c') \<Rightarrow>
          (Some (entry_coin e),
           if is_fresh e then c'\<lparr>cacheCoins := AList.delete outpoint (cacheCoins c')\<rparr>
           else c'\<lparr>cacheCoins := AList.update outpoint
                   \<lparr>entry_coin = Coin_Clear, entry_flags = entry_flags e OR DIRTY\<rparr> (cacheCoins c')\<rparr>))"

definition AccessCoin ::
  "'b CCoinsView \<Rightarrow> COutPoint \<Rightarrow> 'b CCoinsViewCache \<Rightarrow> Coin \<times> 'b CCoinsViewCache" where
  "AccessCoin V outpoint c =
     (case FetchCoin V outpoint c of
        (None, c') \<Rightarrow> (Coin_Clear, c')
      | (Some e, c') \<Rightarrow> (entry_coin e, c'))"

definition HaveCoin ::
  "'b CCoinsView \<Rightarrow> COutPoint \<Rightarrow> 'b CCoinsViewCache \<Rightarrow> bool \<times> 'b CCoinsViewCache" where
  "HaveCoin V outpoint c =
     (case FetchCoin V outpoint c of
        (None, c') \<Rightarrow> (False, c')
      | (Some e, c') \<Rightarrow> (\<not> IsSpent (entry_coin e), c'))"

definition HaveCoinInCache :: "COutPoint \<Rightarrow> 'b CCoinsViewCache \<Rightarrow> bool" where
  "HaveCoinInCache outpoint c =
     (case map_of (cacheCoins c) outpoint of None \<Rightarrow> False | Some e \<Rightarrow> \<not> IsSpent (entry_coin e))"

definition Cache_GetBestBlock ::
  "'b CCoinsView \<Rightarrow> 'b CCoinsViewCache \<Rightarrow> uint256 \<times> 'b CCoinsViewCache" where
  "Cache_GetBestBlock V c =
     (if cache_hashBlock c = 0 then
        case view_GetBestBlock V (cache_base c) of
          (h, b) \<Rightarrow> (h, c\<lparr>cache_base := b, cache_hashBlock := h\<rparr>)
      else (cache_hashBlock c, c))"

definition SetBestBlock :: "uint256 \<Rightarrow> 'b CCoinsViewCache \<Rightarrow> 'b CCoinsViewCache" where
  "SetBestBlock hashBlockIn c = c\<lparr>cache_hashBlock := hashBlockIn\<rparr>"

text \<open>One entry of the loop of \<^verbatim>\<open>BatchWrite\<close>.\<close>

definition batch_entry :: "COutPoint \<Rightarrow> CCoinsCacheEntry \<Rightarrow> CCoinsMap \<Rightarrow> coins_error + CCoinsMap" where
  "batch_entry k e m =
     (if \<not> is_dirty e then Inr m
      else case map_of m k of
        None \<Rightarrow>
          if \<not> (is_fresh e \<and> IsSpent (entry_coin e))
          then Inr (AList.update k \<lparr>entry_coin = entry_coin e,
                                 entry_flags = (if is_fresh e then DIRTY OR FRESH else DIRTY)\<rparr> m)
          else Inr m
      | Some us \<Rightarrow>
          if is_fresh e \<and> \<not> IsSpent (entry_coin us) then Inl Fresh_misapplied
          else if is_fresh us \<and> IsSpent (entry_coin e) then Inr (AList.delete k m)
          else Inr (AList.update k \<lparr>entry_coin = entry_coin e, entry_flags = entry_flags us OR DIRTY\<rparr> m))"

fun batch_entries :: "CCoinsMap \<Rightarrow> CCoinsMap \<Rightarrow> coins_error + CCoinsMap" where
  "batch_entries [] m = Inr m"
| "batch_entries ((k, e) # mapCoins) m = bind_res (batch_entry k e m) (batch_entries mapCoins)"

definition Cache_BatchWrite ::
  "CCoinsMap \<Rightarrow> uint256 \<Rightarrow> 'b CCoinsViewCache \<Rightarrow> coins_error + 'b CCoinsViewCache" where
  "Cache_BatchWrite mapCoins hashBlockIn c =
     bind_res (batch_entries mapCoins (cacheCoins c))
       (\<lambda>m. Inr (c\<lparr>cacheCoins := m, cache_hashBlock := hashBlockIn\<rparr>))"

definition Flush :: "'b CCoinsView \<Rightarrow> 'b CCoinsViewCache \<Rightarrow> coins_error + 'b CCoinsViewCache" where
  "Flush V c =
     bind_res (view_BatchWrite V (cacheCoins c) (cache_hashBlock c) (cache_base c))
       (\<lambda>b. Inr (c\<lparr>cache_base := b, cacheCoins := []\<rparr>))"

definition Uncache :: "COutPoint \<Rightarrow> 'b CCoinsViewCache \<Rightarrow> 'b CCoinsViewCache" where
  "Uncache k c =
     (case map_of (cacheCoins c) k of
        Some e \<Rightarrow> if entry_flags e = 0 then c\<lparr>cacheCoins := AList.delete k (cacheCoins c)\<rparr> else c
      | None \<Rightarrow> c)"

text \<open>The methods of a cache over the view \<open>V\<close>.\<close>

definition CacheView :: "'b CCoinsView \<Rightarrow> 'b CCoinsViewCache CCoinsView" where
  "CacheView V = \<lparr>view_GetCoin = Cache_GetCoin V, view_GetBestBlock = Cache_GetBestBlock V,
     view_BatchWrite = Cache_BatchWrite\<rparr>"

subsection \<open>Transactions on a cache\<close>

fun add_coins_loop ::
  "'b CCoinsView \<Rightarrow> bool \<Rightarrow> uint256 \<Rightarrow> (CTxOut \<Rightarrow> Coin) \<Rightarrow> bool \<Rightarrow> nat \<Rightarrow> CTxOut list \<Rightarrow>
   'b CCoinsViewCache \<Rightarrow> coins_error + 'b CCoinsViewCache" where
  "add_coins_loop V check txid mk fCoinbase i [] c = Inr c"
| "add_coins_loop V check txid mk fCoinbase i (txout # vout) c =
     (let outpoint = \<lparr>outpoint_hash = txid, outpoint_n = of_nat i\<rparr>;
          (overwrite, c1) = (if check then HaveCoin V outpoint c else (fCoinbase, c))
      in bind_res (AddCoin outpoint (mk txout) overwrite c1)
           (add_coins_loop V check txid mk fCoinbase (i + 1) vout))"

definition AddCoins ::
  "(bytes \<Rightarrow> uint256) \<Rightarrow> 'b CCoinsView \<Rightarrow> CTransaction \<Rightarrow> int \<Rightarrow> bool \<Rightarrow> 'b CCoinsViewCache \<Rightarrow>
   coins_error + 'b CCoinsViewCache" where
  "AddCoins H V tx nHeight check cache =
     add_coins_loop V check (ComputeHash H tx)
       (\<lambda>txout. \<lparr>coin_out = txout, coin_fCoinBase = IsCoinBase tx, coin_fCoinStake = IsCoinStake tx,
                 coin_nHeight = of_int nHeight\<rparr>)
       (IsCoinBase tx) 0 (tx_vout tx) cache"

fun have_inputs_loop ::
  "'b CCoinsView \<Rightarrow> CTxIn list \<Rightarrow> 'b CCoinsViewCache \<Rightarrow> bool \<times> 'b CCoinsViewCache" where
  "have_inputs_loop V [] c = (True, c)"
| "have_inputs_loop V (txin # vin) c =
     (case HaveCoin V (in_prevout txin) c of
        (False, c') \<Rightarrow> (False, c')
      | (True, c') \<Rightarrow> have_inputs_loop V vin c')"

definition HaveInputs ::
  "'b CCoinsView \<Rightarrow> CTransaction \<Rightarrow> 'b CCoinsViewCache \<Rightarrow> bool \<times> 'b CCoinsViewCache" where
  "HaveInputs V tx c = (if IsCoinBase tx then (True, c) else have_inputs_loop V (tx_vin tx) c)"

text \<open>The loop of \<^verbatim>\<open>AccessByTxid\<close> over at most \<^verbatim>\<open>MAX_OUTPUTS_PER_BLOCK\<close> indices.\<close>

fun access_by_txid_loop ::
  "'b CCoinsView \<Rightarrow> uint256 \<Rightarrow> nat \<Rightarrow> nat \<Rightarrow> 'b CCoinsViewCache \<Rightarrow> Coin \<times> 'b CCoinsViewCache" where
  "access_by_txid_loop V txid i 0 c = (Coin_Clear, c)"
| "access_by_txid_loop V txid i (Suc left) c =
     (case AccessCoin V \<lparr>outpoint_hash = txid, outpoint_n = of_nat i\<rparr> c of
        (alternate, c') \<Rightarrow>
          if \<not> IsSpent alternate then (alternate, c')
          else access_by_txid_loop V txid (i + 1) left c')"

definition AccessByTxid ::
  "'b CCoinsView \<Rightarrow> nat \<Rightarrow> uint256 \<Rightarrow> 'b CCoinsViewCache \<Rightarrow> Coin \<times> 'b CCoinsViewCache" where
  "AccessByTxid V MAX_OUTPUTS_PER_BLOCK txid c = access_by_txid_loop V txid 0 MAX_OUTPUTS_PER_BLOCK c"

subsection \<open>The coin database\<close>

text \<open>
  The keys of the database that the coin view uses: coins, \<^verbatim>\<open>DB_BEST_BLOCK\<close> and
  \<^verbatim>\<open>DB_HEAD_BLOCKS\<close>. A \<^verbatim>\<open>CDBBatch\<close> is the list of its operations, applied atomically.
\<close>

record CoinsDB =
  db_coin :: "COutPoint \<Rightarrow> Coin option"
  db_best_block :: "uint256 option"
  db_head_blocks :: "uint256 list option"

datatype db_op = Erase_coin COutPoint | Write_coin COutPoint Coin
  | Erase_best_block | Write_best_block uint256
  | Erase_head_blocks | Write_head_blocks "uint256 list"

fun apply_db_op :: "db_op \<Rightarrow> CoinsDB \<Rightarrow> CoinsDB" where
  "apply_db_op (Erase_coin k) db = db\<lparr>db_coin := (db_coin db)(k := None)\<rparr>"
| "apply_db_op (Write_coin k coin) db = db\<lparr>db_coin := (db_coin db)(k := Some coin)\<rparr>"
| "apply_db_op Erase_best_block db = db\<lparr>db_best_block := None\<rparr>"
| "apply_db_op (Write_best_block h) db = db\<lparr>db_best_block := Some h\<rparr>"
| "apply_db_op Erase_head_blocks db = db\<lparr>db_head_blocks := None\<rparr>"
| "apply_db_op (Write_head_blocks hs) db = db\<lparr>db_head_blocks := Some hs\<rparr>"

definition WriteBatch :: "db_op list \<Rightarrow> CoinsDB \<Rightarrow> CoinsDB" where
  "WriteBatch batch db = fold apply_db_op batch db"

definition DB_GetCoin :: "COutPoint \<Rightarrow> CoinsDB \<Rightarrow> Coin option \<times> CoinsDB" where
  "DB_GetCoin outpoint db = (db_coin db outpoint, db)"

definition DB_GetBestBlock :: "CoinsDB \<Rightarrow> uint256 \<times> CoinsDB" where
  "DB_GetBestBlock db = (case db_best_block db of None \<Rightarrow> 0 | Some h \<Rightarrow> h, db)"

definition GetHeadBlocks :: "CoinsDB \<Rightarrow> uint256 list" where
  "GetHeadBlocks db = (case db_head_blocks db of None \<Rightarrow> [] | Some hs \<Rightarrow> hs)"

definition db_entry_ops :: "COutPoint \<Rightarrow> CCoinsCacheEntry \<Rightarrow> db_op list" where
  "db_entry_ops k e =
     (if is_dirty e then [if IsSpent (entry_coin e) then Erase_coin k else Write_coin k (entry_coin e)]
      else [])"

text \<open>
  The loop over the entries, with \<^verbatim>\<open>SizeEstimate\<close> as the argument \<open>est\<close>: the databases
  written by the partial batches, the last database and the pending batch.
\<close>

fun db_write_loop ::
  "(db_op list \<Rightarrow> nat) \<Rightarrow> nat \<Rightarrow> CCoinsMap \<Rightarrow> db_op list \<Rightarrow> CoinsDB \<Rightarrow>
   CoinsDB list \<times> CoinsDB \<times> db_op list" where
  "db_write_loop est batch_size [] batch db = ([], db, batch)"
| "db_write_loop est batch_size ((k, e) # mapCoins) batch db =
     (let batch' = batch @ db_entry_ops k e in
      if est batch' > batch_size then
        let db' = WriteBatch batch' db;
            (written, rest) = db_write_loop est batch_size mapCoins [] db'
        in (db' # written, rest)
      else db_write_loop est batch_size mapCoins batch' db)"

text \<open>\<^verbatim>\<open>CCoinsViewDB::BatchWrite\<close>: the intermediate databases on disk, and the last one.\<close>

definition DB_BatchWrite_trace ::
  "(db_op list \<Rightarrow> nat) \<Rightarrow> nat \<Rightarrow> CCoinsMap \<Rightarrow> uint256 \<Rightarrow> CoinsDB \<Rightarrow>
   coins_error + CoinsDB list \<times> CoinsDB" where
  "DB_BatchWrite_trace est batch_size mapCoins hashBlock db =
     (if hashBlock = 0 then Inl Assert_failed
      else
        let old_tip = fst (DB_GetBestBlock db); old_heads = GetHeadBlocks db;
            replaying = (old_tip = 0 \<and> length old_heads = 2)
        in if replaying \<and> old_heads ! 0 \<noteq> hashBlock then Inl Assert_failed
           else
             let old_tip = (if replaying then old_heads ! 1 else old_tip);
                 (written, db', batch) = db_write_loop est batch_size mapCoins
                    [Erase_best_block, Write_head_blocks [hashBlock, old_tip]] db
             in Inr (written, WriteBatch (batch @ [Erase_head_blocks, Write_best_block hashBlock]) db'))"

definition DB_BatchWrite ::
  "(db_op list \<Rightarrow> nat) \<Rightarrow> nat \<Rightarrow> CCoinsMap \<Rightarrow> uint256 \<Rightarrow> CoinsDB \<Rightarrow> coins_error + CoinsDB" where
  "DB_BatchWrite est batch_size mapCoins hashBlock db =
     bind_res (DB_BatchWrite_trace est batch_size mapCoins hashBlock db) (\<lambda>(_, db'). Inr db')"

definition CCoinsViewDB :: "(db_op list \<Rightarrow> nat) \<Rightarrow> nat \<Rightarrow> CoinsDB CCoinsView" where
  "CCoinsViewDB est batch_size = \<lparr>view_GetCoin = DB_GetCoin, view_GetBestBlock = DB_GetBestBlock,
     view_BatchWrite = DB_BatchWrite est batch_size\<rparr>"

section \<open>The contract of a view\<close>

text \<open>What writing a map of entries does to the set of unspent coins.\<close>

type_synonym utxo = "COutPoint \<rightharpoonup> Coin"

definition unspent :: "Coin \<Rightarrow> Coin option" where
  "unspent coin = (if IsSpent coin then None else Some coin)"

fun apply_entries :: "CCoinsMap \<Rightarrow> utxo \<Rightarrow> utxo" where
  "apply_entries [] u = u"
| "apply_entries ((k, e) # xs) u =
     apply_entries xs (if is_dirty e then u(k := unspent (entry_coin e)) else u)"

text \<open>Entries over a base set \<open>u\<close>: what the flags promise.\<close>

definition entry_ok :: "utxo \<Rightarrow> COutPoint \<Rightarrow> CCoinsCacheEntry \<Rightarrow> bool" where
  "entry_ok u k e \<longleftrightarrow> (\<not> is_dirty e \<longrightarrow> u k = unspent (entry_coin e)) \<and> (is_fresh e \<longrightarrow> u k = None)"

definition entries_ok :: "utxo \<Rightarrow> CCoinsMap \<Rightarrow> bool" where
  "entries_ok u xs \<longleftrightarrow> distinct (map fst xs) \<and> (\<forall>(k, e) \<in> set xs. entry_ok u k e)"

locale coins_view =
  fixes V :: "'b CCoinsView"
    and utxo_of :: "'b \<Rightarrow> utxo"
    and best_of :: "'b \<Rightarrow> uint256"
    and base_inv :: "'b \<Rightarrow> bool"
  assumes utxo_unspent: "base_inv b \<Longrightarrow> utxo_of b k = Some coin \<Longrightarrow> \<not> IsSpent coin"
    and get_coin: "base_inv b \<Longrightarrow> view_GetCoin V k b = (r, b') \<Longrightarrow>
      r = utxo_of b k \<and> utxo_of b' = utxo_of b \<and> best_of b' = best_of b \<and> base_inv b'"
    and get_best: "base_inv b \<Longrightarrow> view_GetBestBlock V b = (h, b') \<Longrightarrow>
      h = best_of b \<and> utxo_of b' = utxo_of b \<and> best_of b' = best_of b \<and> base_inv b'"
    and batch_write: "base_inv b \<Longrightarrow> entries_ok (utxo_of b) xs \<Longrightarrow> h \<noteq> 0 \<Longrightarrow>
      \<exists>b'. view_BatchWrite V xs h b = Inr b' \<and> base_inv b' \<and> best_of b' = h \<and>
        utxo_of b' = apply_entries xs (utxo_of b)"
begin

end

section \<open>Entries and flags\<close>

declare update_conv' [simp] delete_conv' [simp] distinct_update [simp] distinct_delete [simp]

lemma flags_simps [simp]:
  "(f OR DIRTY) AND DIRTY \<noteq> 0" "(f OR DIRTY) AND FRESH = f AND FRESH"
  "(f OR (DIRTY OR g)) AND DIRTY \<noteq> 0" "(f OR (DIRTY OR FRESH)) AND FRESH \<noteq> 0"
  "(0 :: byte) AND g = 0" "DIRTY AND DIRTY \<noteq> 0" "FRESH AND FRESH \<noteq> 0" "DIRTY AND FRESH = 0"
  "FRESH AND DIRTY = 0" "(DIRTY OR FRESH) AND DIRTY \<noteq> 0" "(DIRTY OR FRESH) AND FRESH \<noteq> 0"
  "DIRTY \<noteq> 0" "FRESH \<noteq> 0"
proof -
  have bits: "bit DIRTY n \<longleftrightarrow> n = 0" "bit FRESH n \<longleftrightarrow> n = 1" for n
    by (auto simp: DIRTY_def FRESH_def bit_1_iff bit_2_iff)
  have nz: "x \<noteq> 0" if "bit x n" for x :: byte and n using that by auto
  show "(f OR DIRTY) AND DIRTY \<noteq> 0" "(f OR (DIRTY OR g)) AND DIRTY \<noteq> 0"
    "DIRTY AND DIRTY \<noteq> 0" "(DIRTY OR FRESH) AND DIRTY \<noteq> 0"
    by (rule nz [of _ 0], simp add: bit_and_iff bit_or_iff bits)+
  show "(f OR (DIRTY OR FRESH)) AND FRESH \<noteq> 0" "FRESH AND FRESH \<noteq> 0" "(DIRTY OR FRESH) AND FRESH \<noteq> 0"
    by (rule nz [of _ 1], simp add: bit_and_iff bit_or_iff bits)+
  show "(f OR DIRTY) AND FRESH = f AND FRESH" "DIRTY AND FRESH = 0" "FRESH AND DIRTY = 0" "(0 :: byte) AND g = 0"
    by (rule bit_eqI, auto simp: bit_and_iff bit_or_iff bits)+
  show "DIRTY \<noteq> 0" "FRESH \<noteq> 0" by (simp_all add: DIRTY_def FRESH_def)
qed

lemma unspent_simps [simp]:
  "unspent Coin_Clear = None" "IsSpent Coin_Clear"
  "unspent coin = None \<longleftrightarrow> IsSpent coin" "None = unspent coin \<longleftrightarrow> IsSpent coin"
  "unspent coin = Some coin' \<longleftrightarrow> \<not> IsSpent coin \<and> coin' = coin"
  by (auto simp: unspent_def IsSpent_def Coin_Clear_def CTxOut_IsNull_def CTxOut_SetNull_def)

lemma entries_ok_iff:
  "entries_ok u xs \<longleftrightarrow> distinct (map fst xs) \<and> (\<forall>k e. map_of xs k = Some e \<longrightarrow> entry_ok u k e)"
  by (auto simp: entries_ok_def map_of_eq_Some_iff)

lemma apply_entries_nth:
  "distinct (map fst xs) \<Longrightarrow> apply_entries xs u k =
     (case map_of xs k of Some e \<Rightarrow> if is_dirty e then unspent (entry_coin e) else u k | None \<Rightarrow> u k)"
proof (induction xs arbitrary: u)
  case (Cons x xs)
  obtain k' e where x: "x = (k', e)" by (cases x)
  with Cons have "map_of xs k' = None" by (auto simp: map_of_eq_None_iff)
  with Cons x show ?case by (auto split: option.splits)
qed simp

section \<open>The cache over a view\<close>

text \<open>The set a cache represents, its best block and its invariant, from those of its base.\<close>

definition cache_utxo :: "('b \<Rightarrow> utxo) \<Rightarrow> 'b CCoinsViewCache \<Rightarrow> utxo" where
  "cache_utxo utxo_of c = (\<lambda>k. case map_of (cacheCoins c) k of
     Some e \<Rightarrow> unspent (entry_coin e) | None \<Rightarrow> utxo_of (cache_base c) k)"

definition cache_best :: "('b \<Rightarrow> uint256) \<Rightarrow> 'b CCoinsViewCache \<Rightarrow> uint256" where
  "cache_best best_of c = (if cache_hashBlock c = 0 then best_of (cache_base c) else cache_hashBlock c)"

definition cache_inv :: "('b \<Rightarrow> bool) \<Rightarrow> ('b \<Rightarrow> utxo) \<Rightarrow> 'b CCoinsViewCache \<Rightarrow> bool" where
  "cache_inv base_inv utxo_of c \<longleftrightarrow> base_inv (cache_base c) \<and> entries_ok (utxo_of (cache_base c)) (cacheCoins c)"

lemma cache_inv_entry:
  "cache_inv base_inv utxo_of c \<Longrightarrow> map_of (cacheCoins c) k = Some e \<Longrightarrow> entry_ok (utxo_of (cache_base c)) k e"
  by (simp add: cache_inv_def entries_ok_iff)

lemma entries_ok_put:
  "entries_ok u m \<Longrightarrow> entry_ok u k e \<Longrightarrow> entries_ok u (AList.update k e m)"
  by (simp add: entries_ok_iff)

lemma entries_ok_erase: "entries_ok u m \<Longrightarrow> entries_ok u (AList.delete k m)"
  by (simp add: entries_ok_iff)

text \<open>One entry written to the map of a cache over the set \<open>u\<close>.\<close>

definition layer :: "utxo \<Rightarrow> CCoinsMap \<Rightarrow> utxo" where
  "layer u m = (\<lambda>k. case map_of m k of Some e \<Rightarrow> unspent (entry_coin e) | None \<Rightarrow> u k)"

lemma cache_utxo_layer: "cache_utxo utxo_of c = layer (utxo_of (cache_base c)) (cacheCoins c)"
  by (simp add: cache_utxo_def layer_def)

lemma layer_put [simp]: "layer u (AList.update k e m) = (layer u m)(k := unspent (entry_coin e))"
  by (auto simp: layer_def fun_eq_iff)

lemma layer_erase [simp]: "layer u (AList.delete k m) = (layer u m)(k := u k)"
  by (auto simp: layer_def fun_eq_iff)

lemma batch_entry_ok:
  assumes m: "entries_ok u m" and e: "is_fresh e \<longrightarrow> layer u m k = None"
  shows "\<exists>m'. batch_entry k e m = Inr m' \<and> entries_ok u m' \<and>
    layer u m' = (if is_dirty e then (layer u m)(k := unspent (entry_coin e)) else layer u m)"
proof (cases "map_of m k")
  case None
  then have l: "layer u m k = u k" by (simp add: layer_def)
  show ?thesis
  proof (cases "is_dirty e \<and> \<not> (is_fresh e \<and> IsSpent (entry_coin e))")
    case True
    with None e l show ?thesis
      by (auto simp: batch_entry_def entry_ok_def is_dirty_def [of "\<lparr>entry_coin = _, entry_flags = _\<rparr>"]
          is_fresh_def [of "\<lparr>entry_coin = _, entry_flags = _\<rparr>"] intro!: entries_ok_put [OF m])
  next
    case False
    with None e l m show ?thesis by (auto simp: batch_entry_def fun_eq_iff)
  qed
next
  case (Some us)
  then have l: "layer u m k = unspent (entry_coin us)" by (simp add: layer_def)
  have us: "entry_ok u k us" using m Some by (simp add: entries_ok_iff)
  show ?thesis
  proof (cases "is_dirty e")
    case False
    with m show ?thesis by (simp add: batch_entry_def)
  next
    case True
    show ?thesis
    proof (cases "is_fresh us \<and> IsSpent (entry_coin e)")
      case erase: True
      with True Some e l us show ?thesis
        by (auto simp: batch_entry_def entry_ok_def entries_ok_erase [OF m] fun_eq_iff)
    next
      case False
      have "entry_ok u k \<lparr>entry_coin = entry_coin e, entry_flags = entry_flags us OR DIRTY\<rparr>"
        using us by (simp add: entry_ok_def is_dirty_def is_fresh_def)
      with True False Some e l show ?thesis
        by (auto simp: batch_entry_def intro!: entries_ok_put [OF m])
    qed
  qed
qed

lemma batch_entries_ok:
  "entries_ok u m \<Longrightarrow> entries_ok (layer u m) xs \<Longrightarrow>
    \<exists>m'. batch_entries xs m = Inr m' \<and> entries_ok u m' \<and> layer u m' = apply_entries xs (layer u m)"
proof (induction xs arbitrary: m)
  case (Cons x xs)
  obtain k e where x: "x = (k, e)" by (cases x)
  have k: "k \<notin> set (map fst xs)" and xs: "entries_ok (layer u m) xs" and e: "is_fresh e \<longrightarrow> layer u m k = None"
    using Cons.prems(2) by (auto simp: entries_ok_def x entry_ok_def)
  obtain m1 where m1: "batch_entry k e m = Inr m1" "entries_ok u m1"
      "layer u m1 = (if is_dirty e then (layer u m)(k := unspent (entry_coin e)) else layer u m)"
    using batch_entry_ok [OF Cons.prems(1) e] by blast
  have "layer u m1 k' = layer u m k'" if "k' \<in> set (map fst xs)" for k'
    using that k m1(3) by auto
  then have "entries_ok (layer u m1) xs"
    using xs by (fastforce simp: entries_ok_def entry_ok_def image_iff)
  from Cons.IH [OF m1(2) this] obtain m' where "batch_entries xs m1 = Inr m'" "entries_ok u m'"
    "layer u m' = apply_entries xs (layer u m1)" by blast
  with m1 x show ?case by (auto simp:)
qed simp

context coins_view
begin

abbreviation cutxo :: "'b CCoinsViewCache \<Rightarrow> utxo" where "cutxo \<equiv> cache_utxo utxo_of"
abbreviation cinv :: "'b CCoinsViewCache \<Rightarrow> bool" where "cinv \<equiv> cache_inv base_inv utxo_of"
abbreviation cbest :: "'b CCoinsViewCache \<Rightarrow> uint256" where "cbest \<equiv> cache_best best_of"

lemma FetchCoin_ok:
  assumes c: "cinv c" and f: "FetchCoin V k c = (r, c')"
  shows "cutxo c' = cutxo c" "cbest c' = cbest c" "cinv c'" "map_of (cacheCoins c') k = r"
    "cutxo c k = Option.bind r (\<lambda>e. unspent (entry_coin e))"
proof -
  have "cutxo c' = cutxo c \<and> cbest c' = cbest c \<and> cinv c' \<and> map_of (cacheCoins c') k = r \<and>
    cutxo c k = Option.bind r (\<lambda>e. unspent (entry_coin e))"
  proof (cases "map_of (cacheCoins c) k")
    case (Some e)
    with c f show ?thesis by (auto simp: FetchCoin_def cache_utxo_def split: option.splits)
  next
    case None
    obtain g b where g: "view_GetCoin V k (cache_base c) = (g, b)" by fastforce
    have b: "g = utxo_of (cache_base c) k" "utxo_of b = utxo_of (cache_base c)"
      "best_of b = best_of (cache_base c)" "base_inv b"
      using get_coin [OF _ g] c by (auto simp: cache_inv_def)
    show ?thesis
    proof (cases g)
      case None
      then have "r = None" "c' = c\<lparr>cache_base := b\<rparr>" "layer (utxo_of (cache_base c)) (cacheCoins c) k = None"
        using \<open>map_of (cacheCoins c) k = None\<close> g f b(1) by (auto simp: FetchCoin_def layer_def)
      with \<open>map_of (cacheCoins c) k = None\<close> b c show ?thesis
        by (simp add: cache_utxo_layer cache_best_def cache_inv_def)
    next
      case (Some tmp)
      then have "\<not> IsSpent tmp" using utxo_unspent b(1) c by (auto simp: cache_inv_def)
      then have "entry_ok (utxo_of (cache_base c)) k \<lparr>entry_coin = tmp, entry_flags = 0\<rparr>"
        using Some b(1) by (simp add: entry_ok_def is_dirty_def is_fresh_def unspent_def)
      moreover have "layer (utxo_of (cache_base c)) (cacheCoins c) k = unspent tmp"
        using \<open>map_of (cacheCoins c) k = None\<close> Some b(1) \<open>\<not> IsSpent tmp\<close> by (simp add: layer_def unspent_def)
      moreover have "r = Some \<lparr>entry_coin = tmp, entry_flags = 0\<rparr>" "c' = c\<lparr>cache_base := b,
          cacheCoins := AList.update k \<lparr>entry_coin = tmp, entry_flags = 0\<rparr> (cacheCoins c)\<rparr>"
        using \<open>map_of (cacheCoins c) k = None\<close> g f Some \<open>\<not> IsSpent tmp\<close> by (auto simp: FetchCoin_def Let_def)
      ultimately show ?thesis
        using b c by (simp add: cache_utxo_layer cache_best_def cache_inv_def entries_ok_put fun_upd_idem)
    qed
  qed
  then show "cutxo c' = cutxo c" "cbest c' = cbest c" "cinv c'" "map_of (cacheCoins c') k = r"
    "cutxo c k = Option.bind r (\<lambda>e. unspent (entry_coin e))" by auto
qed

lemma GetCoin_ok:
  assumes "cinv c" "Cache_GetCoin V k c = (r, c')"
  shows "r = cutxo c k \<and> cutxo c' = cutxo c \<and> cbest c' = cbest c \<and> cinv c'"
proof -
  obtain e c1 where f: "FetchCoin V k c = (e, c1)" by fastforce
  with FetchCoin_ok [OF assms(1) f] assms(2) show ?thesis
    by (cases e) (auto simp: Cache_GetCoin_def unspent_def)
qed

lemma HaveCoin_ok:
  assumes "cinv c" "HaveCoin V k c = (r, c')"
  shows "r \<longleftrightarrow> cutxo c k \<noteq> None" "cutxo c' = cutxo c" "cbest c' = cbest c" "cinv c'"
proof -
  obtain e c1 where f: "FetchCoin V k c = (e, c1)" by fastforce
  with FetchCoin_ok [OF assms(1) f] assms(2)
  show "r \<longleftrightarrow> cutxo c k \<noteq> None" "cutxo c' = cutxo c" "cbest c' = cbest c" "cinv c'"
    by (cases e; auto simp: HaveCoin_def unspent_def)+
qed

lemma AccessCoin_ok:
  assumes "cinv c" "AccessCoin V k c = (r, c')"
  shows "unspent r = cutxo c k" "cutxo c' = cutxo c" "cbest c' = cbest c" "cinv c'"
proof -
  obtain e c1 where f: "FetchCoin V k c = (e, c1)" by fastforce
  with FetchCoin_ok [OF assms(1) f] assms(2)
  show "unspent r = cutxo c k" "cutxo c' = cutxo c" "cbest c' = cbest c" "cinv c'"
    by (cases e; auto simp: AccessCoin_def)+
qed

lemma AddCoin_ok:
  assumes c: "cinv c" and coin: "\<not> IsSpent coin"
    and ow: "\<not> possible_overwrite \<longrightarrow> cutxo c k = None"
  shows "\<exists>c'. AddCoin k coin possible_overwrite c = Inr c' \<and> cinv c' \<and> cbest c' = cbest c \<and>
    cutxo c' = (if IsUnspendable (out_scriptPubKey (coin_out coin)) then cutxo c else (cutxo c)(k \<mapsto> coin))"
proof (cases "IsUnspendable (out_scriptPubKey (coin_out coin))")
  case True
  with c coin show ?thesis by (simp add: AddCoin_def)
next
  case False
  define old where "old = (case map_of (cacheCoins c) k of
    Some e \<Rightarrow> e | None \<Rightarrow> \<lparr>entry_coin = Coin_Clear, entry_flags = 0\<rparr>)"
  define e where "e = \<lparr>entry_coin = coin, entry_flags = entry_flags old OR
    (DIRTY OR (if \<not> possible_overwrite \<and> \<not> is_dirty old then FRESH else 0))\<rparr>"
  let ?u = "utxo_of (cache_base c)"
  have old: "\<not> possible_overwrite \<longrightarrow> IsSpent (entry_coin old)"
    using ow by (auto simp: old_def cache_utxo_def split: option.splits)
  have fresh: "is_fresh old \<Longrightarrow> ?u k = None"
    using cache_inv_entry [OF c, of k] by (auto simp: old_def entry_ok_def is_fresh_def split: option.splits)
  have clean: "?u k = None" if "\<not> possible_overwrite" "\<not> is_dirty old"
    using that ow old cache_inv_entry [OF c, of k]
    by (auto simp: old_def entry_ok_def cache_utxo_def split: option.splits)
  have "entry_ok ?u k e"
    using fresh clean by (auto simp: e_def entry_ok_def is_dirty_def is_fresh_def)
  moreover have "AddCoin k coin possible_overwrite c = Inr (c\<lparr>cacheCoins := AList.update k e (cacheCoins c)\<rparr>)"
    using old coin False by (auto simp: AddCoin_def Let_def old_def [symmetric] e_def)
  ultimately show ?thesis
    using c coin False by (auto simp: cache_inv_def cache_best_def cache_utxo_layer entries_ok_put e_def unspent_def)
qed

lemma SpendCoin_ok:
  assumes c: "cinv c" and s: "SpendCoin V k c = (r, c')"
  shows "cinv c'" "cbest c' = cbest c" "cutxo c' = (cutxo c)(k := None)" "Option.bind r unspent = cutxo c k"
proof -
  obtain e c1 where f: "FetchCoin V k c = (e, c1)" by fastforce
  note ok = FetchCoin_ok [OF c f]
  have ent: "entries_ok (utxo_of (cache_base c1)) (cacheCoins c1)" "base_inv (cache_base c1)"
    using ok(3) by (auto simp: cache_inv_def)
  have "cinv c' \<and> cbest c' = cbest c \<and> cutxo c' = (cutxo c)(k := None) \<and> Option.bind r unspent = cutxo c k"
  proof (cases e)
    case None
    with f s ok show ?thesis by (auto simp: SpendCoin_def fun_eq_iff)
  next
    case (Some x)
    have x: "entry_ok (utxo_of (cache_base c1)) k x"
      using ok(3,4) Some cache_inv_entry by blast
    show ?thesis
    proof (cases "is_fresh x")
      case True
      then show ?thesis
        using f s ok(1,2,5) ent Some x
        by (auto simp: SpendCoin_def cache_inv_def cache_best_def cache_utxo_layer entries_ok_erase
            entry_ok_def)
    next
      case False
      then have "entry_ok (utxo_of (cache_base c1)) k
          \<lparr>entry_coin = Coin_Clear, entry_flags = entry_flags x OR DIRTY\<rparr>"
        by (simp add: entry_ok_def is_dirty_def is_fresh_def)
      with False show ?thesis
        using f s ok(1,2,5) ent Some
        by (auto simp: SpendCoin_def cache_inv_def cache_best_def cache_utxo_layer entries_ok_put)
    qed
  qed
  then show "cinv c'" "cbest c' = cbest c" "cutxo c' = (cutxo c)(k := None)"
    "Option.bind r unspent = cutxo c k" by auto
qed

lemma Uncache_ok:
  assumes c: "cinv c"
  shows "cinv (Uncache k c)" "cbest (Uncache k c) = cbest c" "cutxo (Uncache k c) = cutxo c"
proof -
  have "utxo_of (cache_base c) k = unspent (entry_coin e)"
    if "map_of (cacheCoins c) k = Some e" "entry_flags e = 0" for e
    using cache_inv_entry [OF c that(1)] that(2) by (simp add: entry_ok_def is_dirty_def)
  then show "cinv (Uncache k c)" "cbest (Uncache k c) = cbest c" "cutxo (Uncache k c) = cutxo c"
    using c by (auto simp: Uncache_def cache_inv_def cache_best_def cache_utxo_layer entries_ok_erase
        layer_def fun_eq_iff split: option.splits)
qed

lemma BatchWrite_ok:
  assumes c: "cinv c" and xs: "entries_ok (cutxo c) xs" and h: "h \<noteq> 0"
  shows "\<exists>c'. Cache_BatchWrite xs h c = Inr c' \<and> cinv c' \<and> cbest c' = h \<and> cutxo c' = apply_entries xs (cutxo c)"
proof -
  obtain m' where m': "batch_entries xs (cacheCoins c) = Inr m'" "entries_ok (utxo_of (cache_base c)) m'"
    "layer (utxo_of (cache_base c)) m' = apply_entries xs (cutxo c)"
    using batch_entries_ok [of "utxo_of (cache_base c)" "cacheCoins c" xs] c xs
    by (auto simp: cache_inv_def cache_utxo_layer)
  with c h show ?thesis
    by (simp add: Cache_BatchWrite_def cache_inv_def cache_best_def cache_utxo_layer)
qed

lemma Flush_ok:
  assumes c: "cinv c" and h: "cache_hashBlock c \<noteq> 0"
  shows "\<exists>c'. Flush V c = Inr c' \<and> cinv c' \<and> cacheCoins c' = [] \<and>
    utxo_of (cache_base c') = cutxo c \<and> best_of (cache_base c') = cbest c \<and> cutxo c' = cutxo c"
proof -
  have ent: "entries_ok (utxo_of (cache_base c)) (cacheCoins c)" "base_inv (cache_base c)"
    using c by (auto simp: cache_inv_def)
  obtain b where b: "view_BatchWrite V (cacheCoins c) (cache_hashBlock c) (cache_base c) = Inr b" "base_inv b"
    "best_of b = cache_hashBlock c" "utxo_of b = apply_entries (cacheCoins c) (utxo_of (cache_base c))"
    using batch_write [OF ent(2,1) h] by blast
  have "apply_entries (cacheCoins c) (utxo_of (cache_base c)) k = cutxo c k" for k
    using ent(1) cache_inv_entry [OF c, of k]
    by (auto simp: apply_entries_nth entries_ok_iff cache_utxo_def entry_ok_def split: option.splits)
  then have "utxo_of b = cutxo c" using b(4) by auto
  with b h show ?thesis
    by (auto simp: Flush_def cache_inv_def entries_ok_def cache_best_def cache_utxo_def)
qed

text \<open>A cache over a view is a view.\<close>

lemma cache_view: "coins_view (CacheView V) cutxo cbest cinv"
proof
  fix c k coin assume "cinv c" "cutxo c k = Some coin"
  then show "\<not> IsSpent coin"
    using utxo_unspent by (auto simp: cache_utxo_def cache_inv_def split: option.splits)
next
  fix c k r c' assume "cinv c" "view_GetCoin (CacheView V) k c = (r, c')"
  then show "r = cutxo c k \<and> cutxo c' = cutxo c \<and> cbest c' = cbest c \<and> cinv c'"
    using GetCoin_ok by (simp add: CacheView_def)
next
  fix c h c' assume c: "cinv c" "view_GetBestBlock (CacheView V) c = (h, c')"
  obtain h' b where g: "view_GetBestBlock V (cache_base c) = (h', b)" by fastforce
  show "h = cbest c \<and> cutxo c' = cutxo c \<and> cbest c' = cbest c \<and> cinv c'"
    using get_best [OF _ g] g c
    by (auto simp: CacheView_def Cache_GetBestBlock_def cache_best_def cache_utxo_layer cache_inv_def split: if_splits)
next
  fix c xs h assume "cinv c" "entries_ok (cutxo c) xs" "h \<noteq> (0 :: uint256)"
  then show "\<exists>c'. view_BatchWrite (CacheView V) xs h c = Inr c' \<and> cinv c' \<and> cbest c' = h \<and>
      cutxo c' = apply_entries xs (cutxo c)"
    using BatchWrite_ok by (simp add: CacheView_def)
qed

end

section \<open>The database is a view\<close>

definition db_best :: "CoinsDB \<Rightarrow> uint256" where
  "db_best db = (case db_best_block db of None \<Rightarrow> 0 | Some h \<Rightarrow> h)"

definition db_inv :: "CoinsDB \<Rightarrow> bool" where
  "db_inv db \<longleftrightarrow> (\<forall>k coin. db_coin db k = Some coin \<longrightarrow> \<not> IsSpent coin) \<and> db_head_blocks db = None"

definition db_ops :: "CCoinsMap \<Rightarrow> db_op list" where
  "db_ops xs = concat (map (\<lambda>(k, e). db_entry_ops k e) xs)"

lemma WriteBatch_append [simp]: "WriteBatch (xs @ ys) db = WriteBatch ys (WriteBatch xs db)"
  by (simp add: WriteBatch_def)

lemma WriteBatch_simps [simp]:
  "WriteBatch [] db = db" "WriteBatch (x # xs) db = WriteBatch xs (apply_db_op x db)"
  by (simp_all add: WriteBatch_def)

lemma db_write_loop_WriteBatch:
  "db_write_loop est n xs batch db = (written, db', batch') \<Longrightarrow>
    WriteBatch batch' db' = WriteBatch (db_ops xs) (WriteBatch batch db)"
  by (induction est n xs batch db arbitrary: written rule: db_write_loop.induct)
    (auto simp: db_ops_def Let_def split: if_splits prod.splits)

lemma db_entry_ops_marker [simp]:
  "db_best_block (WriteBatch (db_entry_ops k e) db) = db_best_block db"
  "db_head_blocks (WriteBatch (db_entry_ops k e) db) = db_head_blocks db"
  by (simp_all add: db_entry_ops_def)

lemma db_ops_effect:
  "db_coin (WriteBatch (db_ops xs) db) = apply_entries xs (db_coin db) \<and>
   db_best_block (WriteBatch (db_ops xs) db) = db_best_block db \<and>
   db_head_blocks (WriteBatch (db_ops xs) db) = db_head_blocks db"
proof (induction xs arbitrary: db)
  case (Cons x xs)
  obtain k e where x: "x = (k, e)" by (cases x)
  have "db_coin (WriteBatch (db_entry_ops k e) db) =
      (if is_dirty e then (db_coin db)(k := unspent (entry_coin e)) else db_coin db)"
    by (simp add: db_entry_ops_def unspent_def)
  with Cons [of "WriteBatch (db_entry_ops k e) db"] x show ?case by (simp add: db_ops_def)
qed (simp add: db_ops_def)

lemma db_write_loop_marked:
  "db_write_loop est n xs batch db = (written, db', batch') \<Longrightarrow>
    db_best_block (WriteBatch batch db) = None \<and> db_head_blocks (WriteBatch batch db) = Some hs \<Longrightarrow>
    list_all (\<lambda>s. db_best_block s = None \<and> db_head_blocks s = Some hs) written"
  by (induction est n xs batch db arbitrary: written rule: db_write_loop.induct)
    (auto simp: Let_def split: if_splits prod.splits)

lemma unspent_apply_entries:
  "(\<And>k coin. u k = Some coin \<Longrightarrow> \<not> IsSpent coin) \<Longrightarrow> apply_entries xs u k = Some coin \<Longrightarrow> \<not> IsSpent coin"
proof (induction xs arbitrary: u)
  case (Cons x xs)
  obtain k' e where x: "x = (k', e)" by (cases x)
  show ?case
    by (rule Cons.IH [OF _ Cons.prems(2) [unfolded x apply_entries.simps]])
      (use Cons.prems(1) in \<open>auto split: if_splits\<close>)
qed simp

lemma DB_BatchWrite_Inr:
  assumes "db_head_blocks db = None" "h \<noteq> 0"
  obtains written db' where "DB_BatchWrite_trace est n xs h db = Inr (written, db')"
    and "db_coin db' = apply_entries xs (db_coin db)" "db_best_block db' = Some h" "db_head_blocks db' = None"
    and "list_all (\<lambda>s. db_best_block s = None \<and> db_head_blocks s = Some [h, db_best db]) written"
proof -
  let ?batch = "[Erase_best_block, Write_head_blocks [h, db_best db]]"
  obtain written db1 batch where w: "db_write_loop est n xs ?batch db = (written, db1, batch)"
    by (metis prod_cases3)
  let ?db' = "WriteBatch (batch @ [Erase_head_blocks, Write_best_block h]) db1"
  have "DB_BatchWrite_trace est n xs h db = Inr (written, ?db')"
    using assms w by (simp add: DB_BatchWrite_trace_def Let_def DB_GetBestBlock_def GetHeadBlocks_def db_best_def)
  moreover have "db_coin ?db' = apply_entries xs (db_coin db)"
    "db_best_block ?db' = Some h" "db_head_blocks ?db' = None"
    using db_ops_effect [of xs "WriteBatch ?batch db"] db_write_loop_WriteBatch [OF w] by simp_all
  moreover have "list_all (\<lambda>s. db_best_block s = None \<and> db_head_blocks s = Some [h, db_best db]) written"
    by (rule db_write_loop_marked [OF w]) simp
  ultimately show thesis using that by blast
qed

interpretation db: coins_view "CCoinsViewDB est n" db_coin db_best db_inv for est n
proof
  fix b xs and h :: uint256 assume b: "db_inv b" "entries_ok (db_coin b) xs" "h \<noteq> 0"
  obtain written b' where b': "DB_BatchWrite_trace est n xs h b = Inr (written, b')"
    "db_coin b' = apply_entries xs (db_coin b)" "db_best_block b' = Some h" "db_head_blocks b' = None"
  proof (rule DB_BatchWrite_Inr [of b h est n xs])
    show "db_head_blocks b = None" "h \<noteq> 0" using b by (auto simp: db_inv_def)
  qed
  moreover have "db_inv b'"
    unfolding db_inv_def b'(2,4)
    using b(1) unspent_apply_entries [of "db_coin b" xs] unfolding db_inv_def by blast
  ultimately show "\<exists>b'. view_BatchWrite (CCoinsViewDB est n) xs h b = Inr b' \<and> db_inv b' \<and> db_best b' = h \<and>
      db_coin b' = apply_entries xs (db_coin b)"
    by (simp add: CCoinsViewDB_def DB_BatchWrite_def db_best_def)
qed (auto simp: db_inv_def CCoinsViewDB_def DB_GetCoin_def DB_GetBestBlock_def db_best_def)

text \<open>The cache over the database (\<^verbatim>\<open>pcoinsTip\<close>), and one more cache over it.\<close>

interpretation tip: coins_view "CacheView (CCoinsViewDB est n)" "cache_utxo db_coin" "cache_best db_best"
  "cache_inv db_inv db_coin" for est n
  by (rule db.cache_view)

text \<open>
  C9. Writing the cache to the database is crash consistent: a write succeeds, and while
  it is in progress, however the entries are cut into batches, every database on disk says
  that it is between the old best block and the new one. Only the last batch, atomically,
  names the new best block, and the coins are then exactly the old ones with the dirty
  entries applied.
\<close>

theorem DB_BatchWrite_crash_consistent:
  assumes "db_head_blocks db = None" and "hashBlock \<noteq> 0"
  shows "\<exists>written db'. DB_BatchWrite_trace est batch_size mapCoins hashBlock db = Inr (written, db') \<and>
    list_all (\<lambda>s. db_best_block s = None \<and> GetHeadBlocks s = [hashBlock, fst (DB_GetBestBlock db)]) written \<and>
    db_best_block db' = Some hashBlock \<and> GetHeadBlocks db' = [] \<and>
    db_coin db' = apply_entries mapCoins (db_coin db)"
proof -
  obtain written db' where "DB_BatchWrite_trace est batch_size mapCoins hashBlock db = Inr (written, db')"
    and "db_coin db' = apply_entries mapCoins (db_coin db)" "db_best_block db' = Some hashBlock" "db_head_blocks db' = None"
    and "list_all (\<lambda>s. db_best_block s = None \<and> db_head_blocks s = Some [hashBlock, db_best db]) written"
    using DB_BatchWrite_Inr [OF assms] by blast
  then show ?thesis
    by (auto simp: GetHeadBlocks_def DB_GetBestBlock_def db_best_def list_all_iff)
qed

definition empty_db :: CoinsDB where
  "empty_db = \<lparr>db_coin = \<lambda>_. None, db_best_block = None, db_head_blocks = None\<rparr>"

theorem DB_BatchWrite_crash_consistent_witness:
  "\<exists>written db'. DB_BatchWrite_trace length 0 [] 7 empty_db = Inr (written, db') \<and>
    db_best_block db' = Some 7"
  using DB_BatchWrite_crash_consistent [of empty_db 7 length 0 "[]"] by (auto simp: empty_db_def)

section \<open>Refinement of a map by a stack of caches\<close>

text \<open>Operations on a cache, in any order, and what they mean on the set of unspent coins.\<close>

datatype cache_op = Get_op COutPoint | Add_op COutPoint Coin bool | Spend_op COutPoint
  | Uncache_op COutPoint | Best_op uint256 | Flush_op

fun cache_step ::
  "'b CCoinsView \<Rightarrow> cache_op \<Rightarrow> 'b CCoinsViewCache \<Rightarrow> coins_error + Coin option \<times> 'b CCoinsViewCache" where
  "cache_step V (Get_op k) c = Inr (Cache_GetCoin V k c)"
| "cache_step V (Add_op k coin ow) c = bind_res (AddCoin k coin ow c) (\<lambda>c'. Inr (None, c'))"
| "cache_step V (Spend_op k) c = (case SpendCoin V k c of (r, c') \<Rightarrow> Inr (Option.bind r unspent, c'))"
| "cache_step V (Uncache_op k) c = Inr (None, Uncache k c)"
| "cache_step V (Best_op h) c = Inr (None, SetBestBlock h c)"
| "cache_step V Flush_op c = bind_res (Flush V c) (\<lambda>c'. Inr (None, c'))"

fun cache_run ::
  "'b CCoinsView \<Rightarrow> cache_op list \<Rightarrow> 'b CCoinsViewCache \<Rightarrow> coins_error + Coin option list \<times> 'b CCoinsViewCache" where
  "cache_run V [] c = Inr ([], c)"
| "cache_run V (x # xs) c =
     bind_res (cache_step V x c) (\<lambda>(r, c1). bind_res (cache_run V xs c1) (\<lambda>(rs, c2). Inr (r # rs, c2)))"

fun spec_step :: "cache_op \<Rightarrow> utxo \<Rightarrow> Coin option \<times> utxo" where
  "spec_step (Get_op k) u = (u k, u)"
| "spec_step (Add_op k coin ow) u =
     (None, if IsUnspendable (out_scriptPubKey (coin_out coin)) then u else u(k \<mapsto> coin))"
| "spec_step (Spend_op k) u = (u k, u(k := None))"
| "spec_step _ u = (None, u)"

fun spec_run :: "cache_op list \<Rightarrow> utxo \<Rightarrow> Coin option list \<times> utxo" where
  "spec_run [] u = ([], u)"
| "spec_run (x # xs) u = (let (r, u1) = spec_step x u; (rs, u2) = spec_run xs u1 in (r # rs, u2))"

text \<open>The documented preconditions: coins added are unspent and absent unless flagged.\<close>

fun op_ok :: "cache_op \<Rightarrow> utxo \<Rightarrow> bool" where
  "op_ok (Add_op k coin ow) u \<longleftrightarrow> \<not> IsSpent coin \<and> (ow \<or> u k = None)"
| "op_ok (Best_op h) u \<longleftrightarrow> h \<noteq> 0"
| "op_ok _ u \<longleftrightarrow> True"

fun ops_ok :: "cache_op list \<Rightarrow> utxo \<Rightarrow> bool" where
  "ops_ok [] u \<longleftrightarrow> True"
| "ops_ok (x # xs) u \<longleftrightarrow> op_ok x u \<and> ops_ok xs (snd (spec_step x u))"

lemma FetchCoin_hashBlock: "FetchCoin V k c = (r, c') \<Longrightarrow> cache_hashBlock c' = cache_hashBlock c"
  by (auto simp: FetchCoin_def Let_def split: option.splits prod.splits)

context coins_view
begin

lemma cache_step_ok:
  assumes c: "cinv c" "cache_hashBlock c \<noteq> 0" and x: "op_ok x (cutxo c)"
  shows "\<exists>r c'. cache_step V x c = Inr (r, c') \<and> cinv c' \<and> cache_hashBlock c' \<noteq> 0 \<and>
    (r, cutxo c') = spec_step x (cutxo c)"
proof (cases x)
  case (Get_op k)
  obtain r c' where g: "Cache_GetCoin V k c = (r, c')" by fastforce
  have "cache_hashBlock c' = cache_hashBlock c"
    using g FetchCoin_hashBlock [of V k c] by (auto simp: Cache_GetCoin_def split: prod.splits option.splits)
  with GetCoin_ok [OF c(1) g] c g Get_op show ?thesis by simp
next
  case (Add_op k coin ow)
  have coin: "\<not> IsSpent coin" "\<not> ow \<longrightarrow> cutxo c k = None" using x Add_op by auto
  obtain c' where c': "AddCoin k coin ow c = Inr c'" "cinv c'"
    "cutxo c' = (if IsUnspendable (out_scriptPubKey (coin_out coin)) then cutxo c else (cutxo c)(k \<mapsto> coin))"
    using AddCoin_ok [OF c(1) coin] by blast
  moreover have "cache_hashBlock c' = cache_hashBlock c"
    using c'(1) by (auto simp: AddCoin_def Let_def split: if_splits)
  ultimately show ?thesis using c(2) Add_op by simp
next
  case (Spend_op k)
  obtain r c' where s: "SpendCoin V k c = (r, c')" by fastforce
  have "cache_hashBlock c' = cache_hashBlock c"
    using s FetchCoin_hashBlock [of V k c] by (auto simp: SpendCoin_def split: prod.splits option.splits)
  with SpendCoin_ok [OF c(1) s] s c(2) Spend_op show ?thesis by simp
next
  case (Uncache_op k)
  with Uncache_ok [OF c(1)] c(2) show ?thesis
    by (simp add: Uncache_def split: option.splits)
next
  case (Best_op h)
  with c x show ?thesis by (simp add: SetBestBlock_def cache_inv_def cache_utxo_layer)
next
  case Flush_op
  obtain c' where c': "Flush V c = Inr c'" "cinv c'" "cutxo c' = cutxo c"
    using Flush_ok [OF c] by blast
  then have "cache_hashBlock c' = cache_hashBlock c"
    by (auto simp: Flush_def bind_res_Inr_conv split: sum.splits)
  with c c' Flush_op show ?thesis by simp
qed

lemma cache_run_ok:
  "cinv c \<Longrightarrow> cache_hashBlock c \<noteq> 0 \<Longrightarrow> ops_ok xs (cutxo c) \<Longrightarrow>
    \<exists>rs c'. cache_run V xs c = Inr (rs, c') \<and> cinv c' \<and> cache_hashBlock c' \<noteq> 0 \<and>
      (rs, cutxo c') = spec_run xs (cutxo c)"
proof (induction xs arbitrary: c)
  case (Cons x xs)
  obtain r c1 where c1: "cache_step V x c = Inr (r, c1)" "cinv c1" "cache_hashBlock c1 \<noteq> 0"
    "spec_step x (cutxo c) = (r, cutxo c1)"
    using cache_step_ok [OF Cons.prems(1,2), of x] Cons.prems(3) by fastforce
  obtain rs c2 where "cache_run V xs c1 = Inr (rs, c2)" "cinv c2" "cache_hashBlock c2 \<noteq> 0"
    "spec_run xs (cutxo c1) = (rs, cutxo c2)"
    using Cons.IH [OF c1(2,3)] Cons.prems(3) c1(4) by fastforce
  with c1 show ?case by simp
qed simp

lemma cache_run_Flush:
  assumes "cinv c" "cache_hashBlock c \<noteq> 0" "ops_ok xs (cutxo c)"
  shows "\<exists>rs c' c''. cache_run V xs c = Inr (rs, c') \<and> Flush V c' = Inr c'' \<and>
    (rs, utxo_of (cache_base c'')) = spec_run xs (cutxo c)"
proof -
  obtain rs c' where c': "cache_run V xs c = Inr (rs, c')" "cinv c'" "cache_hashBlock c' \<noteq> 0"
    "(rs, cutxo c') = spec_run xs (cutxo c)"
    using cache_run_ok [OF assms] by blast
  with Flush_ok [OF c'(2,3)] show ?thesis by auto
qed

end

text \<open>
  C4. A stack of coin caches refines a plain map: on a cache over a cache over the database,
  any sequence of lookups, additions, spends, evictions and flushes that respects the
  documented precondition of \<^verbatim>\<open>AddCoin\<close> raises no error, returns what the same
  operations return on a map from outpoints to coins, and a final \<^verbatim>\<open>Flush\<close> leaves
  exactly that map in the cache below.
\<close>

theorem coins_cache_refinement:
  assumes "cache_inv (cache_inv db_inv db_coin) (cache_utxo db_coin) c" and "cache_hashBlock c \<noteq> 0"
    and "ops_ok xs (cache_utxo (cache_utxo db_coin) c)"
  shows "\<exists>rs c' c''. cache_run (CacheView (CCoinsViewDB est n)) xs c = Inr (rs, c') \<and>
    Flush (CacheView (CCoinsViewDB est n)) c' = Inr c'' \<and>
    (rs, cache_utxo db_coin (cache_base c'')) = spec_run xs (cache_utxo (cache_utxo db_coin) c)"
  using assms by (rule tip.cache_run_Flush)

definition sample_coin :: Coin where
  "sample_coin = \<lparr>coin_out = \<lparr>out_nValue = 5, out_scriptPubKey = []\<rparr>, coin_fCoinBase = False,
     coin_fCoinStake = False, coin_nHeight = 3\<rparr>"

theorem coins_cache_refinement_witness:
  "let c = SetBestBlock 1 (new_cache (new_cache empty_db));
       xs = [Add_op COutPoint_null sample_coin False, Flush_op, Spend_op COutPoint_null, Get_op COutPoint_null]
   in \<exists>rs c' c''. cache_run (CacheView (CCoinsViewDB length 0)) xs c = Inr (rs, c') \<and>
        Flush (CacheView (CCoinsViewDB length 0)) c' = Inr c'' \<and> rs = [None, None, Some sample_coin, None]"
proof -
  let ?c = "SetBestBlock 1 (new_cache (new_cache empty_db))"
  let ?xs = "[Add_op COutPoint_null sample_coin False, Flush_op, Spend_op COutPoint_null, Get_op COutPoint_null]"
  have u: "cache_utxo (cache_utxo db_coin) ?c = Map.empty"
    by (simp add: SetBestBlock_def new_cache_def cache_utxo_def empty_db_def)
  have "cache_inv (cache_inv db_inv db_coin) (cache_utxo db_coin) ?c" "cache_hashBlock ?c \<noteq> 0"
    by (simp_all add: SetBestBlock_def new_cache_def cache_inv_def entries_ok_def db_inv_def empty_db_def)
  moreover have "ops_ok ?xs Map.empty" "fst (spec_run ?xs Map.empty) = [None, None, Some sample_coin, None]"
    by (simp_all add: sample_coin_def IsSpent_def CTxOut_IsNull_def IsUnspendable_def MAX_SCRIPT_SIZE_def)
  ultimately show ?thesis
    unfolding Let_def
    using coins_cache_refinement [of ?c ?xs length 0] unfolding u by (metis fst_conv)
qed

end
