(* ===== verification/Utxo.thy ===== *)
theory Utxo
  imports Coins
begin

text \<open>
  How \<^verbatim>\<open>src/validation.cpp\<close> changes the unspent output set: \<^verbatim>\<open>UpdateCoins\<close> and the undo
  data it records, \<^verbatim>\<open>ApplyTxInUndo\<close>, and the part of \<^verbatim>\<open>DisconnectBlock\<close> that works on
  the coins view. The address, event and stake indexes that \<^verbatim>\<open>DisconnectBlock\<close> also
  erases, and the contract state roots it resets, are not part of this state. The undo data
  is an argument: reading it from disk is not modelled.
\<close>

section \<open>Definitions\<close>

datatype DisconnectResult = DISCONNECT_OK | DISCONNECT_UNCLEAN | DISCONNECT_FAILED

fun spend_inputs ::
  "'b CCoinsView \<Rightarrow> CTxIn list \<Rightarrow> 'b CCoinsViewCache \<Rightarrow> coins_error + Coin list \<times> 'b CCoinsViewCache" where
  "spend_inputs V [] c = Inr ([], c)"
| "spend_inputs V (txin # vin) c =
     (case SpendCoin V (in_prevout txin) c of
        (None, _) \<Rightarrow> Inl Assert_failed
      | (Some coin, c1) \<Rightarrow>
          bind_res (spend_inputs V vin c1) (\<lambda>(vprevout, c2). Inr (coin # vprevout, c2)))"

definition UpdateCoins ::
  "(bytes \<Rightarrow> uint256) \<Rightarrow> 'b CCoinsView \<Rightarrow> CTransaction \<Rightarrow> int \<Rightarrow> 'b CCoinsViewCache \<Rightarrow>
   coins_error + Coin list \<times> 'b CCoinsViewCache" where
  "UpdateCoins H V tx nHeight inputs =
     bind_res (if \<not> IsCoinBase tx then spend_inputs V (tx_vin tx) inputs else Inr ([], inputs))
       (\<lambda>(vprevout, c). bind_res (AddCoins H V tx nHeight False c) (\<lambda>c'. Inr (vprevout, c')))"

definition ApplyTxInUndo ::
  "'b CCoinsView \<Rightarrow> nat \<Rightarrow> Coin \<Rightarrow> COutPoint \<Rightarrow> 'b CCoinsViewCache \<Rightarrow>
   coins_error + DisconnectResult \<times> 'b CCoinsViewCache" where
  "ApplyTxInUndo V MAX_OUTPUTS_PER_BLOCK undo out view =
     (let (have, c) = HaveCoin V out view;
          fClean = (\<not> have);
          (undo', c) =
            (if coin_nHeight undo = 0 then
               let (alternate, c) = AccessByTxid V MAX_OUTPUTS_PER_BLOCK (outpoint_hash out) c
               in (if \<not> IsSpent alternate
                   then Some (undo\<lparr>coin_nHeight := coin_nHeight alternate, coin_fCoinBase := coin_fCoinBase alternate\<rparr>)
                   else None, c)
             else (Some undo, c))
      in case undo' of
           None \<Rightarrow> Inr (DISCONNECT_FAILED, c)
         | Some undo \<Rightarrow>
             bind_res (AddCoin out undo (\<not> fClean) c)
               (\<lambda>c. Inr (if fClean then DISCONNECT_OK else DISCONNECT_UNCLEAN, c)))"

text \<open>The outputs of a disconnected transaction: whether all matched, and the view.\<close>

fun disconnect_outputs ::
  "'b CCoinsView \<Rightarrow> uint256 \<Rightarrow> int \<Rightarrow> bool \<Rightarrow> bool \<Rightarrow> nat \<Rightarrow> CTxOut list \<Rightarrow> 'b CCoinsViewCache \<Rightarrow>
   bool \<times> 'b CCoinsViewCache" where
  "disconnect_outputs V hash nHeight is_coinbase is_coinstake i [] c = (True, c)"
| "disconnect_outputs V hash nHeight is_coinbase is_coinstake i (txout # vout) c =
     (if \<not> IsUnspendable (out_scriptPubKey txout) then
        let (r, c1) = SpendCoin V \<lparr>outpoint_hash = hash, outpoint_n = of_nat i\<rparr> c;
            coin = (case r of None \<Rightarrow> Coin_Clear | Some coin \<Rightarrow> coin);
            mismatch = (r = None \<or> txout \<noteq> coin_out coin \<or> nHeight \<noteq> uint (coin_nHeight coin) \<or>
              is_coinbase \<noteq> coin_fCoinBase coin \<or> is_coinstake \<noteq> coin_fCoinStake coin);
            (clean, c2) = disconnect_outputs V hash nHeight is_coinbase is_coinstake (i + 1) vout c1
        in (\<not> mismatch \<and> clean, c2)
      else disconnect_outputs V hash nHeight is_coinbase is_coinstake (i + 1) vout c)"

text \<open>The loop that restores inputs, last one first.\<close>

fun restore_inputs ::
  "'b CCoinsView \<Rightarrow> nat \<Rightarrow> (Coin \<times> CTxIn) list \<Rightarrow> bool \<Rightarrow> 'b CCoinsViewCache \<Rightarrow>
   coins_error + bool option \<times> 'b CCoinsViewCache" where
  "restore_inputs V mx [] fClean c = Inr (Some fClean, c)"
| "restore_inputs V mx ((undo, txin) # rest) fClean c =
     bind_res (ApplyTxInUndo V mx undo (in_prevout txin) c)
       (\<lambda>(res, c1). if res = DISCONNECT_FAILED then Inr (None, c1)
          else restore_inputs V mx rest (fClean \<and> res \<noteq> DISCONNECT_UNCLEAN) c1)"

text \<open>One round of the loop over the transactions; \<open>None\<close> is \<^verbatim>\<open>DISCONNECT_FAILED\<close>.\<close>

definition disconnect_tx ::
  "(bytes \<Rightarrow> uint256) \<Rightarrow> 'b CCoinsView \<Rightarrow> nat \<Rightarrow> int \<Rightarrow> CTransaction \<Rightarrow> Coin list option \<Rightarrow> bool \<Rightarrow>
   'b CCoinsViewCache \<Rightarrow> coins_error + bool option \<times> 'b CCoinsViewCache" where
  "disconnect_tx H V mx nHeight tx txundo fClean c =
     (let (clean, c1) = disconnect_outputs V (ComputeHash H tx) nHeight (IsCoinBase tx) (IsCoinStake tx)
            0 (tx_vout tx) c;
          fClean = (fClean \<and> clean)
      in case txundo of
           None \<Rightarrow> Inr (Some fClean, c1)
         | Some vprevout \<Rightarrow>
             if length vprevout \<noteq> length (tx_vin tx) then Inr (None, c1)
             else restore_inputs V mx (rev (zip vprevout (tx_vin tx))) fClean c1)"

fun disconnect_txs ::
  "(bytes \<Rightarrow> uint256) \<Rightarrow> 'b CCoinsView \<Rightarrow> nat \<Rightarrow> int \<Rightarrow> (CTransaction \<times> Coin list option) list \<Rightarrow> bool \<Rightarrow>
   'b CCoinsViewCache \<Rightarrow> coins_error + bool option \<times> 'b CCoinsViewCache" where
  "disconnect_txs H V mx nHeight [] fClean c = Inr (Some fClean, c)"
| "disconnect_txs H V mx nHeight ((tx, txundo) # rest) fClean c =
     bind_res (disconnect_tx H V mx nHeight tx txundo fClean c)
       (\<lambda>(r, c1). case r of
          None \<Rightarrow> Inr (None, c1)
        | Some fClean \<Rightarrow> disconnect_txs H V mx nHeight rest fClean c1)"

text \<open>\<open>hashBlock\<close> and \<open>hashPrev\<close> are the hashes of the block index and its predecessor.\<close>

definition DisconnectBlock ::
  "(bytes \<Rightarrow> uint256) \<Rightarrow> 'b CCoinsView \<Rightarrow> nat \<Rightarrow> int \<Rightarrow> uint256 \<Rightarrow> uint256 \<Rightarrow> CTransaction list \<Rightarrow>
   Coin list list \<Rightarrow> 'b CCoinsViewCache \<Rightarrow> coins_error + DisconnectResult \<times> 'b CCoinsViewCache" where
  "DisconnectBlock H V mx nHeight hashBlock hashPrev vtx vtxundo view =
     (let (best, c) = Cache_GetBestBlock V view in
      if hashBlock \<noteq> best then Inl Assert_failed
      else if length vtxundo + 1 \<noteq> length vtx then Inr (DISCONNECT_FAILED, c)
      else
        bind_res (disconnect_txs H V mx nHeight (rev (zip vtx (None # map Some vtxundo))) True c)
          (\<lambda>(r, c). case r of
             None \<Rightarrow> Inr (DISCONNECT_FAILED, c)
           | Some fClean \<Rightarrow>
               Inr (if fClean then DISCONNECT_OK else DISCONNECT_UNCLEAN, SetBestBlock hashPrev c)))"

text \<open>
  The coins part of \<^verbatim>\<open>ConnectBlock\<close>. The loop applies the transactions in order and
  records undo data for all but the first; a transaction with \<^verbatim>\<open>OP_COINSTAKE_CALL\<close> is
  passed over, and refused when it is not a coinstake. After the loop, the coinstake at
  index 1 of a proof-of-stake block is applied if it was passed over, with its undo data in
  front of the others. The checks that refuse a block and the contract execution are not
  part of this state.
\<close>

datatype connect_error = Coins_error coins_error | Bad_coinstake_call

definition lift_error :: "coins_error + 'a \<Rightarrow> connect_error + 'a" where
  "lift_error r = (case r of Inl e \<Rightarrow> Inl (Coins_error e) | Inr x \<Rightarrow> Inr x)"

fun connect_loop ::
  "(bytes \<Rightarrow> uint256) \<Rightarrow> 'b CCoinsView \<Rightarrow> int \<Rightarrow> nat \<Rightarrow> CTransaction list \<Rightarrow> Coin list list \<Rightarrow>
   'b CCoinsViewCache \<Rightarrow> connect_error + Coin list list \<times> 'b CCoinsViewCache" where
  "connect_loop H V nHeight i [] vtxundo view = Inr (vtxundo, view)"
| "connect_loop H V nHeight i (tx # vtx) vtxundo view =
     (if tx_HasOpCoinstakeCall tx then
        if \<not> IsCoinStake tx then Inl Bad_coinstake_call
        else connect_loop H V nHeight (i + 1) vtx vtxundo view
      else bind_res (lift_error (UpdateCoins H V tx nHeight view)) (\<lambda>(undo, view).
        connect_loop H V nHeight (i + 1) vtx (if i = 0 then vtxundo else vtxundo @ [undo]) view))"

definition ConnectBlock_coins ::
  "(bytes \<Rightarrow> uint256) \<Rightarrow> 'b CCoinsView \<Rightarrow> int \<Rightarrow> bool \<Rightarrow> CTransaction list \<Rightarrow> 'b CCoinsViewCache \<Rightarrow>
   connect_error + Coin list list \<times> 'b CCoinsViewCache" where
  "ConnectBlock_coins H V nHeight fProofOfStake vtx view =
     bind_res (connect_loop H V nHeight 0 vtx [] view) (\<lambda>(vtxundo, view).
       if fProofOfStake \<and> tx_HasOpCoinstakeCall (vtx ! 1) then
         bind_res (lift_error (UpdateCoins H V (vtx ! 1) nHeight view))
           (\<lambda>(undo, view). Inr (undo # vtxundo, view))
       else Inr (vtxundo, view))"

section \<open>Connecting and disconnecting on the abstract set\<close>

text \<open>The spendable outputs of a transaction from index \<open>i\<close> on, and its inputs.\<close>

fun outs_from :: "uint256 \<Rightarrow> (CTxOut \<Rightarrow> Coin) \<Rightarrow> nat \<Rightarrow> CTxOut list \<Rightarrow> (COutPoint \<times> Coin) list" where
  "outs_from txid mk i [] = []"
| "outs_from txid mk i (t # ts) =
     (if IsUnspendable (out_scriptPubKey t) then outs_from txid mk (i + 1) ts
      else (\<lparr>outpoint_hash = txid, outpoint_n = of_nat i\<rparr>, mk t) # outs_from txid mk (i + 1) ts)"

definition tx_coin :: "CTransaction \<Rightarrow> int \<Rightarrow> CTxOut \<Rightarrow> Coin" where
  "tx_coin tx h txout = \<lparr>coin_out = txout, coin_fCoinBase = IsCoinBase tx,
     coin_fCoinStake = IsCoinStake tx, coin_nHeight = of_int h\<rparr>"

lemma tx_coin_simps [simp]:
  "coin_out (tx_coin tx h t) = t" "coin_fCoinBase (tx_coin tx h t) = IsCoinBase tx"
  "coin_fCoinStake (tx_coin tx h t) = IsCoinStake tx" "coin_nHeight (tx_coin tx h t) = of_int h"
  by (simp_all add: tx_coin_def)

definition tx_outs :: "(bytes \<Rightarrow> uint256) \<Rightarrow> int \<Rightarrow> CTransaction \<Rightarrow> (COutPoint \<times> Coin) list" where
  "tx_outs H h tx = outs_from (ComputeHash H tx) (tx_coin tx h) 0 (tx_vout tx)"

definition tx_ins :: "CTransaction \<Rightarrow> COutPoint list" where
  "tx_ins tx = (if IsCoinBase tx then [] else map in_prevout (tx_vin tx))"

definition spec_tx :: "(bytes \<Rightarrow> uint256) \<Rightarrow> int \<Rightarrow> CTransaction \<Rightarrow> utxo \<Rightarrow> utxo" where
  "spec_tx H h tx u = (u |` (- set (tx_ins tx))) ++ map_of (tx_outs H h tx)"

definition spec_undo :: "CTransaction \<Rightarrow> utxo \<Rightarrow> Coin list" where
  "spec_undo tx u = map (\<lambda>k. the (u k)) (tx_ins tx)"

text \<open>
  A transaction that may be connected: it spends existing coins once each, recorded with
  their height, and its outputs are new.
\<close>

definition spendable :: "Coin \<Rightarrow> bool" where
  "spendable coin \<longleftrightarrow> \<not> IsSpent coin \<and> coin_nHeight coin \<noteq> 0 \<and>
     \<not> IsUnspendable (out_scriptPubKey (coin_out coin))"

definition connectable :: "(bytes \<Rightarrow> uint256) \<Rightarrow> int \<Rightarrow> CTransaction \<Rightarrow> utxo \<Rightarrow> bool" where
  "connectable H h tx u \<longleftrightarrow>
     distinct (tx_ins tx) \<and>
     list_all (\<lambda>k. case u k of None \<Rightarrow> False | Some coin \<Rightarrow> spendable coin) (tx_ins tx) \<and>
     list_all (\<lambda>(k, _). u k = None) (tx_outs H h tx) \<and>
     length (tx_vout tx) \<le> 2 ^ 32 \<and> list_all (\<lambda>t. \<not> CTxOut_IsNull t) (tx_vout tx)"

lemma outs_from_keys:
  "(k, x) \<in> set (outs_from txid mk i ts) \<Longrightarrow>
    \<exists>j. i \<le> j \<and> j < i + length ts \<and> k = \<lparr>outpoint_hash = txid, outpoint_n = of_nat j\<rparr>"
proof (induction ts arbitrary: i)
  case (Cons t ts)
  show ?case
  proof (cases "k = \<lparr>outpoint_hash = txid, outpoint_n = of_nat i\<rparr>")
    case True
    then show ?thesis by (intro exI [of _ i]) simp
  next
    case False
    with Cons.prems have "(k, x) \<in> set (outs_from txid mk (i + 1) ts)" by (auto split: if_splits)
    from Cons.IH [OF this] show ?thesis by (metis Suc_eq_plus1 Suc_leD add_Suc_shift length_Cons)
  qed
qed simp

lemma of_nat_uint32_inject:
  "i < 2 ^ 32 \<Longrightarrow> j < 2 ^ 32 \<Longrightarrow> (of_nat i :: uint32) = of_nat j \<longleftrightarrow> i = j"
  by (simp add: word_of_nat_eq_iff take_bit_nat_eq_self)

lemma outs_from_fresh:
  assumes "i + length ts < 2 ^ 32"
  shows "\<lparr>outpoint_hash = txid, outpoint_n = of_nat i\<rparr> \<notin> fst ` set (outs_from txid mk (i + 1) ts)"
proof
  assume "\<lparr>outpoint_hash = txid, outpoint_n = of_nat i\<rparr> \<in> fst ` set (outs_from txid mk (i + 1) ts)"
  then obtain x where "(\<lparr>outpoint_hash = txid, outpoint_n = of_nat i\<rparr>, x) \<in> set (outs_from txid mk (i + 1) ts)"
    by (elim imageE) (metis prod.collapse)
  from outs_from_keys [OF this] obtain j where "i + 1 \<le> j" "j < i + 1 + length ts" "(of_nat i :: uint32) = of_nat j"
    by (elim exE conjE) simp
  with assms of_nat_uint32_inject [of i j] show False by simp
qed

lemma distinct_outs_from:
  "i + length ts \<le> 2 ^ 32 \<Longrightarrow> distinct (map fst (outs_from txid mk i ts))"
proof (induction ts arbitrary: i)
  case (Cons t ts)
  with outs_from_fresh [of i ts txid mk] show ?case by simp
qed simp

lemma restrict_upd_None: "(u(k := None)) |` (- A) = u |` (- insert k A)"
  by (auto simp: restrict_map_def fun_eq_iff)

lemma restrict_map_add_new:
  "(\<And>k. k \<in> dom m \<Longrightarrow> u k = None) \<Longrightarrow> (u ++ m) |` (- dom m) = u"
  by (auto simp: restrict_map_def fun_eq_iff map_add_def split: option.splits)

context coins_view
begin

lemma spend_inputs_ok:
  "cinv c \<Longrightarrow> distinct (map in_prevout vin) \<Longrightarrow>
    (\<And>k. k \<in> in_prevout ` set vin \<Longrightarrow> cutxo c k \<noteq> None) \<Longrightarrow>
    \<exists>c'. spend_inputs V vin c = Inr (map (\<lambda>i. the (cutxo c (in_prevout i))) vin, c') \<and> cinv c' \<and>
      cbest c' = cbest c \<and> cutxo c' = cutxo c |` (- (in_prevout ` set vin))"
proof (induction vin arbitrary: c)
  case Nil
  then show ?case by simp
next
  case (Cons i vin)
  let ?k = "in_prevout i"
  obtain r c1 where s: "SpendCoin V ?k c = (r, c1)" by fastforce
  note ok = SpendCoin_ok [OF Cons.prems(1) s]
  obtain coin where coin: "cutxo c ?k = Some coin" using Cons.prems(3) [of ?k] by auto
  then have r: "r = Some coin" using ok(4) by (cases r) auto
  have nk: "?k \<notin> in_prevout ` set vin" using Cons.prems(2) by simp
  have "cutxo c1 k \<noteq> None" if "k \<in> in_prevout ` set vin" for k
  proof -
    have "k \<noteq> ?k" using that nk by metis
    with that Cons.prems(3) [of k] ok(3) show ?thesis by simp
  qed
  from Cons.IH [OF ok(1) _ this] Cons.prems(2) obtain c' where c': "cinv c'" "cbest c' = cbest c1"
    "spend_inputs V vin c1 = Inr (map (\<lambda>i. the (cutxo c1 (in_prevout i))) vin, c')"
    "cutxo c' = cutxo c1 |` (- (in_prevout ` set vin))" by auto
  have "map (\<lambda>i. the (cutxo c1 (in_prevout i))) vin = map (\<lambda>i. the (cutxo c (in_prevout i))) vin"
  proof (rule map_cong [OF refl])
    fix x assume "x \<in> set vin"
    then have "in_prevout x \<noteq> ?k" using nk by (metis image_eqI)
    then show "the (cutxo c1 (in_prevout x)) = the (cutxo c (in_prevout x))" using ok(3) by simp
  qed
  moreover have "cutxo c' = cutxo c |` (- (insert ?k (in_prevout ` set vin)))"
    using c'(4) ok(3) by (simp only: restrict_upd_None)
  ultimately show ?case using c'(1-3) s r coin ok(2) by simp
qed

lemma add_coins_loop_ok:
  "cinv c \<Longrightarrow> i + length vout \<le> 2 ^ 32 \<Longrightarrow> list_all (\<lambda>t. \<not> CTxOut_IsNull t) vout \<Longrightarrow>
    (\<And>t. coin_out (mk t) = t) \<Longrightarrow> ow \<or> list_all (\<lambda>(k, _). cutxo c k = None) (outs_from txid mk i vout) \<Longrightarrow>
    \<exists>c'. add_coins_loop V False txid mk ow i vout c = Inr c' \<and> cinv c' \<and> cbest c' = cbest c \<and>
      cutxo c' = cutxo c ++ map_of (outs_from txid mk i vout)"
proof (induction vout arbitrary: i c)
  case Nil
  then show ?case by simp
next
  case (Cons t vout)
  let ?k = "\<lparr>outpoint_hash = txid, outpoint_n = of_nat i\<rparr> :: COutPoint"
  have mk: "\<not> IsSpent (mk t)" using Cons.prems(3,4) by (simp add: IsSpent_def)
  have fresh: "?k \<notin> fst ` set (outs_from txid mk (i + 1) vout)"
    using Cons.prems(2) by (intro outs_from_fresh) simp
  have pre: "\<not> (ow \<or> IsUnspendable (out_scriptPubKey t)) \<longrightarrow> cutxo c ?k = None" using Cons.prems(5) by auto
  obtain c1 where c1: "AddCoin ?k (mk t) ow c = Inr c1" "cinv c1" "cbest c1 = cbest c"
    "cutxo c1 = (if IsUnspendable (out_scriptPubKey t) then cutxo c else (cutxo c)(?k \<mapsto> mk t))"
  proof (cases "IsUnspendable (out_scriptPubKey t)")
    case True
    then have "AddCoin ?k (mk t) ow c = Inr c" using mk Cons.prems(4) by (simp add: AddCoin_def)
    with that Cons.prems(1) True show thesis by simp
  next
    case False
    with AddCoin_ok [OF Cons.prems(1) mk, of ow ?k] pre Cons.prems(4) that show thesis by auto
  qed
  have "cutxo c1 k = cutxo c k" if "(k, x) \<in> set (outs_from txid mk (i + 1) vout)" for k x
  proof -
    have "k \<noteq> ?k" using that fresh by (metis fst_conv image_eqI)
    then show ?thesis using c1(4) by simp
  qed
  moreover have "ow \<or> list_all (\<lambda>(k, _). cutxo c k = None) (outs_from txid mk (i + 1) vout)"
    using Cons.prems(5) by (auto split: if_splits)
  ultimately have "ow \<or> list_all (\<lambda>(k, _). cutxo c1 k = None) (outs_from txid mk (i + 1) vout)"
    unfolding list_all_iff by fastforce
  from Cons.IH [OF c1(2) _ _ Cons.prems(4) this] Cons.prems(2,3)
  obtain c' where "add_coins_loop V False txid mk ow (i + 1) vout c1 = Inr c'" "cinv c'" "cbest c' = cbest c1"
    "cutxo c' = cutxo c1 ++ map_of (outs_from txid mk (i + 1) vout)" by auto
  with c1 fresh show ?case by (simp add: map_add_upd_left dom_map_of_conv_image_fst)
qed

lemma UpdateCoins_ok:
  assumes c: "cinv c" and tx: "connectable H h tx (cutxo c)"
  shows "\<exists>c'. UpdateCoins H V tx h c = Inr (spec_undo tx (cutxo c), c') \<and> cinv c' \<and> cbest c' = cbest c \<and>
    cutxo c' = spec_tx H h tx (cutxo c)"
proof -
  obtain c1 where c1: "(if \<not> IsCoinBase tx then spend_inputs V (tx_vin tx) c else Inr ([], c)) =
      Inr (spec_undo tx (cutxo c), c1)" "cinv c1" "cbest c1 = cbest c"
    "cutxo c1 = cutxo c |` (- set (tx_ins tx))"
  proof (cases "IsCoinBase tx")
    case True
    with c show thesis by (intro that) (simp_all add: tx_ins_def spec_undo_def restrict_map_def)
  next
    case False
    have d: "distinct (map in_prevout (tx_vin tx))" and
      "\<forall>k \<in> in_prevout ` set (tx_vin tx). case cutxo c k of None \<Rightarrow> False | Some coin \<Rightarrow> spendable coin"
      using tx False by (simp_all add: connectable_def tx_ins_def list_all_iff)
    then have "cutxo c k \<noteq> None" if "k \<in> in_prevout ` set (tx_vin tx)" for k
      using that by (metis option.simps(4))
    from spend_inputs_ok [OF c d this] False that show thesis
      by (auto simp: tx_ins_def spec_undo_def comp_def)
  qed
  have "list_all (\<lambda>(k, _). cutxo c1 k = None) (outs_from (ComputeHash H tx) (tx_coin tx h) 0 (tx_vout tx))"
    using tx c1(4) by (fastforce simp: connectable_def tx_outs_def list_all_iff restrict_map_def)
  from add_coins_loop_ok [OF c1(2) _ _ _ disjI2 [OF this]] tx
  obtain c' where "add_coins_loop V False (ComputeHash H tx) (tx_coin tx h) (IsCoinBase tx) 0 (tx_vout tx) c1 = Inr c'"
    "cinv c'" "cbest c' = cbest c1" "cutxo c' = spec_tx H h tx (cutxo c)"
    using c1(4) by (auto simp: connectable_def spec_tx_def tx_outs_def)
  with c1 show ?thesis
    by (simp add: UpdateCoins_def AddCoins_def tx_coin_def [abs_def])
qed

lemma disconnect_outputs_ok:
  assumes h: "0 \<le> h" "h < 2 ^ 30"
  shows "cinv c \<Longrightarrow> i + length vout \<le> 2 ^ 32 \<Longrightarrow> list_all (\<lambda>t. \<not> CTxOut_IsNull t) vout \<Longrightarrow>
    (\<And>k. k \<in> fst ` set (outs_from txid (tx_coin tx h) i vout) \<Longrightarrow>
      cutxo c k = map_of (outs_from txid (tx_coin tx h) i vout) k) \<Longrightarrow>
    \<exists>c'. disconnect_outputs V txid h (IsCoinBase tx) (IsCoinStake tx) i vout c = (True, c') \<and> cinv c' \<and>
      cbest c' = cbest c \<and> cutxo c' = cutxo c |` (- (fst ` set (outs_from txid (tx_coin tx h) i vout)))"
proof (induction vout arbitrary: i c)
  case Nil
  then show ?case by simp
next
  case (Cons t vout)
  let ?k = "\<lparr>outpoint_hash = txid, outpoint_n = of_nat i\<rparr> :: COutPoint"
  let ?rest = "outs_from txid (tx_coin tx h) (i + 1) vout"
  have fresh: "?k \<notin> fst ` set ?rest" using Cons.prems(2) by (intro outs_from_fresh) simp
  show ?case
  proof (cases "IsUnspendable (out_scriptPubKey t)")
    case True
    with Cons show ?thesis by simp
  next
    case False
    obtain r c1 where s: "SpendCoin V ?k c = (r, c1)" by fastforce
    note ok = SpendCoin_ok [OF Cons.prems(1) s]
    have "cutxo c ?k = Some (tx_coin tx h t)" using Cons.prems(4) [of ?k] False by simp
    then have r: "r = Some (tx_coin tx h t)" using ok(4) by (cases r) auto
    have "cutxo c1 k = map_of ?rest k" if "k \<in> fst ` set ?rest" for k
    proof -
      have "k \<noteq> ?k" using that fresh by metis
      with that Cons.prems(4) [of k] False ok(3) show ?thesis by auto
    qed
    from Cons.IH [OF ok(1) _ _ this] Cons.prems(2,3) obtain c' where c':
      "disconnect_outputs V txid h (IsCoinBase tx) (IsCoinStake tx) (i + 1) vout c1 = (True, c')" "cinv c'"
      "cbest c' = cbest c1" "cutxo c' = cutxo c1 |` (- (fst ` set ?rest))" by auto
    have "uint (of_int h :: 30 word) = h" using h by (simp add: uint_word_of_int)
    moreover have "cutxo c' = cutxo c |` (- (insert ?k (fst ` set ?rest)))"
      using c'(4) ok(3) by (simp only: restrict_upd_None)
    ultimately show ?thesis using c'(1-3) s r False ok(2) by simp
  qed
qed

lemma ApplyTxInUndo_ok:
  assumes c: "cinv c" and u: "spendable undo" and k: "cutxo c k = None"
  shows "\<exists>c'. ApplyTxInUndo V mx undo k c = Inr (DISCONNECT_OK, c') \<and> cinv c' \<and> cbest c' = cbest c \<and>
    cutxo c' = (cutxo c)(k \<mapsto> undo)"
proof -
  obtain r c1 where hc: "HaveCoin V k c = (r, c1)" by fastforce
  note ok = HaveCoin_ok [OF c hc]
  have sp: "\<not> IsSpent undo" using u by (simp add: spendable_def)
  have "\<not> False \<longrightarrow> cutxo c1 k = None" using ok(2) k by simp
  from AddCoin_ok [OF ok(4) sp this] u
  obtain c2 where "AddCoin k undo False c1 = Inr c2" "cinv c2" "cbest c2 = cbest c1" "cutxo c2 = (cutxo c1)(k \<mapsto> undo)"
    by (auto simp: spendable_def)
  with ok hc k u show ?thesis by (simp add: ApplyTxInUndo_def spendable_def)
qed

lemma restore_inputs_ok:
  "cinv c \<Longrightarrow> distinct (map (\<lambda>(_, i). in_prevout i) xs) \<Longrightarrow> list_all (\<lambda>(coin, i). spendable coin) xs \<Longrightarrow>
    list_all (\<lambda>(_, i). cutxo c (in_prevout i) = None) xs \<Longrightarrow>
    \<exists>c'. restore_inputs V mx xs fClean c = Inr (Some fClean, c') \<and> cinv c' \<and> cbest c' = cbest c \<and>
      cutxo c' = cutxo c ++ map_of (map (\<lambda>(coin, i). (in_prevout i, coin)) xs)"
proof (induction xs arbitrary: c)
  case Nil
  then show ?case by simp
next
  case (Cons x xs)
  obtain coin i where x: "x = (coin, i)" by (cases x)
  let ?k = "in_prevout i"
  have kx: "?k \<notin> (\<lambda>(_, i). in_prevout i) ` set xs" using Cons.prems(2) x by simp
  obtain c1 where c1: "ApplyTxInUndo V mx coin ?k c = Inr (DISCONNECT_OK, c1)" "cinv c1" "cbest c1 = cbest c"
    "cutxo c1 = (cutxo c)(?k \<mapsto> coin)"
    using ApplyTxInUndo_ok [OF Cons.prems(1), of coin ?k mx] Cons.prems(3,4) x by auto
  have "list_all (\<lambda>(_, i). cutxo c1 (in_prevout i) = None) xs"
    unfolding list_all_iff
  proof clarify
    fix coin' i' assume m: "(coin', i') \<in> set xs"
    then have "in_prevout i' \<noteq> ?k" using kx by (metis (no_types, lifting) case_prod_conv image_eqI)
    with m Cons.prems(4) c1(4) show "cutxo c1 (in_prevout i') = None" by (auto simp: list_all_iff)
  qed
  from Cons.IH [OF c1(2) _ _ this] Cons.prems(2,3) obtain c' where
    "restore_inputs V mx xs fClean c1 = Inr (Some fClean, c')" "cinv c'" "cbest c' = cbest c1"
    "cutxo c' = cutxo c1 ++ map_of (map (\<lambda>(coin, i). (in_prevout i, coin)) xs)" by auto
  moreover have "?k \<notin> dom (map_of (map (\<lambda>(coin, i). (in_prevout i, coin)) xs))"
    using kx by (auto simp: dom_map_of_conv_image_fst image_image split_def)
  ultimately show ?case using c1 x by (simp add: map_add_upd_left) (simp flip: fun_upd_def)
qed

end

lemma map_of_map_key: "map_of (map (\<lambda>i. (g i, f (g i))) l) k = (if k \<in> g ` set l then Some (f k) else None)"
  by (induction l) auto

lemma dom_tx_outs: "dom (map_of (tx_outs H h tx)) = fst ` set (tx_outs H h tx)"
  by (simp add: dom_map_of_conv_image_fst)

lemma connectable_ins:
  assumes "connectable H h tx u" "k \<in> set (tx_ins tx)"
  obtains coin where "u k = Some coin" "spendable coin"
  using assms by (fastforce simp: connectable_def list_all_iff split: option.splits)

lemma connectable_outs: "connectable H h tx u \<Longrightarrow> k \<in> fst ` set (tx_outs H h tx) \<Longrightarrow> u k = None"
  by (fastforce simp: connectable_def list_all_iff)

text \<open>The undo data of a transaction: none for the coinbase.\<close>

definition tx_undo :: "CTransaction \<Rightarrow> utxo \<Rightarrow> Coin list option" where
  "tx_undo tx u = (if IsCoinBase tx then None else Some (spec_undo tx u))"

text \<open>The undo data paired with the inputs it restores, in the order of the loop.\<close>

lemma undo_pairs:
  assumes "\<not> IsCoinBase tx"
  shows "rev (zip (spec_undo tx u) (tx_vin tx)) = map (\<lambda>i. (the (u (in_prevout i)), i)) (rev (tx_vin tx))"
    and "length (spec_undo tx u) = length (tx_vin tx)"
  using assms by (simp_all add: spec_undo_def tx_ins_def comp_def rev_map zip_map1 zip_same_conv_map)

lemma connectable_vin:
  assumes "connectable H h tx u" "\<not> IsCoinBase tx"
  shows "distinct (map in_prevout (tx_vin tx))"
    and "i \<in> set (tx_vin tx) \<Longrightarrow> spendable (the (u (in_prevout i))) \<and> u (in_prevout i) \<noteq> None"
proof -
  have ins: "tx_ins tx = map in_prevout (tx_vin tx)" using assms(2) by (simp add: tx_ins_def)
  show "distinct (map in_prevout (tx_vin tx))" using assms(1) by (simp add: connectable_def ins)
  assume "i \<in> set (tx_vin tx)"
  then have "in_prevout i \<in> set (tx_ins tx)" by (simp add: ins)
  from connectable_ins [OF assms(1) this] show "spendable (the (u (in_prevout i))) \<and> u (in_prevout i) \<noteq> None"
    by (metis option.sel option.simps(3))
qed

lemma restore_all:
  assumes "\<And>k. k \<in> set ks \<Longrightarrow> u k \<noteq> None"
  shows "(u |` (- set ks)) ++ map_of (map (\<lambda>k. (k, the (u k))) (rev ks)) = u"
proof
  fix k show "((u |` (- set ks)) ++ map_of (map (\<lambda>k. (k, the (u k))) (rev ks))) k = u k"
    using assms [of k] map_of_map_key [of "\<lambda>k. k" "\<lambda>k. the (u k)" "rev ks" k]
    by (cases "k \<in> set ks") (auto simp: map_add_def)
qed

context coins_view
begin

lemma disconnect_tx_outputs:
  assumes c: "cinv c" and tx: "connectable H h tx u" and u: "cutxo c = spec_tx H h tx u"
    and h: "0 \<le> h" "h < 2 ^ 30"
  obtains c1 where "disconnect_outputs V (ComputeHash H tx) h (IsCoinBase tx) (IsCoinStake tx) 0 (tx_vout tx) c = (True, c1)"
    and "cinv c1" "cbest c1 = cbest c" "cutxo c1 = u |` (- set (tx_ins tx))"
proof -
  let ?X = "u |` (- set (tx_ins tx))"
  let ?outs = "outs_from (ComputeHash H tx) (tx_coin tx h) 0 (tx_vout tx)"
  have outs: "?outs = tx_outs H h tx" by (simp add: tx_outs_def)
  have len: "0 + length (tx_vout tx) \<le> 2 ^ 32" and nn: "list_all (\<lambda>t. \<not> CTxOut_IsNull t) (tx_vout tx)"
    using tx by (simp_all add: connectable_def)
  have new: "cutxo c k = map_of ?outs k" if k: "k \<in> fst ` set ?outs" for k
  proof -
    obtain x where "map_of (tx_outs H h tx) k = Some x"
      using k [unfolded outs dom_tx_outs [symmetric]] by blast
    then show ?thesis by (simp add: u spec_tx_def outs map_add_def)
  qed
  obtain c1 where c1: "disconnect_outputs V (ComputeHash H tx) h (IsCoinBase tx) (IsCoinStake tx) 0 (tx_vout tx) c = (True, c1)"
    "cinv c1" "cbest c1 = cbest c" "cutxo c1 = cutxo c |` (- (fst ` set (tx_outs H h tx)))"
    using disconnect_outputs_ok [OF h c len nn new] unfolding outs by blast
  have "?X k = None" if "k \<in> dom (map_of (tx_outs H h tx))" for k
    using connectable_outs [OF tx] that unfolding dom_tx_outs restrict_map_def by simp
  then have "cutxo c1 = ?X"
    using restrict_map_add_new [of "map_of (tx_outs H h tx)" ?X]
    unfolding c1(4) u spec_tx_def dom_tx_outs by blast
  with c1 that show thesis by blast
qed

lemma restore_tx_inputs:
  assumes c: "cinv c" and tx: "connectable H h tx u" and ncb: "\<not> IsCoinBase tx"
    and u: "cutxo c = u |` (- set (tx_ins tx))"
  shows "\<exists>c'. restore_inputs V mx (rev (zip (spec_undo tx u) (tx_vin tx))) fClean c = Inr (Some fClean, c') \<and>
    cinv c' \<and> cbest c' = cbest c \<and> cutxo c' = u"
proof -
  note vin = connectable_vin [OF tx ncb]
  have ins: "tx_ins tx = map in_prevout (tx_vin tx)" using ncb by (simp add: tx_ins_def)
  let ?xs = "map (\<lambda>i. (the (u (in_prevout i)), i)) (rev (tx_vin tx))"
  have "map (\<lambda>(_, i). in_prevout i) ?xs = rev (map in_prevout (tx_vin tx))"
    by (simp add: rev_map comp_def)
  then have d: "distinct (map (\<lambda>(_, i). in_prevout i) ?xs)"
    using vin(1) by (simp only: distinct_rev)
  have sp: "list_all (\<lambda>(coin, i). spendable coin) ?xs"
    using vin(2) by (simp add: list_all_iff)
  have none: "list_all (\<lambda>(_, i). cutxo c (in_prevout i) = None) ?xs"
    by (simp add: list_all_iff u ins restrict_map_def)
  have "map (\<lambda>(coin, i). (in_prevout i, coin)) ?xs = map (\<lambda>k. (k, the (u k))) (rev (tx_ins tx))"
    by (simp add: ins rev_map)
  moreover have "(u |` (- set (tx_ins tx))) ++ map_of (map (\<lambda>k. (k, the (u k))) (rev (tx_ins tx))) = u"
    using connectable_ins [OF tx] by (intro restore_all) (metis option.simps(3))
  ultimately show ?thesis
    using restore_inputs_ok [OF c d sp none, of mx fClean] unfolding undo_pairs(1) [OF ncb] u by (simp only:)
qed

lemma disconnect_tx_ok:
  assumes c: "cinv c" and tx: "connectable H h tx u" and u: "cutxo c = spec_tx H h tx u"
    and h: "0 \<le> h" "h < 2 ^ 30"
  shows "\<exists>c'. disconnect_tx H V mx h tx (tx_undo tx u) fClean c = Inr (Some fClean, c') \<and>
    cinv c' \<and> cbest c' = cbest c \<and> cutxo c' = u"
proof -
  obtain c1 where c1: "disconnect_outputs V (ComputeHash H tx) h (IsCoinBase tx) (IsCoinStake tx) 0 (tx_vout tx) c = (True, c1)"
    "cinv c1" "cbest c1 = cbest c" "cutxo c1 = u |` (- set (tx_ins tx))"
    using disconnect_tx_outputs [OF c tx u h] by blast
  show ?thesis
  proof (cases "IsCoinBase tx")
    case True
    then have "u |` (- set (tx_ins tx)) = u" by (simp add: tx_ins_def restrict_map_def)
    with True c1 show ?thesis by (simp add: disconnect_tx_def tx_undo_def)
  next
    case False
    with restore_tx_inputs [OF c1(2) tx False c1(4), of mx fClean] c1 undo_pairs(2) [OF False] show ?thesis
      by (simp add: disconnect_tx_def tx_undo_def)
  qed
qed

end

fun spec_txs :: "(bytes \<Rightarrow> uint256) \<Rightarrow> int \<Rightarrow> CTransaction list \<Rightarrow> utxo \<Rightarrow> utxo" where
  "spec_txs H h [] u = u"
| "spec_txs H h (tx # txs) u = spec_txs H h txs (spec_tx H h tx u)"

fun spec_undos :: "(bytes \<Rightarrow> uint256) \<Rightarrow> int \<Rightarrow> CTransaction list \<Rightarrow> utxo \<Rightarrow> Coin list list" where
  "spec_undos H h [] u = []"
| "spec_undos H h (tx # txs) u = spec_undo tx u # spec_undos H h txs (spec_tx H h tx u)"

fun connectable_txs :: "(bytes \<Rightarrow> uint256) \<Rightarrow> int \<Rightarrow> CTransaction list \<Rightarrow> utxo \<Rightarrow> bool" where
  "connectable_txs H h [] u \<longleftrightarrow> True"
| "connectable_txs H h (tx # txs) u \<longleftrightarrow> connectable H h tx u \<and> connectable_txs H h txs (spec_tx H h tx u)"

lemma length_spec_undos [simp]: "length (spec_undos H h txs u) = length txs"
  by (induction txs arbitrary: u) simp_all

lemma disconnect_txs_append:
  "disconnect_txs H V mx h (xs @ ys) fClean c =
    bind_res (disconnect_txs H V mx h xs fClean c)
      (\<lambda>(r, c1). case r of None \<Rightarrow> Inr (None, c1) | Some fClean \<Rightarrow> disconnect_txs H V mx h ys fClean c1)"
proof (induction xs arbitrary: fClean c)
  case (Cons x xs)
  obtain tx txundo where x: "x = (tx, txundo)" by (cases x)
  show ?case
    by (cases "disconnect_tx H V mx h tx txundo fClean c") (auto simp: x Cons split: option.splits)
qed simp

context coins_view
begin

lemma connect_loop_ok:
  "cinv c \<Longrightarrow> connectable_txs H h txs (cutxo c) \<Longrightarrow> list_all (\<lambda>tx. \<not> tx_HasOpCoinstakeCall tx) txs \<Longrightarrow> 0 < i \<Longrightarrow>
    \<exists>c'. connect_loop H V h i txs undos c = Inr (undos @ spec_undos H h txs (cutxo c), c') \<and> cinv c' \<and>
      cutxo c' = spec_txs H h txs (cutxo c)"
proof (induction txs arbitrary: c i undos)
  case (Cons tx txs)
  obtain c1 where c1: "UpdateCoins H V tx h c = Inr (spec_undo tx (cutxo c), c1)" "cinv c1"
    "cutxo c1 = spec_tx H h tx (cutxo c)"
    using UpdateCoins_ok [of c H h tx] Cons.prems(1,2) by auto
  with Cons.IH [of c1 "i + 1" "undos @ [spec_undo tx (cutxo c)]"] Cons.prems(2-) show ?case
    by (simp add: lift_error_def)
qed simp

lemma disconnect_txs_ok:
  assumes h: "0 \<le> h" "h < 2 ^ 30"
  shows "cinv c \<Longrightarrow> connectable_txs H h txs u \<Longrightarrow> cutxo c = spec_txs H h txs u \<Longrightarrow> list_all (\<lambda>tx. \<not> IsCoinBase tx) txs \<Longrightarrow>
    \<exists>c'. disconnect_txs H V mx h (rev (zip txs (map Some (spec_undos H h txs u)))) fClean c = Inr (Some fClean, c') \<and>
      cinv c' \<and> cbest c' = cbest c \<and> cutxo c' = u"
proof (induction txs arbitrary: u c)
  case (Cons tx txs)
  obtain c1 where c1: "disconnect_txs H V mx h (rev (zip txs (map Some (spec_undos H h txs (spec_tx H h tx u))))) fClean c =
      Inr (Some fClean, c1)" "cinv c1" "cbest c1 = cbest c" "cutxo c1 = spec_tx H h tx u"
    using Cons.IH [of c "spec_tx H h tx u"] Cons.prems by auto
  moreover have "tx_undo tx u = Some (spec_undo tx u)" using Cons.prems(4) by (simp add: tx_undo_def)
  moreover have "connectable H h tx u" using Cons.prems(2) by simp
  ultimately obtain c' where "disconnect_tx H V mx h tx (Some (spec_undo tx u)) fClean c1 = Inr (Some fClean, c')"
    "cinv c'" "cbest c' = cbest c1" "cutxo c' = u"
    using disconnect_tx_ok [OF c1(2) _ c1(4) h, of mx fClean] by auto
  with c1 show ?case by (simp add: disconnect_txs_append)
qed simp

lemma DisconnectBlock_ok:
  assumes c: "cinv c" and u: "cutxo c = spec_txs H h (cb # vtx) u" and con: "connectable_txs H h (cb # vtx) u"
    and cb: "IsCoinBase cb" "list_all (\<lambda>tx. \<not> IsCoinBase tx) vtx"
    and h: "0 \<le> h" "h < 2 ^ 30" and best: "cache_hashBlock c = hashBlock" "hashBlock \<noteq> 0"
  shows "\<exists>c'. DisconnectBlock H V mx h hashBlock hashPrev (cb # vtx) (tl (spec_undos H h (cb # vtx) u)) c =
    Inr (DISCONNECT_OK, c') \<and> cinv c' \<and> cache_hashBlock c' = hashPrev \<and> cutxo c' = u"
proof -
  obtain c1 where c1: "disconnect_txs H V mx h (rev (zip vtx (map Some (spec_undos H h vtx (spec_tx H h cb u))))) True c =
      Inr (Some True, c1)" "cinv c1" "cbest c1 = cbest c" "cutxo c1 = spec_tx H h cb u"
    using disconnect_txs_ok [OF h c _ _ cb(2), of H "spec_tx H h cb u" mx True] u con by auto
  have "tx_undo cb u = None" using cb(1) by (simp add: tx_undo_def)
  then obtain c2 where "disconnect_tx H V mx h cb None True c1 = Inr (Some True, c2)" "cinv c2" "cutxo c2 = u"
    using disconnect_tx_ok [OF c1(2) _ c1(4) h, of mx True] con by auto
  with c1 best show ?thesis
    by (simp add: DisconnectBlock_def Cache_GetBestBlock_def disconnect_txs_append SetBestBlock_def
        cache_inv_def cache_utxo_layer)
qed

end

section \<open>Applying the coinstake last\<close>

abbreviation out_keys :: "(bytes \<Rightarrow> uint256) \<Rightarrow> int \<Rightarrow> CTransaction \<Rightarrow> COutPoint set" where
  "out_keys H h tx \<equiv> fst ` set (tx_outs H h tx)"

lemma out_keys_hash: "k \<in> out_keys H h tx \<Longrightarrow> outpoint_hash k = ComputeHash H tx"
  using outs_from_keys [of _ _ "ComputeHash H tx" "tx_coin tx h" 0 "tx_vout tx"]
  by (elim imageE) (metis COutPoint.select_convs(1) prod.collapse tx_outs_def)

lemma map_of_tx_outs: "map_of (tx_outs H h tx) k = None \<longleftrightarrow> k \<notin> out_keys H h tx"
  by (simp add: map_of_eq_None_iff)

lemma spec_tx_apply:
  "spec_tx H h tx u k = (case map_of (tx_outs H h tx) k of Some x \<Rightarrow> Some x
     | None \<Rightarrow> if k \<in> set (tx_ins tx) then None else u k)"
  by (simp add: spec_tx_def map_add_def restrict_map_def split: option.splits)

lemma spec_tx_other:
  "k \<notin> out_keys H h tx \<Longrightarrow> spec_tx H h tx u k = (if k \<in> set (tx_ins tx) then None else u k)"
  by (simp add: spec_tx_apply map_of_tx_outs [THEN iffD2])

lemma connectable_iff:
  "connectable H h tx u \<longleftrightarrow> distinct (tx_ins tx) \<and>
     (\<forall>k \<in> set (tx_ins tx). case u k of None \<Rightarrow> False | Some coin \<Rightarrow> spendable coin) \<and>
     (\<forall>k \<in> out_keys H h tx. u k = None) \<and>
     length (tx_vout tx) \<le> 2 ^ 32 \<and> list_all (\<lambda>t. \<not> CTxOut_IsNull t) (tx_vout tx)"
  by (simp add: connectable_def list_all_iff split_def)

lemma connectable_present: "connectable H h tx u \<Longrightarrow> k \<in> set (tx_ins tx) \<Longrightarrow> u k \<noteq> None"
  using connectable_ins by (metis option.simps(3))

text \<open>Two transactions that do not touch each other's coins commute.\<close>

lemma spec_tx_swap:
  assumes tx: "connectable H h tx u" and cs: "connectable H h cs (spec_tx H h tx u)"
    and ins: "\<forall>k \<in> set (tx_ins cs). u k \<noteq> None" and outs: "\<forall>k \<in> out_keys H h cs. u k = None"
  shows "connectable H h cs u" "connectable H h tx (spec_tx H h cs u)"
    "spec_tx H h cs (spec_tx H h tx u) = spec_tx H h tx (spec_tx H h cs u)"
    "spec_undo cs (spec_tx H h tx u) = spec_undo cs u" "spec_undo tx (spec_tx H h cs u) = spec_undo tx u"
proof -
  have A: "k \<notin> out_keys H h tx" if "k \<in> set (tx_ins cs)" for k
    using ins that connectable_outs [OF tx] by blast
  have B: "k \<notin> set (tx_ins tx)" if "k \<in> set (tx_ins cs)" for k
    using connectable_present [OF cs that] spec_tx_other [OF A [OF that]] by metis
  have C: "k \<notin> out_keys H h tx" if "k \<in> out_keys H h cs" for k
    using connectable_outs [OF cs that] map_of_tx_outs [of H h tx k]
    by (auto simp: spec_tx_apply split: option.splits)
  have D: "k \<notin> set (tx_ins tx)" if "k \<in> out_keys H h cs" for k
    using outs that connectable_present [OF tx] by blast
  have same: "spec_tx H h tx u k = u k" if "k \<in> set (tx_ins cs)" for k
    using A [OF that] B [OF that] by (simp add: spec_tx_other)
  have same': "spec_tx H h cs u k = u k" if "k \<in> set (tx_ins tx)" for k
  proof -
    have "k \<notin> out_keys H h cs" "k \<notin> set (tx_ins cs)" using that B D by blast+
    then show ?thesis by (simp add: spec_tx_other)
  qed
  show "connectable H h cs u"
    using cs outs unfolding connectable_iff by (simp add: same)
  have "spec_tx H h cs u k = None" if "k \<in> out_keys H h tx" for k
    using that C [of k] connectable_outs [OF tx that] by (subst spec_tx_other) (blast, simp)
  then show "connectable H h tx (spec_tx H h cs u)"
    using tx unfolding connectable_iff by (simp add: same')
  show "spec_tx H h cs (spec_tx H h tx u) = spec_tx H h tx (spec_tx H h cs u)"
  proof
    fix k
    consider "k \<in> out_keys H h cs" | "k \<in> out_keys H h tx" "k \<notin> out_keys H h cs"
      | "k \<notin> out_keys H h tx" "k \<notin> out_keys H h cs" by blast
    then show "spec_tx H h cs (spec_tx H h tx u) k = spec_tx H h tx (spec_tx H h cs u) k"
    proof cases
      case 1
      then obtain x where "map_of (tx_outs H h cs) k = Some x" using map_of_tx_outs [of H h cs k] by auto
      with C [OF 1] D [OF 1] show ?thesis
        by (simp add: spec_tx_other [of k H h tx]) (simp add: spec_tx_apply)
    next
      case 2
      then obtain x where "map_of (tx_outs H h tx) k = Some x" using map_of_tx_outs [of H h tx k] by auto
      moreover have "k \<notin> set (tx_ins cs)" using A 2 by blast
      ultimately show ?thesis
        using 2 by (simp add: spec_tx_other [of k H h cs]) (simp add: spec_tx_apply)
    next
      case 3
      then show ?thesis by (simp add: spec_tx_other)
    qed
  qed
  show "spec_undo cs (spec_tx H h tx u) = spec_undo cs u" "spec_undo tx (spec_tx H h cs u) = spec_undo tx u"
    by (simp_all add: spec_undo_def same same')
qed

lemma absent_stays:
  "u k = None \<Longrightarrow> \<forall>tx \<in> set txs. k \<notin> out_keys H h tx \<Longrightarrow> spec_txs H h txs u k = None"
  by (induction txs arbitrary: u) (simp_all add: spec_tx_other)

lemma connectable_txs_snoc:
  "connectable_txs H h (txs @ [tx]) u \<longleftrightarrow> connectable_txs H h txs u \<and> connectable H h tx (spec_txs H h txs u)"
  by (induction txs arbitrary: u) simp_all

lemma spec_txs_snoc: "spec_txs H h (txs @ [tx]) u = spec_tx H h tx (spec_txs H h txs u)"
  by (induction txs arbitrary: u) simp_all

lemma defer_last:
  "connectable_txs H h (txs @ [cs]) u \<Longrightarrow> \<forall>k \<in> set (tx_ins cs). u k \<noteq> None \<Longrightarrow>
    \<forall>k \<in> out_keys H h cs. u k = None \<Longrightarrow>
    \<forall>tx \<in> set txs. set (tx_ins cs) \<inter> out_keys H h tx = {} \<and> out_keys H h cs \<inter> out_keys H h tx = {} \<Longrightarrow>
    connectable_txs H h (cs # txs) u \<and> spec_txs H h (txs @ [cs]) u = spec_txs H h (cs # txs) u \<and>
    spec_undos H h (cs # txs) u = spec_undo cs (spec_txs H h txs u) # spec_undos H h txs u"
proof (induction txs arbitrary: u)
  case (Cons tx txs)
  let ?u = "spec_tx H h tx u"
  have tx: "connectable H h tx u" and rest: "connectable_txs H h (txs @ [cs]) ?u" using Cons.prems(1) by simp_all
  have new: "k \<notin> out_keys H h tx" if "k \<in> set (tx_ins cs) \<union> out_keys H h cs" for k
    using that Cons.prems(4) by auto
  have ins: "?u k \<noteq> None" if k: "k \<in> set (tx_ins cs)" for k
  proof
    assume "?u k = None"
    then have "spec_txs H h txs ?u k = None"
    proof (rule absent_stays)
      show "\<forall>tx \<in> set txs. k \<notin> out_keys H h tx"
        using k Cons.prems(4) unfolding list.set by blast
    qed
    moreover have "connectable H h cs (spec_txs H h txs ?u)" using rest by (simp add: connectable_txs_snoc)
    ultimately show False using connectable_present k by blast
  qed
  have outs: "?u k = None" if "k \<in> out_keys H h cs" for k
    using that new [of k] Cons.prems(3) by (subst spec_tx_other) auto
  have IH: "connectable_txs H h (cs # txs) ?u" "spec_txs H h (txs @ [cs]) ?u = spec_txs H h (cs # txs) ?u"
    "spec_undos H h (cs # txs) ?u = spec_undo cs (spec_txs H h txs ?u) # spec_undos H h txs ?u"
    using Cons.IH [OF rest] ins outs Cons.prems(4) by auto
  have cs: "connectable H h cs ?u" using IH(1) by simp
  note swap = spec_tx_swap [OF tx cs Cons.prems(2,3)]
  show ?case
    using IH swap by simp
qed (simp)

context coins_view
begin

lemma connect_disconnect_plain:
  assumes c: "cinv c" and con: "connectable_txs H h (cb # vtx) (cutxo c)"
    and cb: "IsCoinBase cb" "list_all (\<lambda>tx. \<not> IsCoinBase tx) vtx"
    and call: "list_all (\<lambda>tx. \<not> tx_HasOpCoinstakeCall tx) (cb # vtx)" and pos: "pos \<longrightarrow> vtx \<noteq> []"
    and h: "0 \<le> h" "h < 2 ^ 30" and best: "hashBlock \<noteq> 0"
  shows "\<exists>vtxundo c1 c2. ConnectBlock_coins H V h pos (cb # vtx) c = Inr (vtxundo, c1) \<and>
    DisconnectBlock H V mx h hashBlock hashPrev (cb # vtx) vtxundo (SetBestBlock hashBlock c1) = Inr (DISCONNECT_OK, c2) \<and>
    cinv c2 \<and> cutxo c2 = cutxo c"
proof -
  let ?u = "cutxo c"
  obtain c0 where c0: "UpdateCoins H V cb h c = Inr (spec_undo cb ?u, c0)" "cinv c0" "cutxo c0 = spec_tx H h cb ?u"
    using UpdateCoins_ok [OF c, of H h cb] con by auto
  obtain c1 where c1: "connect_loop H V h 1 vtx [] c0 = Inr (spec_undos H h vtx (spec_tx H h cb ?u), c1)" "cinv c1"
    "cutxo c1 = spec_txs H h (cb # vtx) ?u"
    using connect_loop_ok [OF c0(2), of H h vtx 1 "[]"] con call c0(3) by auto
  have "\<not> (pos \<and> tx_HasOpCoinstakeCall ((cb # vtx) ! 1))" using pos call by (cases vtx) auto
  with c0 c1 call have conn: "ConnectBlock_coins H V h pos (cb # vtx) c = Inr (tl (spec_undos H h (cb # vtx) ?u), c1)"
    by (simp add: ConnectBlock_coins_def lift_error_def)
  have "cinv (SetBestBlock hashBlock c1)" "cutxo (SetBestBlock hashBlock c1) = spec_txs H h (cb # vtx) ?u"
    "cache_hashBlock (SetBestBlock hashBlock c1) = hashBlock"
    using c1 by (simp_all add: SetBestBlock_def cache_inv_def cache_utxo_layer)
  from DisconnectBlock_ok [OF this(1,2) con cb h this(3) best, of mx hashPrev] conn show ?thesis by blast
qed

lemma connect_disconnect_coinstake:
  assumes c: "cinv c" and con: "connectable_txs H h (cb # vtx @ [cs]) (cutxo c)"
    and cb: "IsCoinBase cb" "list_all (\<lambda>tx. \<not> IsCoinBase tx) (cs # vtx)"
    and call: "list_all (\<lambda>tx. \<not> tx_HasOpCoinstakeCall tx) (cb # vtx)" "tx_HasOpCoinstakeCall cs" "IsCoinStake cs"
    and ins: "list_all (\<lambda>k. spec_tx H h cb (cutxo c) k \<noteq> None) (tx_ins cs)"
    and outs: "list_all (\<lambda>tx. list_all (\<lambda>(k, _). spec_tx H h cb (cutxo c) k = None) (tx_outs H h tx)) (cs # vtx)"
    and ids: "ComputeHash H cs \<notin> ComputeHash H ` set vtx"
    and h: "0 \<le> h" "h < 2 ^ 30" and best: "hashBlock \<noteq> 0"
  shows "\<exists>vtxundo c1 c2. ConnectBlock_coins H V h True (cb # cs # vtx) c = Inr (vtxundo, c1) \<and>
    DisconnectBlock H V mx h hashBlock hashPrev (cb # cs # vtx) vtxundo (SetBestBlock hashBlock c1) = Inr (DISCONNECT_OK, c2) \<and>
    cinv c2 \<and> cutxo c2 = cutxo c"
proof -
  let ?u = "cutxo c" let ?u1 = "spec_tx H h cb ?u"
  have fresh: "?u1 k = None" if t: "tx \<in> set (cs # vtx)" and k: "k \<in> out_keys H h tx" for tx k
  proof -
    obtain x where "(k, x) \<in> set (tx_outs H h tx)" using k by (metis imageE prod.collapse)
    then show ?thesis using outs t unfolding list_all_iff by blast
  qed
  have disj: "\<forall>tx \<in> set vtx. set (tx_ins cs) \<inter> out_keys H h tx = {} \<and> out_keys H h cs \<inter> out_keys H h tx = {}"
  proof (intro ballI conjI equals0I)
    fix tx k assume tx: "tx \<in> set vtx"
    show False if "k \<in> set (tx_ins cs) \<inter> out_keys H h tx"
      using that ins fresh [of tx k] tx by (auto simp: list_all_iff)
    show False if "k \<in> out_keys H h cs \<inter> out_keys H h tx"
      using that ids tx out_keys_hash by (metis IntD1 IntD2 image_eqI)
  qed
  have "\<forall>k \<in> set (tx_ins cs). ?u1 k \<noteq> None" using ins by (simp add: list_all_iff)
  moreover have "\<forall>k \<in> out_keys H h cs. ?u1 k = None" using fresh by auto
  ultimately have last: "connectable_txs H h (cs # vtx) ?u1" "spec_txs H h (vtx @ [cs]) ?u1 = spec_txs H h (cs # vtx) ?u1"
    "spec_undos H h (cs # vtx) ?u1 = spec_undo cs (spec_txs H h vtx ?u1) # spec_undos H h vtx ?u1"
    using defer_last [OF _ _ _ disj] con by auto
  have con': "connectable_txs H h (cb # cs # vtx) ?u" using con last(1) by simp
  obtain c0 where c0: "UpdateCoins H V cb h c = Inr (spec_undo cb ?u, c0)" "cinv c0" "cutxo c0 = ?u1"
    using UpdateCoins_ok [OF c, of H h cb] con by auto
  have vtx: "connectable_txs H h vtx ?u1" "connectable H h cs (spec_txs H h vtx ?u1)"
    using con by (simp_all add: connectable_txs_snoc)
  obtain c1 where c1: "connect_loop H V h 2 vtx [] c0 = Inr (spec_undos H h vtx ?u1, c1)" "cinv c1"
    "cutxo c1 = spec_txs H h vtx ?u1"
    using connect_loop_ok [OF c0(2), of H h vtx 2 "[]"] vtx(1) call(1) c0(3) by auto
  obtain c2 where c2: "UpdateCoins H V cs h c1 = Inr (spec_undo cs (cutxo c1), c2)" "cinv c2"
    "cutxo c2 = spec_tx H h cs (spec_txs H h vtx ?u1)"
    using UpdateCoins_ok [OF c1(2), of H h cs] vtx(2) c1(3) by auto
  have conn: "ConnectBlock_coins H V h True (cb # cs # vtx) c = Inr (tl (spec_undos H h (cb # cs # vtx) ?u), c2)"
    using c0 c1 c2 call last(3) by (simp add: ConnectBlock_coins_def lift_error_def numeral_2_eq_2)
  have "cinv (SetBestBlock hashBlock c2)" "cutxo (SetBestBlock hashBlock c2) = spec_txs H h (cb # cs # vtx) ?u"
    "cache_hashBlock (SetBestBlock hashBlock c2) = hashBlock"
    using c2 last(2) by (simp_all add: SetBestBlock_def cache_inv_def cache_utxo_layer spec_txs_snoc)
  from DisconnectBlock_ok [OF this(1,2) con' cb h this(3) best, of mx hashPrev] conn show ?thesis by blast
qed

end

section \<open>Disconnecting undoes connecting\<close>

text \<open>
  C7. Disconnecting a block undoes connecting it: on a cache over the cache over the coin
  database, if every transaction of the block spends existing coins of known height once
  each and creates new outputs, then connecting the block's transactions in order succeeds,
  and \<^verbatim>\<open>DisconnectBlock\<close> with the undo data recorded on the way reports a clean result
  and restores exactly the set of unspent coins from before the block.
\<close>

theorem DisconnectBlock_undoes_connect:
  assumes "cache_inv (cache_inv db_inv db_coin) (cache_utxo db_coin) c"
    and "connectable_txs H h (cb # vtx) (cache_utxo (cache_utxo db_coin) c)"
    and "IsCoinBase cb" "list_all (\<lambda>tx. \<not> IsCoinBase tx) vtx"
    and "list_all (\<lambda>tx. \<not> tx_HasOpCoinstakeCall tx) (cb # vtx)" and "pos \<longrightarrow> vtx \<noteq> []"
    and "0 \<le> h" "h < 2 ^ 30" and "hashBlock \<noteq> 0"
  shows "\<exists>vtxundo c1 c2.
    ConnectBlock_coins H (CacheView (CCoinsViewDB est n)) h pos (cb # vtx) c = Inr (vtxundo, c1) \<and>
    DisconnectBlock H (CacheView (CCoinsViewDB est n)) mx h hashBlock hashPrev (cb # vtx) vtxundo
      (SetBestBlock hashBlock c1) = Inr (DISCONNECT_OK, c2) \<and>
    cache_inv (cache_inv db_inv db_coin) (cache_utxo db_coin) c2 \<and>
    cache_utxo (cache_utxo db_coin) c2 = cache_utxo (cache_utxo db_coin) c"
  using assms by (rule tip.connect_disconnect_plain)

text \<open>A coinbase that pays 5, and a transaction that spends its output; their hashes under
  a toy hash, the length, differ because only the coinbase has a script.\<close>

definition pay5 :: "COutPoint \<Rightarrow> bytes \<Rightarrow> CTransaction" where
  "pay5 k sig = \<lparr>tx_nVersion = 2,
     tx_vin = [\<lparr>in_prevout = k, in_scriptSig = sig, in_nSequence = 0, in_scriptWitness = []\<rparr>],
     tx_vout = [\<lparr>out_nValue = 5, out_scriptPubKey = []\<rparr>], tx_nLockTime = 0\<rparr>"

abbreviation length_hash :: "bytes \<Rightarrow> uint256" where "length_hash s \<equiv> of_nat (length s)"
abbreviation coinbase5 :: CTransaction where "coinbase5 \<equiv> pay5 COutPoint_null [0]"
abbreviation out5 :: COutPoint where "out5 \<equiv> \<lparr>outpoint_hash = 61, outpoint_n = 0\<rparr>"
abbreviation spend5 :: CTransaction where "spend5 \<equiv> pay5 out5 []"

lemma pay5_hash:
  "ComputeHash length_hash coinbase5 = 61" "ComputeHash length_hash spend5 = 60"
  by (simp_all add: ComputeHash_def SerializeTransaction_def pay5_def Serialize_vector_def Serialize_CTxIn_def
      Serialize_CTxOut_def Serialize_bytes_def length_ser_simps length_WriteCompactSize GetSizeOfCompactSize_def)

lemma pay5_coinbase: "IsCoinBase coinbase5" "\<not> IsCoinBase spend5"
  by (simp_all add: IsCoinBase_def pay5_def COutPoint_IsNull_def COutPoint_null_def NULL_INDEX_def)

lemma pay5_parts:
  "tx_vout (pay5 k sig) = [\<lparr>out_nValue = 5, out_scriptPubKey = []\<rparr>]"
  "tx_ins coinbase5 = []" "tx_ins spend5 = [out5]"
  "tx_outs length_hash 3 coinbase5 = [(out5, tx_coin coinbase5 3 \<lparr>out_nValue = 5, out_scriptPubKey = []\<rparr>)]"
  "tx_outs length_hash 3 spend5 = [(\<lparr>outpoint_hash = 60, outpoint_n = 0\<rparr>, tx_coin spend5 3 \<lparr>out_nValue = 5, out_scriptPubKey = []\<rparr>)]"
proof -
  show vout: "tx_vout (pay5 k sig) = [\<lparr>out_nValue = 5, out_scriptPubKey = []\<rparr>]" for k sig by (simp add: pay5_def)
  show "tx_ins coinbase5 = []" "tx_ins spend5 = [out5]"
    using pay5_coinbase by (simp_all add: tx_ins_def) (simp add: pay5_def)
  have nu: "\<not> IsUnspendable []" by (simp add: IsUnspendable_def)
  show "tx_outs length_hash 3 coinbase5 = [(out5, tx_coin coinbase5 3 \<lparr>out_nValue = 5, out_scriptPubKey = []\<rparr>)]"
    "tx_outs length_hash 3 spend5 = [(\<lparr>outpoint_hash = 60, outpoint_n = 0\<rparr>, tx_coin spend5 3 \<lparr>out_nValue = 5, out_scriptPubKey = []\<rparr>)]"
    by (simp_all add: tx_outs_def vout pay5_hash nu)
qed

lemma spendable_samples:
  "spendable sample_coin" "spendable (tx_coin coinbase5 3 \<lparr>out_nValue = 5, out_scriptPubKey = []\<rparr>)"
  by (simp_all add: spendable_def IsSpent_def CTxOut_IsNull_def sample_coin_def IsUnspendable_def)

lemma pay5_connectable: "connectable_txs length_hash 3 [coinbase5, spend5] Map.empty"
  by (simp add: connectable_def pay5_parts spec_tx_def spendable_samples CTxOut_IsNull_def)

lemma pay5_no_call: "\<not> tx_HasOpCoinstakeCall (pay5 k sig)"
proof -
  have "\<not> HasOpCoinstakeCall []" by code_simp
  then show ?thesis by (simp add: tx_HasOpCoinstakeCall_def pay5_def)
qed

theorem DisconnectBlock_undoes_connect_witness:
  "let c = new_cache (new_cache empty_db); V = CacheView (CCoinsViewDB length 0); vtx = [coinbase5, spend5]
   in \<exists>vtxundo c1 c2. ConnectBlock_coins length_hash V 3 True vtx c = Inr (vtxundo, c1) \<and>
        DisconnectBlock length_hash V 10 3 9 8 vtx vtxundo (SetBestBlock 9 c1) = Inr (DISCONNECT_OK, c2) \<and>
        cache_utxo (cache_utxo db_coin) c2 = Map.empty"
proof -
  let ?c = "new_cache (new_cache empty_db)"
  have u: "cache_utxo (cache_utxo db_coin) ?c = Map.empty"
    by (simp add: new_cache_def cache_utxo_def empty_db_def)
  have inv: "cache_inv (cache_inv db_inv db_coin) (cache_utxo db_coin) ?c"
    by (simp add: new_cache_def cache_inv_def entries_ok_def db_inv_def empty_db_def)
  have nz: "list_all (\<lambda>tx. \<not> IsCoinBase tx) [spend5]" "list_all (\<lambda>tx. \<not> tx_HasOpCoinstakeCall tx) [coinbase5, spend5]"
    "True \<longrightarrow> [spend5] \<noteq> []" "(0 :: int) \<le> 3" "(3 :: int) < 2 ^ 30" "(9 :: uint256) \<noteq> 0"
    using pay5_coinbase by (simp_all add: pay5_no_call)
  show ?thesis
    unfolding Let_def
    using DisconnectBlock_undoes_connect [OF inv _ pay5_coinbase(1) nz, of length_hash length 0 10 8]
      pay5_connectable unfolding u by blast
qed


text \<open>A coinstake with a contract call that spends a coin of the database.\<close>

definition kernel_out :: COutPoint where "kernel_out = \<lparr>outpoint_hash = 1000, outpoint_n = 0\<rparr>"

definition call_stake :: CTransaction where
  "call_stake = \<lparr>tx_nVersion = 2,
     tx_vin = [\<lparr>in_prevout = kernel_out, in_scriptSig = [], in_nSequence = 0, in_scriptWitness = []\<rparr>],
     tx_vout = [\<lparr>out_nValue = 0, out_scriptPubKey = []\<rparr>, \<lparr>out_nValue = 5, out_scriptPubKey = [OP_COINSTAKE_CALL]\<rparr>],
     tx_nLockTime = 0\<rparr>"

lemma call_stake_simps:
  "IsCoinStake call_stake" "\<not> IsCoinBase call_stake" "tx_HasOpCoinstakeCall call_stake"
  "ComputeHash length_hash call_stake = 70" "tx_ins call_stake = [kernel_out]"
proof -
  have "HasOpCoinstakeCall [OP_COINSTAKE_CALL]" by code_simp
  then show "tx_HasOpCoinstakeCall call_stake" by (simp add: tx_HasOpCoinstakeCall_def call_stake_def)
  show "IsCoinStake call_stake" and cb: "\<not> IsCoinBase call_stake"
    by (simp_all add: IsCoinStake_def IsCoinBase_def call_stake_def kernel_out_def COutPoint_IsNull_def CTxOut_IsEmpty_def)
  show "ComputeHash length_hash call_stake = 70"
    by (simp add: ComputeHash_def SerializeTransaction_def call_stake_def Serialize_vector_def Serialize_CTxIn_def
      Serialize_CTxOut_def Serialize_bytes_def length_ser_simps length_WriteCompactSize GetSizeOfCompactSize_def)
  show "tx_ins call_stake = [kernel_out]" using cb by (simp add: tx_ins_def) (simp add: call_stake_def)
qed

lemma call_stake_outs:
  "tx_outs length_hash 3 call_stake =
     [(\<lparr>outpoint_hash = 70, outpoint_n = 0\<rparr>, tx_coin call_stake 3 \<lparr>out_nValue = 0, out_scriptPubKey = []\<rparr>),
      (\<lparr>outpoint_hash = 70, outpoint_n = 1\<rparr>, tx_coin call_stake 3 \<lparr>out_nValue = 5, out_scriptPubKey = [OP_COINSTAKE_CALL]\<rparr>)]"
proof -
  have "\<not> IsUnspendable []" "\<not> IsUnspendable [OP_COINSTAKE_CALL]"
    by (simp_all add: IsUnspendable_def MAX_SCRIPT_SIZE_def)
  moreover have "tx_vout call_stake = [\<lparr>out_nValue = 0, out_scriptPubKey = []\<rparr>,
      \<lparr>out_nValue = 5, out_scriptPubKey = [OP_COINSTAKE_CALL]\<rparr>]" by (simp add: call_stake_def)
  ultimately show ?thesis by (simp add: tx_outs_def call_stake_simps(4))
qed

abbreviation stake_db :: CoinsDB where "stake_db \<equiv> empty_db\<lparr>db_coin := [kernel_out \<mapsto> sample_coin]\<rparr>"


end
