(* ===== verification/Arith.thy ===== *)
theory Arith
  imports Serialize
begin

text \<open>
  Big integers (\<^verbatim>\<open>src/arith_uint256.h\<close>, \<^verbatim>\<open>src/arith_uint256.cpp\<close>): \<^verbatim>\<open>base_uint<256>\<close> is its array of
  eight 32-bit limbs, least significant first, and every operator is the loop of the code on
  that array, with 64-bit intermediate values. \<open>val\<close> is the number an array stands for; the
  refinement lemmas show that the operators compute modulo \<open>2 ^ 256\<close>.
\<close>

unbundle bit_operations_syntax

section \<open>Limb arrays and their operators\<close>

type_synonym arith_uint256 = "uint32 list"

definition WIDTH :: nat where "WIDTH = 8"

datatype uint_error = Division_by_zero

definition base_uint_zero :: arith_uint256 where
  "base_uint_zero = replicate WIDTH 0"

definition base_uint_of_uint64 :: "uint64 \<Rightarrow> arith_uint256" where
  "base_uint_of_uint64 b = [ucast b, ucast (drop_bit 32 b)] @ replicate (WIDTH - 2) 0"

definition base_uint_compl :: "arith_uint256 \<Rightarrow> arith_uint256" where
  "base_uint_compl a = map NOT a"

fun base_uint_incr :: "arith_uint256 \<Rightarrow> arith_uint256" where
  "base_uint_incr [] = []"
| "base_uint_incr (x # xs) = (if x + 1 = 0 then (x + 1) # base_uint_incr xs else (x + 1) # xs)"

fun base_uint_decr :: "arith_uint256 \<Rightarrow> arith_uint256" where
  "base_uint_decr [] = []"
| "base_uint_decr (x # xs) = (if x - 1 = - 1 then (x - 1) # base_uint_decr xs else (x - 1) # xs)"

definition base_uint_neg :: "arith_uint256 \<Rightarrow> arith_uint256" where
  "base_uint_neg a = base_uint_incr (map NOT a)"

definition base_uint_xor :: "arith_uint256 \<Rightarrow> arith_uint256 \<Rightarrow> arith_uint256" where
  "base_uint_xor a b = map2 (XOR) a b"

definition base_uint_and :: "arith_uint256 \<Rightarrow> arith_uint256 \<Rightarrow> arith_uint256" where
  "base_uint_and a b = map2 (AND) a b"

definition base_uint_or :: "arith_uint256 \<Rightarrow> arith_uint256 \<Rightarrow> arith_uint256" where
  "base_uint_or a b = map2 (OR) a b"

fun add_loop :: "uint64 \<Rightarrow> uint32 list \<Rightarrow> uint32 list \<Rightarrow> uint32 list" where
  "add_loop carry (x # xs) (y # ys) =
     (let n = carry + ucast x + ucast y in ucast (n AND 0xffffffff) # add_loop (drop_bit 32 n) xs ys)"
| "add_loop carry _ _ = []"

definition base_uint_add :: "arith_uint256 \<Rightarrow> arith_uint256 \<Rightarrow> arith_uint256" where
  "base_uint_add a b = add_loop 0 a b"

definition base_uint_sub :: "arith_uint256 \<Rightarrow> arith_uint256 \<Rightarrow> arith_uint256" where
  "base_uint_sub a b = base_uint_add a (base_uint_neg b)"

fun mul32_loop :: "uint64 \<Rightarrow> uint32 list \<Rightarrow> uint32 \<Rightarrow> uint32 list" where
  "mul32_loop carry [] b32 = []"
| "mul32_loop carry (x # xs) b32 =
     (let n = carry + ucast b32 * ucast x in ucast (n AND 0xffffffff) # mul32_loop (drop_bit 32 n) xs b32)"

definition base_uint_mul32 :: "arith_uint256 \<Rightarrow> uint32 \<Rightarrow> arith_uint256" where
  "base_uint_mul32 a b32 = mul32_loop 0 a b32"

text \<open>
  The inner loop of the product for the limb \<open>p\<close>: \<open>as\<close> are the limbs of the result from
  index \<open>j\<close> on, so that \<open>i + j < WIDTH\<close> is the end of \<open>as\<close>.
\<close>

fun mul_inner :: "uint32 \<Rightarrow> uint64 \<Rightarrow> uint32 list \<Rightarrow> uint32 list \<Rightarrow> uint32 list" where
  "mul_inner p carry (x # xs) (y # ys) =
     (let n = carry + ucast x + ucast p * ucast y in ucast (n AND 0xffffffff) # mul_inner p (drop_bit 32 n) xs ys)"
| "mul_inner p carry xs ys = xs"

fun mul_outer :: "nat \<Rightarrow> uint32 list \<Rightarrow> uint32 list \<Rightarrow> uint32 list \<Rightarrow> uint32 list" where
  "mul_outer j [] b a = a"
| "mul_outer j (p # ps) b a = mul_outer (j + 1) ps b (take j a @ mul_inner p 0 (drop j a) b)"

definition base_uint_mul :: "arith_uint256 \<Rightarrow> arith_uint256 \<Rightarrow> arith_uint256" where
  "base_uint_mul a b = mul_outer 0 a b base_uint_zero"

text \<open>The shifts: the loop over \<open>i\<close> ors the two parts of each limb into the cleared array.\<close>

definition shl_step :: "arith_uint256 \<Rightarrow> nat \<Rightarrow> nat \<Rightarrow> nat \<Rightarrow> arith_uint256 \<Rightarrow> arith_uint256" where
  "shl_step a k shift i pn =
     (let pn = (if i + k + 1 < WIDTH \<and> shift \<noteq> 0
                then pn[i + k + 1 := pn ! (i + k + 1) OR drop_bit (32 - shift) (a ! i)] else pn)
      in if i + k < WIDTH then pn[i + k := pn ! (i + k) OR push_bit shift (a ! i)] else pn)"

definition base_uint_shl :: "arith_uint256 \<Rightarrow> nat \<Rightarrow> arith_uint256" where
  "base_uint_shl a shift = fold (shl_step a (shift div 32) (shift mod 32)) [0..<WIDTH] base_uint_zero"

definition shr_step :: "arith_uint256 \<Rightarrow> nat \<Rightarrow> nat \<Rightarrow> nat \<Rightarrow> arith_uint256 \<Rightarrow> arith_uint256" where
  "shr_step a k shift i pn =
     (let pn = (if i \<ge> k + 1 \<and> shift \<noteq> 0
                then pn[i - k - 1 := pn ! (i - k - 1) OR push_bit (32 - shift) (a ! i)] else pn)
      in if i \<ge> k then pn[i - k := pn ! (i - k) OR drop_bit shift (a ! i)] else pn)"

definition base_uint_shr :: "arith_uint256 \<Rightarrow> nat \<Rightarrow> arith_uint256" where
  "base_uint_shr a shift = fold (shr_step a (shift div 32) (shift mod 32)) [0..<WIDTH] base_uint_zero"

text \<open>\<^verbatim>\<open>CompareTo\<close> looks at the limbs from the most significant one.\<close>

fun compare_loop :: "uint32 list \<Rightarrow> uint32 list \<Rightarrow> int" where
  "compare_loop (x # xs) (y # ys) = (if x < y then - 1 else if x > y then 1 else compare_loop xs ys)"
| "compare_loop _ _ = 0"

definition CompareTo :: "arith_uint256 \<Rightarrow> arith_uint256 \<Rightarrow> int" where
  "CompareTo a b = compare_loop (rev a) (rev b)"

definition EqualTo :: "arith_uint256 \<Rightarrow> uint64 \<Rightarrow> bool" where
  "EqualTo a b =
     (if \<exists>i \<in> {2..<WIDTH}. a ! i \<noteq> 0 then False
      else if ucast (a ! 1) \<noteq> drop_bit 32 b then False
      else if ucast (a ! 0) \<noteq> b AND 0xffffffff then False
      else True)"

text \<open>\<^verbatim>\<open>bits\<close>: one more than the position of the highest bit that is set, or 0.\<close>

fun limb_bits :: "nat \<Rightarrow> uint32 \<Rightarrow> nat" where
  "limb_bits 0 x = 1"
| "limb_bits (Suc nbits) x = (if x AND push_bit (Suc nbits) 1 \<noteq> 0 then Suc nbits + 1 else limb_bits nbits x)"

fun bits_loop :: "nat \<Rightarrow> arith_uint256 \<Rightarrow> nat" where
  "bits_loop 0 a = 0"
| "bits_loop (Suc pos) a = (if a ! pos \<noteq> 0 then 32 * pos + limb_bits 31 (a ! pos) else bits_loop pos a)"

definition base_uint_bits :: "arith_uint256 \<Rightarrow> nat" where
  "base_uint_bits a = bits_loop WIDTH a"

definition GetLow64 :: "arith_uint256 \<Rightarrow> uint64" where
  "GetLow64 a = ucast (a ! 0) OR push_bit 32 (ucast (a ! 1))"

text \<open>The loop of the division runs \<open>shift + 1\<close> times; \<open>r\<close> is the quotient so far.\<close>

fun div_loop :: "nat \<Rightarrow> arith_uint256 \<Rightarrow> arith_uint256 \<Rightarrow> arith_uint256 \<Rightarrow> arith_uint256" where
  "div_loop shift num dv r =
     (let (num, r) = (if CompareTo num dv \<ge> 0
            then (base_uint_sub num dv, r[shift div 32 := r ! (shift div 32) OR push_bit (shift mod 32) 1])
            else (num, r));
          dv = base_uint_shr dv 1
      in case shift of 0 \<Rightarrow> r | Suc s \<Rightarrow> div_loop s num dv r)"

definition base_uint_div :: "arith_uint256 \<Rightarrow> arith_uint256 \<Rightarrow> uint_error + arith_uint256" where
  "base_uint_div a b =
     (let num_bits = base_uint_bits a; div_bits = base_uint_bits b in
      if div_bits = 0 then Inl Division_by_zero
      else if div_bits > num_bits then Inr base_uint_zero
      else
        let shift = num_bits - div_bits in
        Inr (div_loop shift a (base_uint_shl b shift) base_uint_zero))"

section \<open>The compact format\<close>

text \<open>\<^verbatim>\<open>SetCompact\<close>: the number, and the flags \<^verbatim>\<open>*pfNegative\<close> and \<^verbatim>\<open>*pfOverflow\<close>.\<close>

definition SetCompact :: "uint32 \<Rightarrow> arith_uint256 \<times> bool \<times> bool" where
  "SetCompact nCompact =
     (let nSize = unat (drop_bit 24 nCompact);
          w = nCompact AND 0x007fffff;
          nWord = (if nSize \<le> 3 then drop_bit (8 * (3 - nSize)) w else w);
          a = (if nSize \<le> 3 then base_uint_of_uint64 (ucast nWord)
               else base_uint_shl (base_uint_of_uint64 (ucast nWord)) (8 * (nSize - 3)))
      in (a,
          nWord \<noteq> 0 \<and> nCompact AND 0x00800000 \<noteq> 0,
          nWord \<noteq> 0 \<and> (nSize > 34 \<or> (nWord > 0xff \<and> nSize > 33) \<or> (nWord > 0xffff \<and> nSize > 32))))"

text \<open>\<^verbatim>\<open>GetCompact\<close>; a failed assertion is \<open>None\<close>.\<close>

definition GetCompact :: "arith_uint256 \<Rightarrow> bool \<Rightarrow> uint32 option" where
  "GetCompact a fNegative =
     (let nSize = (base_uint_bits a + 7) div 8;
          nCompact = (if nSize \<le> 3 then ucast (push_bit (8 * (3 - nSize)) (GetLow64 a))
                      else ucast (GetLow64 (base_uint_shr a (8 * (nSize - 3)))) :: uint32);
          (nCompact, nSize) = (if nCompact AND 0x00800000 \<noteq> 0 then (drop_bit 8 nCompact, nSize + 1)
                               else (nCompact, nSize))
      in if nCompact AND NOT 0x007fffff \<noteq> 0 then None
         else if nSize \<ge> 256 then None
         else
           let nCompact = nCompact OR push_bit 24 (of_nat nSize)
           in Some (nCompact OR (if fNegative \<and> nCompact AND 0x007fffff \<noteq> 0 then 0x00800000 else 0)))"

section \<open>Conversion to and from opaque numbers\<close>

text \<open>A \<^verbatim>\<open>uint256\<close> is read and written four bytes at a time, least significant byte first.\<close>

definition ArithToUint256 :: "arith_uint256 \<Rightarrow> uint256" where
  "ArithToUint256 a = of_nat (le_nat (concat (map (\<lambda>x. le_bytes 4 (unat x)) a)))"

definition UintToArith256 :: "uint256 \<Rightarrow> arith_uint256" where
  "UintToArith256 b = map (\<lambda>x. of_nat (le_nat (take 4 (drop (x * 4) (ser_uint256 b))))) [0..<WIDTH]"

section \<open>The number an array stands for\<close>

fun val :: "uint32 list \<Rightarrow> nat" where
  "val [] = 0"
| "val (x # xs) = unat x + 2 ^ 32 * val xs"

definition limbs_ok :: "arith_uint256 \<Rightarrow> bool" where
  "limbs_ok a \<longleftrightarrow> length a = WIDTH"

lemma uint32_less: "unat (x :: uint32) < 2 ^ 32"
  using unsigned_less [of x] by simp

lemma uint64_less: "unat (x :: uint64) < 2 ^ 64"
  using unsigned_less [of x] by simp

lemma val_less: "val xs < 2 ^ (32 * length xs)"
proof (induction xs)
  case (Cons x xs)
  have "unat x + 2 ^ 32 * val xs < 2 ^ 32 + 2 ^ 32 * val xs" using uint32_less [of x] by simp
  also have "\<dots> = 2 ^ 32 * (val xs + 1)" by simp
  also have "\<dots> \<le> 2 ^ 32 * 2 ^ (32 * length xs)" using Cons by (intro mult_le_mono2) simp
  finally show ?case by (simp add: power_add)
qed simp

lemma val_append: "val (xs @ ys) = val xs + 2 ^ (32 * length xs) * val ys"
  by (induction xs) (auto simp: power_add algebra_simps)

lemma val_replicate_0 [simp]: "val (replicate k 0) = 0"
  by (induction k) auto

lemma limbs_ok_val_less: "limbs_ok a \<Longrightarrow> val a < 2 ^ 256"
  using val_less [of a] by (simp add: limbs_ok_def WIDTH_def)

lemma limb_step: "N mod B + B * ((N div B + v) mod M) = (N + B * v) mod (B * M)" if "0 < B" for N B v M :: nat
  using mod_mult2_eq [of "N + B * v" B M] that by (simp add: add.commute)

lemma unat_low: "unat (ucast (n AND 0xffffffff :: uint64) :: uint32) = unat n mod 2 ^ 32"
proof -
  have "(n AND 0xffffffff) = take_bit 32 n" by (simp add: take_bit_eq_mask mask_eq_exp_minus_1)
  then have "unat (ucast (n AND 0xffffffff) :: uint32) = take_bit 32 (take_bit 32 (unat n))"
    by (simp only: unsigned_ucast_eq unsigned_take_bit_eq len_of_numeral_defs len_num0 len_num1) simp
  then show ?thesis by (simp add: take_bit_eq_mod)
qed

lemma unat_high: "unat (drop_bit 32 (n :: uint64)) = unat n div 2 ^ 32"
  unfolding unat_drop_bit_eq by (rule drop_bit_eq_div)

lemma unat_ucast32_up: "unat (ucast (x :: uint32) :: uint64) = unat x"
  using uint32_less [of x] by (simp add: unsigned_ucast_eq unsigned_take_bit_eq take_bit_nat_eq_self)

lemma unat_add64: "unat a + unat b < 2 ^ 64 \<Longrightarrow> unat (a + b :: uint64) = unat a + unat b"
  by (simp add: unat_word_ariths)

lemma unat_mult64: "unat a * unat b < 2 ^ 64 \<Longrightarrow> unat (a * b :: uint64) = unat a * unat b"
  by (simp add: unat_word_ariths)

lemma unat_prod32: "unat (ucast (x :: uint32) * ucast (y :: uint32) :: uint64) = unat x * unat y"
  and prod32_bound: "unat (x :: uint32) * unat (y :: uint32) \<le> 2 ^ 64 - 2 ^ 33 + 1"
proof -
  have "unat x * unat y \<le> (2 ^ 32 - 1) * (2 ^ 32 - 1)"
    using uint32_less [of x] uint32_less [of y] by (intro mult_le_mono) simp_all
  then show b: "unat x * unat y \<le> 2 ^ 64 - 2 ^ 33 + 1" by simp
  then show "unat (ucast x * ucast y :: uint64) = unat x * unat y"
    using unat_mult64 [of "ucast x" "ucast y"] by (simp add: unat_ucast32_up)
qed

lemma add_loop_val:
  "length xs = length ys \<Longrightarrow> unat c < 2 ^ 32 \<Longrightarrow>
    length (add_loop c xs ys) = length xs \<and>
    val (add_loop c xs ys) = (unat c + (val xs + val ys)) mod 2 ^ (32 * length xs)"
proof (induction c xs ys rule: add_loop.induct)
  case (1 c x xs y ys)
  let ?n = "c + ucast x + ucast y :: uint64"
  have n: "unat ?n = unat c + unat x + unat y"
    using "1.prems"(2) uint32_less [of x] uint32_less [of y] by (simp add: unat_add64 unat_ucast32_up)
  have c': "unat (drop_bit 32 ?n) < 2 ^ 32"
    using "1.prems"(2) uint32_less [of x] uint32_less [of y] by (simp add: unat_high n)
  have "val (add_loop c (x # xs) (y # ys)) =
      unat ?n mod 2 ^ 32 + 2 ^ 32 * ((unat ?n div 2 ^ 32 + (val xs + val ys)) mod 2 ^ (32 * length xs))"
    using "1.IH" [OF refl _ c'] "1.prems"(1) by (simp add: Let_def unat_low unat_high)
  also have "\<dots> = (unat ?n + 2 ^ 32 * (val xs + val ys)) mod (2 ^ 32 * 2 ^ (32 * length xs))"
    by (rule limb_step) simp
  also have "unat ?n + 2 ^ 32 * (val xs + val ys) = unat c + (val (x # xs) + val (y # ys))"
    unfolding n by (simp add: algebra_simps)
  also have "(2 ^ 32 * 2 ^ (32 * length xs) :: nat) = 2 ^ (32 * length (x # xs))" by (simp add: power_add)
  finally show ?case using "1.IH" [OF refl _ c'] "1.prems"(1) by (simp add: Let_def)
qed auto

lemma mul32_loop_val:
  "unat c < 2 ^ 32 \<Longrightarrow> length (mul32_loop c xs b) = length xs \<and>
    val (mul32_loop c xs b) = (unat c + unat b * val xs) mod 2 ^ (32 * length xs)"
proof (induction c xs b rule: mul32_loop.induct)
  case (2 c x xs b)
  let ?n = "c + ucast b * ucast x :: uint64"
  have n: "unat ?n = unat c + unat b * unat x"
    using "2.prems" prod32_bound [of b x] by (simp add: unat_add64 unat_prod32)
  have c': "unat (drop_bit 32 ?n) < 2 ^ 32"
    using uint64_less [of ?n] by (simp add: unat_high less_mult_imp_div_less)
  have "val (mul32_loop c (x # xs) b) =
      unat ?n mod 2 ^ 32 + 2 ^ 32 * ((unat ?n div 2 ^ 32 + unat b * val xs) mod 2 ^ (32 * length xs))"
    using "2.IH" [OF refl c'] by (simp add: Let_def unat_low unat_high)
  also have "\<dots> = (unat ?n + 2 ^ 32 * (unat b * val xs)) mod (2 ^ 32 * 2 ^ (32 * length xs))"
    by (rule limb_step) simp
  also have "unat ?n + 2 ^ 32 * (unat b * val xs) = unat c + unat b * val (x # xs)"
    unfolding n by (simp add: algebra_simps)
  also have "(2 ^ 32 * 2 ^ (32 * length xs) :: nat) = 2 ^ (32 * length (x # xs))" by (simp add: power_add)
  finally show ?case using "2.IH" [OF refl c'] by (simp add: Let_def)
qed simp

lemma mul_inner_val:
  "length xs \<le> length ys \<Longrightarrow> unat c < 2 ^ 32 \<Longrightarrow>
    length (mul_inner p c xs ys) = length xs \<and>
    val (mul_inner p c xs ys) = (if xs = [] then 0 else (unat c + (val xs + unat p * val ys)) mod 2 ^ (32 * length xs))"
proof (induction p c xs ys rule: mul_inner.induct)
  case (1 p c x xs y ys)
  let ?n = "c + ucast x + ucast p * ucast y :: uint64"
  have n: "unat ?n = unat c + unat x + unat p * unat y"
    using "1.prems"(2) uint32_less [of x] prod32_bound [of p y] by (simp add: unat_add64 unat_prod32 unat_ucast32_up)
  have c': "unat (drop_bit 32 ?n) < 2 ^ 32"
    using uint64_less [of ?n] by (simp add: unat_high less_mult_imp_div_less)
  have v: "val (mul_inner p (drop_bit 32 ?n) xs ys) =
      (unat ?n div 2 ^ 32 + (val xs + unat p * val ys)) mod 2 ^ (32 * length xs)"
    using "1.IH" [OF refl _ c'] "1.prems"(1) by (cases xs) (simp_all add: unat_high)
  have "val (mul_inner p c (x # xs) (y # ys)) =
      unat ?n mod 2 ^ 32 + 2 ^ 32 * ((unat ?n div 2 ^ 32 + (val xs + unat p * val ys)) mod 2 ^ (32 * length xs))"
    using v by (simp add: Let_def unat_low)
  also have "\<dots> = (unat ?n + 2 ^ 32 * (val xs + unat p * val ys)) mod (2 ^ 32 * 2 ^ (32 * length xs))"
    by (rule limb_step) simp
  also have "unat ?n + 2 ^ 32 * (val xs + unat p * val ys) = unat c + (val (x # xs) + unat p * val (y # ys))"
    unfolding n by (simp add: algebra_simps)
  also have "(2 ^ 32 * 2 ^ (32 * length xs) :: nat) = 2 ^ (32 * length (x # xs))" by (simp add: power_add)
  finally show ?case using "1.IH" [OF refl _ c'] "1.prems"(1) by (simp add: Let_def)
qed auto


lemma mul_outer_val:
  "length a = j + length ps \<Longrightarrow> length b = length a \<Longrightarrow>
    length (mul_outer j ps b a) = length a \<and>
    val (mul_outer j ps b a) = (val a + 2 ^ (32 * j) * (val ps * val b)) mod 2 ^ (32 * length a)"
proof (induction j ps b a rule: mul_outer.induct)
  case (1 j b a)
  then show ?case using val_less [of a] by simp
next
  case (2 j p ps b a)
  let ?a = "take j a @ mul_inner p 0 (drop j a) b"
  let ?M = "2 ^ (32 * length (drop j a)) :: nat"
  have i: "length (mul_inner p 0 (drop j a) b) = length (drop j a)"
    "val (mul_inner p 0 (drop j a) b) = (val (drop j a) + unat p * val b) mod ?M"
    using mul_inner_val [of "drop j a" b 0 p] "2.prems" by auto
  have len: "length ?a = length a" using i(1) "2.prems" by simp
  have tj: "val (take j a) < 2 ^ (32 * j)" using val_less [of "take j a"] "2.prems" by simp
  have M: "2 ^ (32 * j) * ?M = (2 ^ (32 * length a) :: nat)"
    using "2.prems" by (simp add: power_add [symmetric] algebra_simps)
  have va: "val a = val (take j a) + 2 ^ (32 * j) * val (drop j a)"
    using val_append [of "take j a" "drop j a"] "2.prems" by simp
  have "val ?a = val (take j a) mod 2 ^ (32 * j) + 2 ^ (32 * j) * ((val (take j a) div 2 ^ (32 * j) + (val (drop j a) + unat p * val b)) mod ?M)"
    using tj "2.prems" i(2) by (simp add: val_append)
  also have "\<dots> = (val (take j a) + 2 ^ (32 * j) * (val (drop j a) + unat p * val b)) mod (2 ^ (32 * j) * ?M)"
    by (rule limb_step) simp
  also have "\<dots> = (val a + 2 ^ (32 * j) * (unat p * val b)) mod 2 ^ (32 * length a)"
    unfolding M va by (simp add: algebra_simps)
  finally have v: "val ?a = (val a + 2 ^ (32 * j) * (unat p * val b)) mod 2 ^ (32 * length a)" .
  have "val (mul_outer (j + 1) ps b ?a) = (val ?a + 2 ^ (32 * (j + 1)) * (val ps * val b)) mod 2 ^ (32 * length a)"
    using "2.IH" "2.prems" len by simp
  also have "\<dots> = (val a + 2 ^ (32 * j) * (unat p * val b) + 2 ^ (32 * (j + 1)) * (val ps * val b)) mod 2 ^ (32 * length a)"
    unfolding v by (rule mod_add_left_eq)
  also have "val a + 2 ^ (32 * j) * (unat p * val b) + 2 ^ (32 * (j + 1)) * (val ps * val b) =
      val a + 2 ^ (32 * j) * (val (p # ps) * val b)" by (simp add: power_add algebra_simps)
  finally show ?case using "2.IH" "2.prems" len by simp
qed

lemma unat_not32: "unat (NOT x :: uint32) = 2 ^ 32 - 1 - unat x"
proof -
  have "uint x < 2 ^ LENGTH(32)" by (rule unsigned_less)
  then have b: "0 \<le> uint x" "uint x < 2 ^ 32" by simp_all
  have "uint (NOT x) = (- uint x - 1) mod 2 ^ 32"
    by (simp add: not_eq_complement uint_word_ariths mod_diff_left_eq)
  also have "\<dots> = (- uint x - 1 + 2 ^ 32) mod 2 ^ 32" by (rule mod_add_self2 [symmetric])
  also have "\<dots> = 2 ^ 32 - 1 - uint x" using b by (subst mod_pos_pos_trivial) linarith+
  finally have "int (unat (NOT x)) = 4294967295 - int (unat x)" by simp
  then have "unat (NOT x) = 4294967295 - unat x" by linarith
  then show ?thesis by simp
qed

lemma val_not: "val (map NOT xs) + val xs + 1 = 2 ^ (32 * length xs)"
proof (induction xs)
  case (Cons x xs)
  have "unat (NOT x) + unat x + 1 = 2 ^ 32" using uint32_less [of x] by (simp add: unat_not32)
  then have "val (map NOT (x # xs)) + val (x # xs) + 1 = 2 ^ 32 + 2 ^ 32 * (val (map NOT xs) + val xs)"
    by (simp add: algebra_simps)
  also have "\<dots> = 2 ^ 32 * (val (map NOT xs) + val xs + 1)" by simp
  finally show ?case unfolding Cons by (simp add: power_add)
qed simp

lemma val_incr: "length (base_uint_incr xs) = length xs \<and> val (base_uint_incr xs) = (val xs + 1) mod 2 ^ (32 * length xs)"
proof (induction xs)
  case (Cons x xs)
  show ?case
  proof (cases "x + 1 = 0")
    case True
    then have "x = - 1" by (simp add: eq_neg_iff_add_eq_0)
    then have x: "unat x = 2 ^ 32 - 1" by (simp add: unsigned_minus_1_eq_mask mask_eq_exp_minus_1)
    have "(val (x # xs) + 1) mod 2 ^ (32 * length (x # xs)) = (2 ^ 32 * (val xs + 1)) mod (2 ^ 32 * 2 ^ (32 * length xs))"
      using x by (simp add: power_add)
    also have "\<dots> = 2 ^ 32 * ((val xs + 1) mod 2 ^ (32 * length xs))" by (rule mult_mod_right [symmetric])
    finally show ?thesis using Cons True by simp
  next
    case False
    have m: "unat (x + 1) = (unat x + 1) mod 2 ^ 32" by (simp add: unat_word_ariths)
    have "unat x + 1 \<noteq> 2 ^ 32"
    proof
      assume "unat x + 1 = 2 ^ 32"
      then have "unat (x + 1) = 0" using m by simp
      with False show False by (simp add: unat_eq_0)
    qed
    then have x: "unat (x + 1) = unat x + 1" using m uint32_less [of x] by simp
    have "val (x # xs) + 1 = val ((x + 1) # xs)" using x by simp
    also have "\<dots> < 2 ^ (32 * length (x # xs))" using val_less [of "(x + 1) # xs"] by simp
    finally show ?thesis using False x by simp
  qed
qed simp


section \<open>Shifts\<close>

lemma bit_add_shifted:
  fixes u v :: nat
  assumes "u < 2 ^ k"
  shows "bit (u + 2 ^ k * v) n \<longleftrightarrow> (if n < k then bit u n else bit v (n - k))"
proof (cases "n < k")
  case True
  then have "(2 :: nat) ^ k = 2 ^ n * (2 * 2 ^ (k - n - 1))" by (simp add: power_add [symmetric] flip: power_Suc)
  then have "(u + 2 ^ k * v) div 2 ^ n = u div 2 ^ n + 2 * (2 ^ (k - n - 1) * v)"
    by (simp add: mult.assoc)
  with True show ?thesis by (simp add: bit_iff_odd)
next
  case False
  have "(2 :: nat) ^ n = 2 ^ k * 2 ^ (n - k)" using False by (simp add: power_add [symmetric])
  then have "(u + 2 ^ k * v) div 2 ^ n = (u + 2 ^ k * v) div 2 ^ k div 2 ^ (n - k)"
    by (simp only: div_mult2_eq)
  also have "\<dots> = v div 2 ^ (n - k)" using assms by simp
  finally show ?thesis using False by (simp add: bit_iff_odd)
qed

lemma bit_unat32: "bit (unat (x :: uint32)) n \<longleftrightarrow> bit x n"
  by (simp add: bit_unsigned_iff)

lemma bit_val: "bit (val xs) n \<longleftrightarrow> n < 32 * length xs \<and> bit (xs ! (n div 32)) (n mod 32)"
proof (induction xs arbitrary: n)
  case (Cons x xs)
  have "bit (val (x # xs)) n \<longleftrightarrow> (if n < 32 then bit x n else bit (val xs) (n - 32))"
    unfolding val.simps bit_add_shifted [OF uint32_less] bit_unat32 ..
  also have "\<dots> \<longleftrightarrow> n < 32 * length (x # xs) \<and> bit ((x # xs) ! (n div 32)) (n mod 32)"
  proof (cases "n < 32")
    case False
    then have "n div 32 = Suc ((n - 32) div 32)" "n mod 32 = (n - 32) mod 32"
      by (simp_all add: le_div_geq le_mod_geq)
    moreover have "n - 32 < 32 * length xs \<longleftrightarrow> n < 32 * length (x # xs)" using False by auto
    ultimately show ?thesis using False Cons [of "n - 32"] by simp
  qed simp
  finally show ?case .
qed simp

lemma length_shl_step [simp]: "length (shl_step a k s i pn) = length pn"
  by (simp add: shl_step_def Let_def)

lemma length_shr_step [simp]: "length (shr_step a k s i pn) = length pn"
  by (simp add: shr_step_def Let_def)

definition shl_limb :: "arith_uint256 \<Rightarrow> nat \<Rightarrow> nat \<Rightarrow> nat \<Rightarrow> nat \<Rightarrow> uint32" where
  "shl_limb a k s m j =
     (if k \<le> j \<and> j - k < m then push_bit s (a ! (j - k)) else 0) OR
     (if s \<noteq> 0 \<and> k + 1 \<le> j \<and> j - k - 1 < m then drop_bit (32 - s) (a ! (j - k - 1)) else 0)"

lemma shl_step_nth:
  "j < WIDTH \<Longrightarrow> length pn = WIDTH \<Longrightarrow> shl_step a k s m pn ! j =
    (if j = m + k then pn ! j OR push_bit s (a ! m)
     else if j = m + k + 1 \<and> s \<noteq> 0 then pn ! j OR drop_bit (32 - s) (a ! m) else pn ! j)"
  by (auto simp: shl_step_def Let_def nth_list_update)

lemma shl_loop:
  "length (fold (shl_step a k s) [0..<m] base_uint_zero) = WIDTH \<and>
    (j < WIDTH \<longrightarrow> fold (shl_step a k s) [0..<m] base_uint_zero ! j = shl_limb a k s m j)"
proof (induction m)
  case 0
  then show ?case by (simp add: base_uint_zero_def shl_limb_def)
next
  case (Suc m)
  let ?p = "fold (shl_step a k s) [0..<m] base_uint_zero"
  have st: "fold (shl_step a k s) [0..<Suc m] base_uint_zero = shl_step a k s m ?p" by simp
  have len: "length ?p = WIDTH" using Suc by blast
  have lim: "shl_limb a k s (Suc m) j =
      (if j = m + k then shl_limb a k s m j OR push_bit s (a ! m)
       else if j = m + k + 1 \<and> s \<noteq> 0 then shl_limb a k s m j OR drop_bit (32 - s) (a ! m)
       else shl_limb a k s m j)"
    by (auto simp: shl_limb_def less_Suc_eq or.commute or.left_commute)
  have "shl_step a k s m ?p ! j = shl_limb a k s (Suc m) j" if "j < WIDTH"
  proof -
    have p: "?p ! j = shl_limb a k s m j" using Suc that by simp
    show ?thesis unfolding lim shl_step_nth [OF that len] p ..
  qed
  then show ?case unfolding st using len by simp
qed


definition shr_limb :: "arith_uint256 \<Rightarrow> nat \<Rightarrow> nat \<Rightarrow> nat \<Rightarrow> nat \<Rightarrow> uint32" where
  "shr_limb a k s m j =
     (if j + k < m then drop_bit s (a ! (j + k)) else 0) OR
     (if s \<noteq> 0 \<and> j + k + 1 < m then push_bit (32 - s) (a ! (j + k + 1)) else 0)"

lemma shr_step_nth:
  "j < WIDTH \<Longrightarrow> m < WIDTH \<Longrightarrow> length pn = WIDTH \<Longrightarrow> shr_step a k s m pn ! j =
    (if m = j + k then pn ! j OR drop_bit s (a ! m)
     else if m = j + k + 1 \<and> s \<noteq> 0 then pn ! j OR push_bit (32 - s) (a ! m) else pn ! j)"
  by (auto simp: shr_step_def Let_def nth_list_update)

lemma shr_loop:
  "m \<le> WIDTH \<Longrightarrow> length (fold (shr_step a k s) [0..<m] base_uint_zero) = WIDTH \<and>
    (j < WIDTH \<longrightarrow> fold (shr_step a k s) [0..<m] base_uint_zero ! j = shr_limb a k s m j)"
proof (induction m)
  case 0
  then show ?case by (simp add: base_uint_zero_def shr_limb_def)
next
  case (Suc m)
  let ?p = "fold (shr_step a k s) [0..<m] base_uint_zero"
  have st: "fold (shr_step a k s) [0..<Suc m] base_uint_zero = shr_step a k s m ?p" by simp
  have len: "length ?p = WIDTH" using Suc by simp
  have lim: "shr_limb a k s (Suc m) j =
      (if m = j + k then shr_limb a k s m j OR drop_bit s (a ! m)
       else if m = j + k + 1 \<and> s \<noteq> 0 then shr_limb a k s m j OR push_bit (32 - s) (a ! m)
       else shr_limb a k s m j)"
    by (auto simp: shr_limb_def less_Suc_eq)
  have "shr_step a k s m ?p ! j = shr_limb a k s (Suc m) j" if "j < WIDTH"
  proof -
    have p: "?p ! j = shr_limb a k s m j" "m < WIDTH" using Suc that by simp_all
    show ?thesis unfolding lim shr_step_nth [OF that p(2) len] p(1) ..
  qed
  then show ?case unfolding st using len by simp
qed

lemma limbs_ok_shl: "limbs_ok (base_uint_shl a s)"
  using shl_loop [of a "s div 32" "s mod 32" WIDTH] by (simp add: base_uint_shl_def limbs_ok_def)

lemma limbs_ok_shr: "limbs_ok (base_uint_shr a s)"
  using shr_loop [of WIDTH a "s div 32" "s mod 32"] by (simp add: base_uint_shr_def limbs_ok_def)

lemma shl_nth: "j < WIDTH \<Longrightarrow> base_uint_shl a s ! j = shl_limb a (s div 32) (s mod 32) WIDTH j"
  using shl_loop [of a "s div 32" "s mod 32" WIDTH j] by (simp add: base_uint_shl_def)

lemma shr_nth: "j < WIDTH \<Longrightarrow> base_uint_shr a s ! j = shr_limb a (s div 32) (s mod 32) WIDTH j"
  using shr_loop [of WIDTH a "s div 32" "s mod 32" j] by (simp add: base_uint_shr_def)

lemma bit_shl_limb:
  assumes "r < 32" "t < 32" "j < WIDTH"
  shows "bit (shl_limb a k t WIDTH j) r \<longleftrightarrow>
    32 * k + t \<le> 32 * j + r \<and> bit (a ! ((32 * j + r - (32 * k + t)) div 32)) ((32 * j + r - (32 * k + t)) mod 32)"
proof -
  consider "k \<le> j" "t \<le> r" | "k + 1 \<le> j" "r < t" | "32 * j + r < 32 * k + t" using assms by linarith
  then show ?thesis
  proof cases
    case 1
    then have e: "32 * j + r - (32 * k + t) = 32 * (j - k) + (r - t)" by simp
    have "\<not> bit (if t \<noteq> 0 \<and> k + 1 \<le> j \<and> j - k - 1 < WIDTH then drop_bit (32 - t) (a ! (j - k - 1)) else 0) r"
      using 1 assms by (auto simp: bit_simps dest: bit_imp_le_length)
    moreover have "(32 * (j - k) + (r - t)) div 32 = j - k" "(32 * (j - k) + (r - t)) mod 32 = r - t"
      using assms by simp_all
    ultimately show ?thesis using 1 assms unfolding e by (auto simp: shl_limb_def bit_or_iff bit_push_bit_iff)
  next
    case 2
    then have e: "32 * j + r - (32 * k + t) = 32 * (j - k - 1) + (32 + r - t)" using assms by arith
    have q: "q < 32 \<Longrightarrow> (32 * m + q) div 32 = m \<and> (32 * m + q) mod 32 = q" for q m :: nat by simp
    have d: "(32 * (j - k - 1) + (32 + r - t)) div 32 = j - k - 1" "(32 * (j - k - 1) + (32 + r - t)) mod 32 = 32 - t + r"
      using q [of "32 + r - t" "j - k - 1"] 2 assms by simp_all
    show ?thesis unfolding e d using 2 assms by (auto simp: shl_limb_def bit_simps)
  next
    case 3
    then show ?thesis using assms by (auto simp: shl_limb_def bit_simps)
  qed
qed

lemma val_shl: "limbs_ok a \<Longrightarrow> val (base_uint_shl a s) = take_bit 256 (push_bit s (val a))"
proof (rule bit_eqI)
  fix n assume a: "limbs_ok a"
  have len: "length (base_uint_shl a s) = 8" "length a = 8" using limbs_ok_shl [of a s] a by (simp_all add: limbs_ok_def WIDTH_def)
  show "bit (val (base_uint_shl a s)) n \<longleftrightarrow> bit (take_bit 256 (push_bit s (val a))) n"
  proof (cases "n < 256")
    case True
    then have j: "n div 32 < WIDTH" by (simp add: WIDTH_def)
    have "bit (val (base_uint_shl a s)) n \<longleftrightarrow> s \<le> n \<and> bit (a ! ((n - s) div 32)) ((n - s) mod 32)"
      using True bit_shl_limb [of "n mod 32" "s mod 32" "n div 32" a "s div 32"] j
      by (simp add: bit_val len shl_nth)
    also have "\<dots> \<longleftrightarrow> s \<le> n \<and> bit (val a) (n - s)" using True by (auto simp: bit_val len)
    finally show ?thesis using True by (simp add: bit_simps)
  qed (simp add: bit_val len bit_simps)
qed

lemma bit_shr_limb:
  assumes "r < 32" "t < 32" "j < WIDTH"
  shows "bit (shr_limb a k t WIDTH j) r \<longleftrightarrow>
    (32 * j + r + (32 * k + t)) div 32 < WIDTH \<and> bit (a ! ((32 * j + r + (32 * k + t)) div 32)) ((32 * j + r + (32 * k + t)) mod 32)"
proof (cases "r + t < 32")
  case True
  have "32 * j + r + (32 * k + t) = (t + r) + 32 * (j + k)" by simp
  then have d: "(32 * j + r + (32 * k + t)) div 32 = j + k" "(32 * j + r + (32 * k + t)) mod 32 = t + r"
    using True by (simp_all only: div_mult_self2 mod_mult_self2) simp_all
  have "\<not> bit (if t \<noteq> 0 \<and> j + k + 1 < WIDTH then push_bit (32 - t) (a ! (j + k + 1)) else 0) r"
    using True by (auto simp: bit_simps)
  with assms True show ?thesis unfolding d by (auto simp: shr_limb_def bit_simps)
next
  case False
  then have "32 * j + r + (32 * k + t) = (r + t - 32) + 32 * (j + k + 1)" by simp
  then have d: "(32 * j + r + (32 * k + t)) div 32 = j + k + 1" "(32 * j + r + (32 * k + t)) mod 32 = r + t - 32"
    using assms by (simp_all only: div_mult_self2 mod_mult_self2) simp_all
  have "\<not> bit (if j + k < WIDTH then drop_bit t (a ! (j + k)) else 0) r"
    using False by (auto simp: bit_simps dest: bit_imp_le_length)
  with assms False show ?thesis unfolding d by (auto simp: shr_limb_def bit_simps)
qed

lemma val_shr: "limbs_ok a \<Longrightarrow> val (base_uint_shr a s) = drop_bit s (val a)"
proof (rule bit_eqI)
  fix n assume a: "limbs_ok a"
  have len: "length (base_uint_shr a s) = 8" "length a = 8" using limbs_ok_shr [of a s] a by (simp_all add: limbs_ok_def WIDTH_def)
  show "bit (val (base_uint_shr a s)) n \<longleftrightarrow> bit (drop_bit s (val a)) n"
  proof (cases "n < 256")
    case True
    then have j: "n div 32 < WIDTH" by (simp add: WIDTH_def)
    have "bit (val (base_uint_shr a s)) n \<longleftrightarrow> (n + s) div 32 < WIDTH \<and> bit (a ! ((n + s) div 32)) ((n + s) mod 32)"
      using True bit_shr_limb [of "n mod 32" "s mod 32" "n div 32" a "s div 32"] j
      by (simp add: bit_val len shr_nth)
    then show ?thesis by (auto simp: bit_simps bit_val len WIDTH_def add.commute)
  qed (auto simp: bit_val len bit_simps)
qed


section \<open>Comparison and size\<close>

lemma compare_loop_snoc:
  "length xs = length ys \<Longrightarrow> compare_loop (rev xs) (rev ys) = sgn (int (val xs) - int (val ys))"
proof (induction xs ys rule: rev_induct2)
  case (4 x xs y ys)
  then have l: "length xs = length ys" and ih: "compare_loop (rev xs) (rev ys) = sgn (int (val xs) - int (val ys))" by simp_all
  have b: "val xs < 2 ^ (32 * length xs)" "val ys < 2 ^ (32 * length xs)"
    using val_less [of xs] val_less [of ys] l by simp_all
  let ?B = "2 ^ (32 * length xs) :: nat"
  have v: "val (xs @ [x]) = val xs + ?B * unat x" "val (ys @ [y]) = val ys + ?B * unat y"
    using l by (simp_all add: val_append)
  consider "unat x < unat y" | "unat y < unat x" | "x = y" by (metis nat_neq_iff word_unat_eq_iff)
  then show ?case
  proof cases
    case 1
    then have "?B * (unat x + 1) \<le> ?B * unat y" by (intro mult_le_mono2) simp
    then have "val (xs @ [x]) < val (ys @ [y])" using b v by simp
    with 1 show ?thesis by (simp add: word_less_nat_alt)
  next
    case 2
    then have "?B * (unat y + 1) \<le> ?B * unat x" by (intro mult_le_mono2) simp
    then have "val (ys @ [y]) < val (xs @ [x])" using b v by simp
    with 2 show ?thesis by (simp add: word_less_nat_alt)
  next
    case 3
    with ih v show ?thesis by simp
  qed
qed auto

lemma CompareTo_val: "limbs_ok a \<Longrightarrow> limbs_ok b \<Longrightarrow> CompareTo a b = sgn (int (val a) - int (val b))"
  by (simp add: CompareTo_def compare_loop_snoc limbs_ok_def)

lemma CompareTo_order:
  assumes "limbs_ok a" "limbs_ok b"
  shows "CompareTo a b \<ge> 0 \<longleftrightarrow> val b \<le> val a" "CompareTo a b > 0 \<longleftrightarrow> val b < val a"
    "CompareTo a b \<le> 0 \<longleftrightarrow> val a \<le> val b" "CompareTo a b < 0 \<longleftrightarrow> val a < val b"
  using assms by (auto simp: CompareTo_val sgn_if)

lemma bit_imp_exp_le: "bit (v :: nat) n \<Longrightarrow> 2 ^ n \<le> v"
  by (rule ccontr) (simp add: bit_iff_odd)

text \<open>The number of bits of a number.\<close>

definition is_bits :: "nat \<Rightarrow> nat \<Rightarrow> bool" where
  "is_bits v k \<longleftrightarrow> v < 2 ^ k \<and> (k = 0 \<or> 2 ^ (k - 1) \<le> v)"

lemma is_bits_le: "is_bits v k \<Longrightarrow> is_bits w l \<Longrightarrow> v \<le> w \<Longrightarrow> k \<le> l"
proof (rule ccontr)
  assume k: "is_bits v k" "is_bits w l" "v \<le> w" "\<not> k \<le> l"
  then have "(2 :: nat) ^ l \<le> 2 ^ (k - 1)" by (intro power_increasing) simp_all
  moreover have "2 ^ (k - 1) \<le> v" "w < 2 ^ l" using k by (auto simp: is_bits_def)
  ultimately show False using k(3) by linarith
qed

lemma limb_bits_ok:
  "nbits < 32 \<Longrightarrow> x \<noteq> 0 \<Longrightarrow> unat x < 2 ^ Suc nbits \<Longrightarrow> is_bits (unat x) (limb_bits nbits x) \<and> 0 < limb_bits nbits x"
proof (induction nbits)
  case 0
  then have "unat x \<noteq> 0" by (simp add: unat_eq_0)
  with 0 show ?case by (simp add: is_bits_def)
next
  case (Suc n)
  have b: "x AND push_bit (Suc n) 1 \<noteq> 0 \<longleftrightarrow> bit x (Suc n)"
    unfolding push_bit_of_1 and_exp_eq_0_iff_not_bit by simp
  have lt: "unat x < 2 ^ Suc (Suc n)" using Suc.prems(3) .
  show ?case
  proof (cases "bit x (Suc n)")
    case True
    then have "bit (unat x) (Suc n)" by (simp add: bit_unat32)
    then have "2 ^ Suc n \<le> unat x" by (rule bit_imp_exp_le)
    with True b lt show ?thesis by (simp add: is_bits_def)
  next
    case False
    then have "\<not> bit (unat x) (Suc n)" by (simp add: bit_unat32)
    then have "even (unat x div 2 ^ Suc n)" by (simp add: bit_iff_odd)
    moreover have "unat x div 2 ^ Suc n < 2" using lt by (simp add: less_mult_imp_div_less)
    ultimately have "unat x div 2 ^ Suc n = 0" by (cases "unat x div 2 ^ Suc n") auto
    then have "unat x < 2 ^ Suc n" by (simp add: div_eq_0_iff)
    with Suc False b show ?thesis by simp
  qed
qed

lemma bits_loop_ok:
  "pos \<le> length a \<Longrightarrow> is_bits (val (take pos a)) (bits_loop pos a)"
proof (induction pos)
  case 0
  then show ?case by (simp add: is_bits_def)
next
  case (Suc pos)
  have v: "val (take (Suc pos) a) = val (take pos a) + 2 ^ (32 * pos) * unat (a ! pos)"
    using Suc.prems by (simp add: take_Suc_conv_app_nth val_append)
  have t: "val (take pos a) < 2 ^ (32 * pos)" using val_less [of "take pos a"] Suc.prems by simp
  show ?case
  proof (cases "a ! pos = 0")
    case True
    with Suc v show ?thesis by simp
  next
    case False
    let ?k = "limb_bits 31 (a ! pos)"
    have k: "unat (a ! pos) < 2 ^ ?k" "2 ^ (?k - 1) \<le> unat (a ! pos)" "0 < ?k"
      using limb_bits_ok [of 31 "a ! pos"] False uint32_less [of "a ! pos"] by (auto simp: is_bits_def)
    have "val (take (Suc pos) a) < 2 ^ (32 * pos) + 2 ^ (32 * pos) * unat (a ! pos)" using v t by simp
    also have "\<dots> = 2 ^ (32 * pos) * (unat (a ! pos) + 1)" by simp
    also have "\<dots> \<le> 2 ^ (32 * pos) * 2 ^ ?k" using k(1) by (intro mult_le_mono2) simp
    finally have up: "val (take (Suc pos) a) < 2 ^ (32 * pos + ?k)" by (simp add: power_add)
    have "2 ^ (32 * pos + ?k - 1) = 2 ^ (32 * pos) * (2 ^ (?k - 1) :: nat)"
      using k(3) by (simp add: power_add [symmetric])
    also have "\<dots> \<le> 2 ^ (32 * pos) * unat (a ! pos)" using k(2) by (intro mult_le_mono2)
    finally show ?thesis using up False v by (simp add: is_bits_def)
  qed
qed

lemma base_uint_bits_ok: "limbs_ok a \<Longrightarrow> is_bits (val a) (base_uint_bits a)"
  using bits_loop_ok [of WIDTH a] by (simp add: base_uint_bits_def limbs_ok_def)

lemma base_uint_bits_le: "limbs_ok a \<Longrightarrow> base_uint_bits a \<le> 256"
proof -
  assume a: "limbs_ok a"
  show ?thesis
  proof (rule ccontr)
    assume n: "\<not> base_uint_bits a \<le> 256"
    then have "(2 :: nat) ^ 256 \<le> 2 ^ (base_uint_bits a - 1)" by (intro power_increasing) simp_all
    moreover have "2 ^ (base_uint_bits a - 1) \<le> val a" using base_uint_bits_ok [OF a] n by (auto simp: is_bits_def)
    ultimately show False using limbs_ok_val_less [OF a] by linarith
  qed
qed

section \<open>Refinement\<close>

lemma limbs_ok_zero [simp]: "limbs_ok base_uint_zero" "val base_uint_zero = 0"
  by (simp_all add: limbs_ok_def base_uint_zero_def)

lemma add_val: "limbs_ok a \<Longrightarrow> limbs_ok b \<Longrightarrow> limbs_ok (base_uint_add a b) \<and> val (base_uint_add a b) = (val a + val b) mod 2 ^ 256"
  using add_loop_val [of a b 0] by (simp add: limbs_ok_def base_uint_add_def WIDTH_def)

lemma mul32_val: "limbs_ok a \<Longrightarrow> limbs_ok (base_uint_mul32 a b) \<and> val (base_uint_mul32 a b) = (val a * unat b) mod 2 ^ 256"
  using mul32_loop_val [of 0 a b] by (simp add: limbs_ok_def base_uint_mul32_def WIDTH_def mult.commute)

lemma mul_val: "limbs_ok a \<Longrightarrow> limbs_ok b \<Longrightarrow> limbs_ok (base_uint_mul a b) \<and> val (base_uint_mul a b) = (val a * val b) mod 2 ^ 256"
  using mul_outer_val [of base_uint_zero 0 a b] by (simp add: limbs_ok_def base_uint_mul_def WIDTH_def base_uint_zero_def)

lemma compl_val: "limbs_ok a \<Longrightarrow> limbs_ok (base_uint_compl a) \<and> val (base_uint_compl a) = 2 ^ 256 - 1 - val a"
proof -
  assume a: "limbs_ok a"
  then have "val (map NOT a) + val a + 1 = 2 ^ 256" using val_not [of a] by (simp add: limbs_ok_def WIDTH_def)
  then have "val (map NOT a) = 2 ^ 256 - 1 - val a" by linarith
  with a show ?thesis by (simp add: limbs_ok_def base_uint_compl_def)
qed

lemma neg_val: "limbs_ok a \<Longrightarrow> limbs_ok (base_uint_neg a) \<and> val (base_uint_neg a) = (2 ^ 256 - val a) mod 2 ^ 256"
proof -
  assume a: "limbs_ok a"
  have "val (map NOT a) + 1 = 2 ^ 256 - val a" using compl_val [OF a] limbs_ok_val_less [OF a] by (simp add: base_uint_compl_def)
  with a show ?thesis using val_incr [of "map NOT a"] by (simp add: limbs_ok_def base_uint_neg_def WIDTH_def)
qed

lemma sub_val: "limbs_ok a \<Longrightarrow> limbs_ok b \<Longrightarrow> limbs_ok (base_uint_sub a b) \<and> val (base_uint_sub a b) = (val a + (2 ^ 256 - val b)) mod 2 ^ 256"
  using add_val [of a "base_uint_neg b"] neg_val [of b] by (simp add: base_uint_sub_def mod_add_right_eq)

lemma sub_val_le: "limbs_ok a \<Longrightarrow> limbs_ok b \<Longrightarrow> val b \<le> val a \<Longrightarrow> val (base_uint_sub a b) = val a - val b"
proof -
  assume a: "limbs_ok a" "limbs_ok b" "val b \<le> val a"
  then have "val a + (2 ^ 256 - val b) = (val a - val b) + 2 ^ 256" using limbs_ok_val_less [of b] by simp
  then have "val (base_uint_sub a b) = (val a - val b + 2 ^ 256) mod 2 ^ 256" using sub_val [OF a(1,2)] by simp
  also have "\<dots> = (val a - val b) mod 2 ^ 256" by (rule mod_add_self2)
  also have "\<dots> = val a - val b" using limbs_ok_val_less [OF a(1)] by (intro mod_less) linarith
  finally show ?thesis .
qed


lemma set_bit_val:
  assumes "limbs_ok r" "s < 256" "\<not> bit (val r) s"
  shows "val (r[s div 32 := r ! (s div 32) OR push_bit (s mod 32) 1]) = val r + 2 ^ s"
proof -
  let ?r = "r[s div 32 := r ! (s div 32) OR push_bit (s mod 32) 1]"
  have len: "length r = 8" using assms(1) by (simp add: limbs_ok_def WIDTH_def)
  have "val ?r = val r OR 2 ^ s"
  proof (rule bit_eqI)
    fix n
    have s: "n = s \<longleftrightarrow> n div 32 = s div 32 \<and> n mod 32 = s mod 32" by (metis div_mult_mod_eq)
    show "bit (val ?r) n \<longleftrightarrow> bit (val r OR 2 ^ s) n"
    proof (cases "n < 256")
      case True
      then have "n div 32 < 8" "n mod 32 < 32" by simp_all
      with True len s assms(2) show ?thesis
        by (auto simp: bit_val bit_or_iff bit_exp_iff bit_push_bit_iff bit_1_iff nth_list_update)
    qed (use assms(2) in \<open>auto simp: bit_val len bit_or_iff bit_exp_iff\<close>)
  qed
  also have "\<dots> = val r + 2 ^ s"
    by (rule disjunctive_add [symmetric]) (use assms(3) in \<open>auto simp: bit_exp_iff\<close>)
  finally show ?thesis .
qed

lemma dvd_exp_not_bit: "2 ^ Suc s dvd (v :: nat) \<Longrightarrow> \<not> bit v s"
  by (auto simp: bit_iff_odd dvd_def)

lemma div_loop_0:
  "div_loop 0 num dv r = (if CompareTo num dv \<ge> 0 then r[0 := r ! 0 OR 1] else r)"
  by simp

lemma div_loop_Suc:
  "div_loop (Suc s) num dv r =
    (if CompareTo num dv \<ge> 0
     then div_loop s (base_uint_sub num dv) (base_uint_shr dv 1)
       (r[Suc s div 32 := r ! (Suc s div 32) OR push_bit (Suc s mod 32) 1])
     else div_loop s num (base_uint_shr dv 1) r)"
  by (subst div_loop.simps) (simp only: Let_def nat.case prod.case split: if_split, simp)

declare div_loop.simps [simp del]

lemma div_loop_val:
  assumes "0 < B"
  shows "limbs_ok num \<Longrightarrow> limbs_ok dv \<Longrightarrow> limbs_ok r \<Longrightarrow> s < 256 \<Longrightarrow> val dv = B * 2 ^ s \<Longrightarrow> val num < B * 2 ^ Suc s \<Longrightarrow>
    2 ^ Suc s dvd val r \<Longrightarrow>
    limbs_ok (div_loop s num dv r) \<and> val (div_loop s num dv r) = val r + val num div B"
proof (induction s arbitrary: num dv r)
  case (0 num dv r)
  have cmp: "CompareTo num dv \<ge> 0 \<longleftrightarrow> B \<le> val num"
    using CompareTo_order(1) [of num dv] 0 by simp
  show ?case
  proof (cases "B \<le> val num")
    case True
    with 0 cmp have "val num div B = 1" by (simp add: div_nat_eqI)
    with True 0 cmp set_bit_val [of r 0] dvd_exp_not_bit [of 0 "val r"] show ?thesis by (simp add: limbs_ok_def div_loop_0)
  qed (use 0 cmp in \<open>simp add: div_loop_0\<close>)
next
  case (Suc s num dv r)
  have cmp: "CompareTo num dv \<ge> 0 \<longleftrightarrow> B * 2 ^ Suc s \<le> val num"
    using CompareTo_order(1) [of num dv] Suc.prems by simp
  have dv': "limbs_ok (base_uint_shr dv 1)" "val (base_uint_shr dv 1) = B * 2 ^ s"
    using limbs_ok_shr [of dv 1] val_shr [of dv 1] Suc.prems by (simp_all add: drop_bit_Suc)
  show ?case
  proof (cases "B * 2 ^ Suc s \<le> val num")
    case True
    let ?r = "r[Suc s div 32 := r ! (Suc s div 32) OR push_bit (Suc s mod 32) 1]" and ?num = "base_uint_sub num dv"
    have num: "limbs_ok ?num" "val ?num = val num - B * 2 ^ Suc s"
      using sub_val [of num dv] sub_val_le [of num dv] Suc.prems True by simp_all
    have r: "limbs_ok ?r" "val ?r = val r + 2 ^ Suc s"
      using set_bit_val [of r "Suc s"] dvd_exp_not_bit [of "Suc s" "val r"] Suc.prems by (simp_all add: limbs_ok_def)
    have "2 ^ Suc s dvd val ?r"
      unfolding r(2) using Suc.prems(7) by (intro dvd_add) (auto intro: dvd_trans [OF le_imp_power_dvd])
    then have "limbs_ok (div_loop s ?num (base_uint_shr dv 1) ?r) \<and>
        val (div_loop s ?num (base_uint_shr dv 1) ?r) = val ?r + val ?num div B"
      by (intro Suc.IH) (use num r dv' Suc.prems in \<open>simp_all\<close>)
    moreover have "val num div B = 2 ^ Suc s + val ?num div B"
    proof -
      have "val num = 2 ^ Suc s * B + val ?num" using num True by (simp add: mult.commute)
      then show ?thesis using assms by (metis div_mult_self3 not_gr0)
    qed
    ultimately show ?thesis using True cmp r(2) by (simp only: div_loop_Suc if_True add.assoc conj_absorb simp_thms)
  next
    case False
    have "2 ^ Suc s dvd val r" using Suc.prems(7) by (auto intro: dvd_trans [OF le_imp_power_dvd])
    then have "limbs_ok (div_loop s num (base_uint_shr dv 1) r) \<and>
        val (div_loop s num (base_uint_shr dv 1) r) = val r + val num div B"
      by (intro Suc.IH) (use dv' Suc.prems False in \<open>simp_all\<close>)
    then show ?thesis using False cmp by (simp only: div_loop_Suc if_False)
  qed
qed

lemma div_val:
  assumes a: "limbs_ok a" and b: "limbs_ok b"
  shows "if val b = 0 then base_uint_div a b = Inl Division_by_zero
    else \<exists>q. base_uint_div a b = Inr q \<and> limbs_ok q \<and> val q = val a div val b"
proof -
  let ?n = "base_uint_bits a" and ?d = "base_uint_bits b"
  note n = base_uint_bits_ok [OF a] and d = base_uint_bits_ok [OF b]
  have z: "?d = 0 \<longleftrightarrow> val b = 0" using d by (auto simp: is_bits_def)
  show ?thesis
  proof (cases "val b = 0")
    case True
    with z show ?thesis by (simp add: base_uint_div_def)
  next
    case False
    show ?thesis
    proof (cases "?d > ?n")
      case True
      then have "val a < val b" using is_bits_le [OF d n] by linarith
      with True False z show ?thesis by (simp add: base_uint_div_def)
    next
      case le: False
      let ?s = "?n - ?d"
      have s: "?s < 256" using base_uint_bits_le [OF a] False z by simp
      have bs: "val b < 2 ^ ?d" "2 ^ (?n - 1) \<le> val a \<or> ?n = 0" "val a < 2 ^ ?n" "2 ^ (?d - 1) \<le> val b"
        using n d False z by (auto simp: is_bits_def)
      have "val b * 2 ^ ?s < 2 ^ ?d * 2 ^ ?s" using bs(1) by simp
      also have "\<dots> = 2 ^ ?n" using le by (simp add: power_add [symmetric])
      also have "\<dots> \<le> (2 :: nat) ^ 256" using base_uint_bits_le [OF a] by (intro power_increasing) simp_all
      finally have sh: "val (base_uint_shl b ?s) = val b * 2 ^ ?s"
        using val_shl [OF b, of ?s] by (simp add: push_bit_eq_mult take_bit_nat_eq_self)
      have e: "?d - 1 + Suc ?s = ?n" using le False z by simp
      have "2 ^ ?n = 2 ^ (?d - 1) * (2 :: nat) ^ Suc ?s" by (simp only: power_add [symmetric] e)
      also have "\<dots> \<le> val b * 2 ^ Suc ?s" using bs(4) by (intro mult_le_mono1)
      finally have "val a < val b * 2 ^ Suc ?s" using bs(3) by linarith
      then have "limbs_ok (div_loop ?s a (base_uint_shl b ?s) base_uint_zero) \<and>
          val (div_loop ?s a (base_uint_shl b ?s) base_uint_zero) = val base_uint_zero + val a div val b"
        by (intro div_loop_val) (use False a s sh limbs_ok_shl in simp_all)
      with False le z show ?thesis by (simp add: base_uint_div_def Let_def)
    qed
  qed
qed

section \<open>The compact format represents a number to 15 bits\<close>

definition is_bytes :: "nat \<Rightarrow> nat \<Rightarrow> bool" where
  "is_bytes v n \<longleftrightarrow> v < 256 ^ n \<and> (n = 0 \<or> 256 ^ (n - 1) \<le> v)"

lemma is_bytes_unique: assumes "is_bytes v n" "is_bytes v m" shows "n = m"
proof -
  have le: "k \<le> l" if "is_bytes v k" "is_bytes v l" for k l
  proof (rule ccontr)
    assume "\<not> k \<le> l"
    then have "(256 :: nat) ^ l \<le> 256 ^ (k - 1)" by (intro power_increasing) simp_all
    moreover have "256 ^ (k - 1) \<le> v" "v < 256 ^ l" using that \<open>\<not> k \<le> l\<close> by (auto simp: is_bytes_def)
    ultimately show False by linarith
  qed
  from le [OF assms] le [OF assms(2,1)] show ?thesis by simp
qed

lemma pow256: "(256 :: nat) ^ k = 2 ^ (8 * k)"
  by (simp add: power_mult)

lemma base_uint_bytes:
  assumes "limbs_ok a" shows "is_bytes (val a) ((base_uint_bits a + 7) div 8)" and "(base_uint_bits a + 7) div 8 \<le> 32"
proof -
  let ?k = "base_uint_bits a" let ?n = "(?k + 7) div 8"
  have k: "is_bits (val a) ?k" by (rule base_uint_bits_ok [OF assms])
  show "?n \<le> 32" using base_uint_bits_le [OF assms] by simp
  have "(2 :: nat) ^ ?k \<le> 2 ^ (8 * ?n)" by (intro power_increasing) simp_all
  then have "val a < 256 ^ ?n" using k unfolding pow256 is_bits_def by linarith
  moreover have "256 ^ (?n - 1) \<le> val a" if "?n \<noteq> 0"
  proof -
    have "(2 :: nat) ^ (8 * (?n - 1)) \<le> 2 ^ (?k - 1)" by (intro power_increasing) simp_all
    moreover have "2 ^ (?k - 1) \<le> val a" using k that by (auto simp: is_bits_def)
    ultimately show ?thesis unfolding pow256 by linarith
  qed
  ultimately show "is_bytes (val a) ?n" by (auto simp: is_bytes_def)
qed

definition mantissa :: "nat \<Rightarrow> nat \<Rightarrow> nat" where
  "mantissa v n = (if n \<le> 3 then v * 256 ^ (3 - n) else v div 256 ^ (n - 3))"

definition compact_of :: "nat \<Rightarrow> nat \<Rightarrow> nat" where
  "compact_of v n =
     (if mantissa v n < 2 ^ 23 then mantissa v n + 2 ^ 24 * n else mantissa v n div 256 + 2 ^ 24 * (n + 1))"

definition of_compact :: "nat \<Rightarrow> nat" where
  "of_compact c =
     (let s = c div 2 ^ 24; m = c mod 2 ^ 23 in if s \<le> 3 then m div 256 ^ (3 - s) else m * 256 ^ (s - 3))"

lemma mantissa_bounds:
  assumes "is_bytes v n"
  shows "mantissa v n < 2 ^ 24" and "n \<noteq> 0 \<Longrightarrow> 2 ^ 16 \<le> mantissa v n"
proof -
  have "mantissa v n < 2 ^ 24 \<and> (n \<noteq> 0 \<longrightarrow> 2 ^ 16 \<le> mantissa v n)"
  proof (cases "n \<le> 3")
    case True
    then consider "n = 0" | "n = 1" | "n = 2" | "n = 3" by linarith
    then show ?thesis using assms by cases (simp_all add: mantissa_def is_bytes_def)
  next
    case False
    then obtain k where k: "n = k + 3" "0 < k" by (metis add.commute less_imp_add_positive not_le)
    have e: "(256 :: nat) ^ n = 2 ^ 24 * 256 ^ (n - 3)" "(256 :: nat) ^ (n - 1) = 2 ^ 16 * 256 ^ (n - 3)"
    proof -
      have i: "n - 3 = k" "n - 1 = k + 2" using k by simp_all
      show "(256 :: nat) ^ n = 2 ^ 24 * 256 ^ (n - 3)" "(256 :: nat) ^ (n - 1) = 2 ^ 16 * 256 ^ (n - 3)"
        unfolding i unfolding k(1) by (simp_all add: power_add)
    qed
    have "v < 2 ^ 24 * 256 ^ (n - 3)" "2 ^ 16 * 256 ^ (n - 3) \<le> v"
      using False assms unfolding is_bytes_def e by auto
    then show ?thesis using False by (simp add: mantissa_def less_mult_imp_div_less less_eq_div_iff_mult_less_eq)
  qed
  then show "mantissa v n < 2 ^ 24" "n \<noteq> 0 \<Longrightarrow> 2 ^ 16 \<le> mantissa v n" by simp_all
qed

lemma compact_split:
  assumes "m < (2 :: nat) ^ 23"
  shows "(m + 2 ^ 24 * n) div 2 ^ 24 = n" and "(m + 2 ^ 24 * n) mod 2 ^ 23 = m"
proof -
  show "(m + 2 ^ 24 * n) div 2 ^ 24 = n" using assms by simp
  have "m + 2 ^ 24 * n = m + 2 ^ 23 * (2 * n)" by simp
  then have "(m + 2 ^ 24 * n) mod 2 ^ 23 = m mod 2 ^ 23" by (simp only: mod_mult_self2)
  with assms show "(m + 2 ^ 24 * n) mod 2 ^ 23 = m" by simp
qed

text \<open>What is kept: the low \<open>k\<close> bytes are cleared, with \<open>k\<close> the bytes past the mantissa.\<close>

lemma of_compact_of:
  assumes "is_bytes v n"
  shows "of_compact (compact_of v n) =
    (let k = (if mantissa v n < 2 ^ 23 then n - 3 else n - 2) in v div 256 ^ k * 256 ^ k)"
proof -
  note b = mantissa_bounds(1) [OF assms]
  show ?thesis
  proof (cases "mantissa v n < 2 ^ 23")
    case True
    then have e: "compact_of v n = mantissa v n + 2 ^ 24 * n" by (simp only: compact_of_def if_True)
    note c = compact_split [OF True, of n, folded e]
    show ?thesis using True by (simp only: of_compact_def Let_def c) (simp add: mantissa_def)
  next
    case False
    then have e: "compact_of v n = mantissa v n div 256 + 2 ^ 24 * (n + 1)" by (simp only: compact_of_def if_False)
    have "mantissa v n div 256 < 2 ^ 23" using b by simp
    note c = compact_split [OF this, of "n + 1", folded e]
    have d: "v div 256 ^ (n - 3) div 256 = v div 256 ^ (n - 2)" if "3 < n"
      using that by (simp add: div_mult2_eq [symmetric] power_Suc2 [symmetric] Suc_diff_le [symmetric] del: power_Suc)
    have o: "of_compact (compact_of v n) =
        (if n + 1 \<le> 3 then mantissa v n div 256 div 256 ^ (3 - (n + 1)) else mantissa v n div 256 * 256 ^ (n + 1 - 3))"
      by (simp only: of_compact_def Let_def c)
    consider "n = 0" | "n = 1" | "n = 2" | "n = 3" | "3 < n" by linarith
    then show ?thesis
    proof cases
      case 5
      with False d [OF 5] show ?thesis unfolding o by (simp add: mantissa_def Let_def)
    qed (use False assms o in \<open>simp_all add: mantissa_def is_bytes_def\<close>)
  qed
qed

lemma floor_power_le:
  fixes v :: nat
  assumes "256 ^ j \<le> v" "k \<le> j" shows "256 ^ j \<le> v div 256 ^ k * 256 ^ k"
proof -
  have e: "(256 :: nat) ^ j = 256 ^ (j - k) * 256 ^ k" using assms(2) by (simp add: power_add [symmetric])
  with assms(1) have "256 ^ (j - k) \<le> v div 256 ^ k" by (simp add: less_eq_div_iff_mult_less_eq)
  then show ?thesis unfolding e by (rule mult_le_mono1)
qed

text \<open>The mantissa after rounding: unchanged, or with its low byte cleared.\<close>

lemma mantissa_floor:
  assumes "k = (if mantissa v n < 2 ^ 23 then n - 3 else n - 2)"
  shows "mantissa (v div 256 ^ k * 256 ^ k) n =
    (if mantissa v n < 2 ^ 23 \<or> n \<le> 2 then mantissa v n else mantissa v n div 256 * 256)"
proof (cases "mantissa v n < 2 ^ 23 \<or> n \<le> 2")
  case True
  then show ?thesis using assms by (auto simp: mantissa_def)
next
  case False
  then have k: "k = n - 2" "2 < n" using assms by auto
  have e: "(256 :: nat) ^ (n - 2) = 256 * 256 ^ (n - 3)"
    using k(2) by (simp add: power_Suc [symmetric] Suc_diff_le [symmetric] del: power_Suc)
  have "mantissa (v div 256 ^ k * 256 ^ k) n = v div (256 * 256 ^ (n - 3)) * (256 * 256 ^ (n - 3)) div 256 ^ (n - 3)"
    using k by (auto simp: mantissa_def e)
  also have "\<dots> = v div (256 ^ (n - 3) * 256) * 256" by (simp add: mult.commute mult.left_commute mult.assoc)
  also have "\<dots> = mantissa v n div 256 * 256" using k(2) by (auto simp: mantissa_def div_mult2_eq)
  finally show ?thesis using False by simp
qed

lemma compact_floor:
  assumes n: "is_bytes v n" and w: "w = of_compact (compact_of v n)"
  shows "w \<le> v" and "is_bytes w n" and "compact_of w n = compact_of v n" and "2 ^ 15 * (v - w) \<le> v"
proof -
  define k where "k = (if mantissa v n < 2 ^ 23 then n - 3 else n - 2)"
  have we: "w = v div 256 ^ k * 256 ^ k" unfolding w of_compact_of [OF n] k_def Let_def ..
  then show le: "w \<le> v" by simp
  have "256 ^ (n - 1) \<le> w" if "n \<noteq> 0"
    unfolding we by (rule floor_power_le) (use n that in \<open>auto simp: is_bytes_def k_def\<close>)
  then show "is_bytes w n" using n le by (auto simp: is_bytes_def)
  have m: "mantissa w n = (if mantissa v n < 2 ^ 23 \<or> n \<le> 2 then mantissa v n else mantissa v n div 256 * 256)"
    unfolding we by (rule mantissa_floor) (simp add: k_def)
  have "\<not> x div 256 * 256 < 2 ^ 23" if "\<not> x < 2 ^ 23" for x :: nat using that by simp
  with m show "compact_of w n = compact_of v n" by (auto simp: compact_of_def)
  have d: "v - w = v mod 256 ^ k" unfolding we by (simp add: minus_div_mult_eq_mod)
  show "2 ^ 15 * (v - w) \<le> v"
  proof (cases "k = 0")
    case False
    have "2 ^ 15 * 256 ^ k \<le> v"
    proof (cases "mantissa v n < 2 ^ 23")
      case True
      then have k: "k = n - 3" "3 < n" using False by (auto simp: k_def)
      have "2 ^ 16 * 256 ^ k \<le> v"
        using mantissa_bounds(2) [OF n] k by (simp add: mantissa_def less_eq_div_iff_mult_less_eq)
      then show ?thesis by simp
    next
      case mf: False
      then have k: "k = n - 2" "2 < n" using False by (auto simp: k_def)
      have e: "(256 :: nat) ^ k = 256 * 256 ^ (n - 3)"
        using k by (simp add: power_Suc [symmetric] Suc_diff_le [symmetric] del: power_Suc)
      have "2 ^ 23 * 256 ^ (n - 3) \<le> v"
        using mf k by (cases "n = 3") (simp_all add: mantissa_def not_less less_eq_div_iff_mult_less_eq)
      then show ?thesis by (simp add: e)
    qed
    moreover have "v - w \<le> 256 ^ k" unfolding d by (simp add: less_imp_le)
    ultimately show ?thesis using mult_le_mono2 le_trans by blast
  qed (simp add: we)
qed

lemma of_uint64_val [simp]: "limbs_ok (base_uint_of_uint64 b)" "val (base_uint_of_uint64 b) = unat b"
proof -
  show "limbs_ok (base_uint_of_uint64 b)" by (simp add: base_uint_of_uint64_def limbs_ok_def WIDTH_def)
  have lo: "unat (ucast b :: uint32) = unat b mod 2 ^ 32"
    by (simp add: unsigned_ucast_eq take_bit_eq_mod)
  have "unat b div 2 ^ 32 < 2 ^ 32" using uint64_less [of b] by (simp add: less_mult_imp_div_less)
  then have hi: "unat (ucast (drop_bit 32 b) :: uint32) = unat b div 2 ^ 32"
    unfolding unsigned_ucast_eq unat_high by (simp add: take_bit_nat_eq_self)
  show "val (base_uint_of_uint64 b) = unat b"
    unfolding base_uint_of_uint64_def by (simp only: append_Cons val.simps append_Nil val_replicate_0 lo hi) simp
qed

lemma val_eq_0: "val xs = 0 \<longleftrightarrow> (\<forall>x \<in> set xs. x = 0)"
  by (induction xs) (auto simp: unsigned_eq_0_iff)

lemma two_digits:
  fixes v :: nat
  assumes "x < B" "y < B" "v < B * B"
  shows "x + B * (y + B * z) = v \<longleftrightarrow> z = 0 \<and> y = v div B \<and> x = v mod B"
proof
  assume e: "x + B * (y + B * z) = v"
  then have d: "v mod B = x" "v div B = y + B * z" using assms(1) by auto
  have "v div B < B" using assms(3) by (rule less_mult_imp_div_less)
  then have "B * z < B * 1" using d(2) unfolding mult_1_right by linarith
  then have "z = 0" by (simp only: mult_less_cancel1 less_one)
  with d show "z = 0 \<and> y = v div B \<and> x = v mod B" by simp
qed auto

lemma EqualTo_val: assumes "limbs_ok a" shows "EqualTo a b \<longleftrightarrow> val a = unat b"
proof -
  obtain x0 x1 x2 x3 x4 x5 x6 x7 where a: "a = [x0, x1, x2, x3, x4, x5, x6, x7]"
    using assms by (auto simp: limbs_ok_def WIDTH_def length_Suc_conv numeral_eq_Suc)
  have s: "{2..<WIDTH} = {2, 3, 4, 5, 6, 7}" by (auto simp: WIDTH_def)
  have lo: "ucast x0 = b AND 0xffffffff \<longleftrightarrow> unat x0 = unat b mod 2 ^ 32"
  proof -
    have "b AND 0xffffffff = take_bit 32 b" by (simp add: take_bit_eq_mask mask_eq_exp_minus_1)
    moreover have "unat (take_bit 32 b) = unat b mod 2 ^ 32" unfolding unsigned_take_bit_eq by (rule take_bit_eq_mod)
    ultimately show ?thesis by (metis unat_ucast32_up unsigned_word_eqI)
  qed
  have hi: "ucast x1 = drop_bit 32 b \<longleftrightarrow> unat x1 = unat b div 2 ^ 32"
    by (metis unat_ucast32_up unat_high unsigned_word_eqI)
  have "EqualTo a b \<longleftrightarrow> x2 = 0 \<and> x3 = 0 \<and> x4 = 0 \<and> x5 = 0 \<and> x6 = 0 \<and> x7 = 0 \<and>
      unat x1 = unat b div 2 ^ 32 \<and> unat x0 = unat b mod 2 ^ 32"
    unfolding EqualTo_def s a lo [symmetric] hi [symmetric] by auto
  also have "\<dots> \<longleftrightarrow> val [x2, x3, x4, x5, x6, x7] = 0 \<and> unat x1 = unat b div 2 ^ 32 \<and> unat x0 = unat b mod 2 ^ 32"
    unfolding val_eq_0 by auto
  also have "\<dots> \<longleftrightarrow> unat x0 + 2 ^ 32 * (unat x1 + 2 ^ 32 * val [x2, x3, x4, x5, x6, x7]) = unat b"
    by (rule two_digits [symmetric]) (use uint32_less [of x0] uint32_less [of x1] uint64_less [of b] in simp_all)
  finally show ?thesis unfolding a by simp
qed

lemma GetLow64_val: assumes "limbs_ok a" shows "unat (GetLow64 a) = val a mod 2 ^ 64"
proof -
  obtain x0 x1 xs where a: "a = x0 # x1 # xs"
    using assms by (auto simp: limbs_ok_def WIDTH_def length_Suc_conv numeral_eq_Suc)
  have "unat (push_bit 32 (ucast x1 :: uint64)) = 2 ^ 32 * unat x1"
    using uint32_less [of x1]
    by (simp add: push_bit_eq_mult unat_word_ariths unat_ucast32_up)
  moreover have "(ucast x0 :: uint64) AND push_bit 32 (ucast x1) = 0"
    by (rule bit_word_eqI) (auto simp: bit_simps dest: bit_imp_le_length)
  ultimately have "unat (GetLow64 a) = unat x0 + 2 ^ 32 * unat x1"
    using uint32_less [of x0] uint32_less [of x1]
    by (simp add: GetLow64_def a disjunctive_add_eq_or [symmetric] unat_word_ariths unat_ucast32_up)
  moreover have "val a = (unat x0 + 2 ^ 32 * unat x1) + 2 ^ 64 * val xs" by (simp add: a)
  ultimately show ?thesis using uint64_less [of "GetLow64 a"] by simp
qed

lemma unat_and_mask23: "unat (c AND 0x007fffff :: uint32) = unat c mod 2 ^ 23"
proof -
  have "c AND 0x007fffff = take_bit 23 c" by (simp add: take_bit_eq_mask mask_eq_exp_minus_1)
  then show ?thesis unfolding take_bit_eq_mod [symmetric] by (simp only: unsigned_take_bit_eq)
qed

lemma of_compact_less_iff:
  assumes m: "0 < m" "m < (2 :: nat) ^ 23" and s: "3 < s"
  shows "2 ^ 256 \<le> m * 256 ^ (s - 3) \<longleftrightarrow> s > 34 \<or> (m > 0xff \<and> s > 33) \<or> (m > 0xffff \<and> s > 32)"
proof -
  have ub: "m * 256 ^ (s - 3) < 2 ^ 256" if "s \<le> 32"
  proof -
    have "m * 256 ^ (s - 3) \<le> m * 256 ^ 29" using that by (intro mult_le_mono2 power_increasing) simp_all
    also have "\<dots> < 2 ^ 23 * 256 ^ 29" using m by simp
    finally show ?thesis by simp
  qed
  have lb: "2 ^ 256 \<le> m * 256 ^ (s - 3)" if "34 < s"
  proof -
    have "(256 :: nat) ^ 32 \<le> 256 ^ (s - 3)" using that by (intro power_increasing) simp_all
    also have "\<dots> \<le> m * 256 ^ (s - 3)" using m by simp
    finally show ?thesis by simp
  qed
  consider "s \<le> 32" | "s = 33" | "s = 34" | "34 < s" by linarith
  then show ?thesis
  proof cases
    case 1 with ub show ?thesis by simp
  next
    case 4 with lb show ?thesis by simp
  qed (use m in auto)
qed

lemma SetCompact_val:
  assumes "SetCompact c = (a, neg, ov)"
  shows "limbs_ok a" and "ov \<longleftrightarrow> 2 ^ 256 \<le> of_compact (unat c)" and "\<not> ov \<Longrightarrow> val a = of_compact (unat c)"
    and "c AND 0x00800000 = 0 \<Longrightarrow> \<not> neg"
proof -
  let ?s = "unat c div 2 ^ 24" and ?m = "unat c mod 2 ^ 23"
  have s: "unat (drop_bit 24 c) = ?s" unfolding unat_drop_bit_eq by (rule drop_bit_eq_div)
  have w: "unat (drop_bit k (c AND 0x007fffff)) = ?m div 2 ^ k" for k
    unfolding unat_drop_bit_eq unat_and_mask23 by (rule drop_bit_eq_div)
  define x where "x = (if ?s \<le> 3 then drop_bit (8 * (3 - ?s)) (c AND 0x007fffff) else c AND 0x007fffff)"
  have x: "unat x = (if ?s \<le> 3 then ?m div 256 ^ (3 - ?s) else ?m)"
    by (simp only: x_def w unat_and_mask23 pow256 split: if_split) simp
  have sc: "SetCompact c = (if ?s \<le> 3 then base_uint_of_uint64 (ucast x) else base_uint_shl (base_uint_of_uint64 (ucast x)) (8 * (?s - 3)),
      x \<noteq> 0 \<and> c AND 0x00800000 \<noteq> 0, x \<noteq> 0 \<and> (?s > 34 \<or> (x > 0xff \<and> ?s > 33) \<or> (x > 0xffff \<and> ?s > 32)))"
    unfolding SetCompact_def s Let_def x_def ..
  then have a: "a = (if ?s \<le> 3 then base_uint_of_uint64 (ucast x) else base_uint_shl (base_uint_of_uint64 (ucast x)) (8 * (?s - 3)))"
    and neg: "neg \<longleftrightarrow> x \<noteq> 0 \<and> c AND 0x00800000 \<noteq> 0"
    and ov: "ov \<longleftrightarrow> x \<noteq> 0 \<and> (?s > 34 \<or> (x > 0xff \<and> ?s > 33) \<or> (x > 0xffff \<and> ?s > 32))"
    using assms by simp_all
  show "limbs_ok a" unfolding a by (simp add: limbs_ok_shl)
  show "c AND 0x00800000 = 0 \<Longrightarrow> \<not> neg" using neg by simp
  have n: "(x \<noteq> 0) = (0 < unat x)" "(x > 0xff) = (unat x > 0xff)" "(x > 0xffff) = (unat x > 0xffff)"
    by (simp_all add: word_less_nat_alt unat_gt_0)
  have m: "?m < 2 ^ 23" by simp
  show ov': "ov \<longleftrightarrow> 2 ^ 256 \<le> of_compact (unat c)"
  proof (cases "?s \<le> 3")
    case True
    have "?m div 256 ^ (3 - ?s) \<le> ?m" by simp
    also have "\<dots> < 2 ^ 256" using m by simp
    finally have "of_compact (unat c) < 2 ^ 256" using True by (simp only: of_compact_def Let_def if_True)
    then show ?thesis using True unfolding ov by auto
  next
    case False
    then have x': "unat x = ?m" and o: "of_compact (unat c) = ?m * 256 ^ (?s - 3)"
      unfolding x by (simp_all only: of_compact_def Let_def if_False)
    show ?thesis
    proof (cases "?m = 0")
      case True
      with x' o show ?thesis unfolding ov n by (simp only: x' o) simp
    next
      case mp: False
      then show ?thesis using of_compact_less_iff [OF _ m, of ?s] False unfolding ov n o x' by simp
    qed
  qed
  assume nov: "\<not> ov"
  have u: "unat (ucast x :: uint64) = unat x" by (rule unat_ucast32_up)
  show "val a = of_compact (unat c)"
  proof (cases "?s \<le> 3")
    case True
    then show ?thesis unfolding a of_compact_def Let_def by (simp only: if_True of_uint64_val u x)
  next
    case False
    then have x': "unat x = ?m" and o: "of_compact (unat c) = ?m * 256 ^ (?s - 3)"
      unfolding x by (simp_all only: of_compact_def Let_def if_False)
    have "?m * 2 ^ (8 * (?s - 3)) < 2 ^ 256" using nov unfolding ov' o pow256 by simp
    then show ?thesis using False unfolding a o pow256
      by (simp only: if_False val_shl of_uint64_val u x' push_bit_eq_mult take_bit_nat_eq_self)
  qed
qed

lemma and_exp_nat: "(w AND 0x00800000 \<noteq> 0) \<longleftrightarrow> 2 ^ 23 \<le> unat w" if "unat (w :: uint32) < 2 ^ 24"
proof -
  have "w AND 0x00800000 \<noteq> 0 \<longleftrightarrow> bit w 23" using and_exp_eq_0_iff_not_bit [of w 23] by simp
  also have "\<dots> \<longleftrightarrow> bit (unat w) 23" by (simp add: bit_unat32)
  also have "\<dots> \<longleftrightarrow> odd (unat w div 2 ^ 23)" by (rule bit_iff_odd)
  also have "\<dots> \<longleftrightarrow> 2 ^ 23 \<le> unat w"
  proof (cases "2 ^ 23 \<le> unat w")
    case True
    then have "unat w div 2 ^ 23 = 1" using that by (intro div_nat_eqI) simp_all
    with True show ?thesis by simp
  qed simp
  finally show ?thesis .
qed

lemma GetCompact_val:
  assumes "limbs_ok a"
  defines "n \<equiv> (base_uint_bits a + 7) div 8"
  shows "\<exists>c. GetCompact a False = Some c \<and> unat c = compact_of (val a) n \<and> c AND 0x00800000 = 0"
proof -
  note n = base_uint_bytes [OF assms(1), folded n_def]
  define w where "w = (if n \<le> 3 then ucast (push_bit (8 * (3 - n)) (GetLow64 a))
                      else ucast (GetLow64 (base_uint_shr a (8 * (n - 3)))) :: uint32)"
  have m: "mantissa (val a) n < 2 ^ 24" by (rule mantissa_bounds [OF n(1)])
  have u32: "unat (ucast (y :: uint64) :: uint32) = unat y mod 2 ^ 32" for y
    by (simp add: unsigned_ucast_eq take_bit_eq_mod)
  have w: "unat w = mantissa (val a) n"
  proof (cases "n \<le> 3")
    case True
    have "(256 :: nat) ^ n \<le> 256 ^ 3" using True by (intro power_increasing) simp_all
    then have "val a < 2 ^ 24" using n(1) by (simp add: is_bytes_def)
    then have "unat (GetLow64 a) = val a" by (simp add: GetLow64_val assms(1))
    then have "unat (push_bit (8 * (3 - n)) (GetLow64 a)) = val a * 2 ^ (8 * (3 - n)) mod 2 ^ 64"
      unfolding unsigned_push_bit_eq by (simp add: push_bit_eq_mult take_bit_eq_mod)
    then have "unat w = mantissa (val a) n mod 2 ^ 64 mod 2 ^ 32"
      using True by (simp only: w_def if_True u32 mantissa_def pow256)
    with m show ?thesis by simp
  next
    case False
    have "val (base_uint_shr a (8 * (n - 3))) = mantissa (val a) n"
      using False assms(1) by (simp only: val_shr mantissa_def if_False pow256 drop_bit_eq_div)
    then have "unat w = mantissa (val a) n mod 2 ^ 64 mod 2 ^ 32"
      using False assms(1) by (simp only: w_def if_False u32 GetLow64_val limbs_ok_shr)
    with m show ?thesis by simp
  qed
  define w' where "w' = (if w AND 0x00800000 \<noteq> 0 then drop_bit 8 w else w)"
  define n' where "n' = (if w AND 0x00800000 \<noteq> 0 then n + 1 else n)"
  have b: "w AND 0x00800000 \<noteq> 0 \<longleftrightarrow> 2 ^ 23 \<le> mantissa (val a) n" using and_exp_nat [of w] m by (simp add: w)
  have "unat (drop_bit 8 w) = mantissa (val a) n div 256" unfolding unat_drop_bit_eq w by (simp add: drop_bit_eq_div)
  then have w': "unat w' = (if mantissa (val a) n < 2 ^ 23 then mantissa (val a) n else mantissa (val a) n div 256)"
    unfolding w'_def using w b by (auto simp: not_less)
  then have lt: "unat w' < 2 ^ 23" using m by (auto simp: less_mult_imp_div_less)
  have c: "compact_of (val a) n = unat w' + 2 ^ 24 * n'"
    unfolding compact_of_def w' n'_def using b by (auto simp: not_less)
  have "unat w' = unat (take_bit 23 w')" unfolding unsigned_take_bit_eq using lt by (simp add: take_bit_nat_eq_self)
  then have t: "w' = take_bit 23 w'" by (rule unsigned_word_eqI)
  have z: "w' AND NOT 0x007fffff = 0"
  proof -
    have "NOT 0x007fffff = (NOT (mask 23) :: uint32)" by (simp add: mask_eq_exp_minus_1)
    then show ?thesis by (metis t and.right_neutral bit.conj_cancel_right bit.conj_zero_right take_bit_eq_mask and.assoc)
  qed
  have n': "n' \<le> 33" using n(2) by (simp add: n'_def)
  then have un: "unat (of_nat n' :: uint32) = n'" by (simp add: unsigned_of_nat take_bit_nat_eq_self)
  let ?c = "w' OR push_bit 24 (of_nat n')"
  have up: "unat (push_bit 24 (of_nat n' :: uint32)) = 2 ^ 24 * n'"
    unfolding unsigned_push_bit_eq un using n' by (simp add: push_bit_eq_mult take_bit_nat_eq_self)
  have d: "w' AND push_bit 24 (of_nat n') = 0"
    by (subst t, rule bit_word_eqI) (auto simp: bit_simps)
  have uc: "unat ?c = unat w' + 2 ^ 24 * n'"
    unfolding disjunctive_add_eq_or [OF d, symmetric] unat_word_ariths up
    using lt n' by simp
  have r: "?c AND 0x00800000 = 0"
  proof -
    have "\<not> bit ?c 23" by (subst t) (simp only: bit_or_iff bit_take_bit_iff bit_push_bit_iff, simp)
    then show ?thesis using and_exp_eq_0_iff_not_bit [of ?c 23] by simp
  qed
  have e: "(if w AND 0x00800000 \<noteq> 0 then (drop_bit 8 w, n + 1) else (w, n)) = (w', n')"
    by (simp add: w'_def n'_def)
  have "GetCompact a False = Some ?c"
    unfolding GetCompact_def Let_def n_def [symmetric] w_def [symmetric] e prod.case
    using z n' by (simp only: if_False not_not simp_thms) simp
  with uc c r show ?thesis by auto
qed

lemma limbs_ok_unique: assumes "limbs_ok a" "limbs_ok b" "val a = val b" shows "a = b"
proof (rule nth_equalityI)
  show l: "length a = length b" using assms by (simp add: limbs_ok_def)
  fix i assume i: "i < length a"
  show "a ! i = b ! i"
  proof (rule bit_word_eqI)
    fix n assume "n < LENGTH(32)"
    then have "n < 32" by simp
    then show "bit (a ! i) n = bit (b ! i) n"
      using bit_val [of a "32 * i + n"] bit_val [of b "32 * i + n"] i l assms(3) by simp
  qed
qed

lemma ArithToUint256_val: assumes "limbs_ok a" shows "unat (ArithToUint256 a) = val a"
proof -
  have "le_nat (concat (map (\<lambda>x. le_bytes 4 (unat x)) xs)) = val xs" for xs :: "uint32 list"
  proof (induction xs)
    case (Cons x xs)
    have "le_nat (le_bytes 4 (unat x)) = unat x" using uint32_less [of x] by (intro le_nat_le_bytes_id) simp
    with Cons show ?case by (simp add: le_nat_append)
  qed simp
  then show ?thesis
    using limbs_ok_val_less [OF assms] by (simp add: ArithToUint256_def unsigned_of_nat take_bit_nat_eq_self)
qed

lemma UintToArith256_val: "limbs_ok (UintToArith256 h)" "val (UintToArith256 h) = unat h"
proof -
  show "limbs_ok (UintToArith256 h)" by (simp add: UintToArith256_def limbs_ok_def)
  have l: "val (map (\<lambda>x. of_nat (le_nat (take 4 (drop (x * 4) bs)))) [0..<k]) = le_nat bs" if "length bs = 4 * k" for bs k
    using that
  proof (induction k arbitrary: bs)
    case (Suc k)
    have e: "[0..<Suc k] = 0 # map Suc [0..<k]" by (simp only: map_Suc_upt upt_conv_Cons zero_less_Suc)
    have lt: "le_nat (take 4 bs) < 256 ^ 4" using le_nat_less [of "take 4 bs"] Suc.prems by simp
    have u: "unat (of_nat (le_nat (take 4 bs)) :: uint32) = le_nat (take 4 bs)"
      using lt by (simp add: unsigned_of_nat take_bit_nat_eq_self)
    have "val (map (\<lambda>x. of_nat (le_nat (take 4 (drop (x * 4) bs)))) [0..<Suc k]) =
        le_nat (take 4 bs) + 2 ^ 32 * val (map (\<lambda>x. of_nat (le_nat (take 4 (drop (x * 4) (drop 4 bs))))) [0..<k])"
      unfolding e by (simp add: u o_def add.commute)
    also have "\<dots> = le_nat (take 4 bs) + 256 ^ 4 * le_nat (drop 4 bs)" using Suc.IH [of "drop 4 bs"] Suc.prems by simp
    also have "\<dots> = le_nat (take 4 bs @ drop 4 bs)" unfolding le_nat_append using Suc.prems by simp
    finally show ?case by simp
  qed simp
  have "unat h < 2 ^ 256" using unsigned_less [of h] by simp
  then show "val (UintToArith256 h) = unat h" unfolding UintToArith256_def
    by (subst l) (simp_all add: ser_uint256_def WIDTH_def)
qed

section \<open>Properties\<close>

text \<open>
  C14. The 256-bit integers (\<^verbatim>\<open>arith_uint256.cpp\<close>, \<^verbatim>\<open>arith_uint256.h\<close>) compute: on arrays of eight
  32-bit limbs the carry loops of addition, subtraction, negation, complement and both
  multiplications, the shifts, the three-way comparison, the comparison with a 64-bit number and
  the bit count are those operations on natural numbers modulo \<open>2 ^ 256\<close>; the shift-and-subtract
  division raises for a zero divisor and is the quotient otherwise.
\<close>

theorem base_uint_refines:
  assumes a: "limbs_ok a" and b: "limbs_ok b"
  shows "(limbs_ok (base_uint_add a b) \<and> val (base_uint_add a b) = (val a + val b) mod 2 ^ 256) \<and>
    (limbs_ok (base_uint_sub a b) \<and> val (base_uint_sub a b) = (val a + (2 ^ 256 - val b)) mod 2 ^ 256) \<and>
    (limbs_ok (base_uint_neg a) \<and> val (base_uint_neg a) = (2 ^ 256 - val a) mod 2 ^ 256) \<and>
    (limbs_ok (base_uint_compl a) \<and> val (base_uint_compl a) = 2 ^ 256 - 1 - val a) \<and>
    (limbs_ok (base_uint_mul a b) \<and> val (base_uint_mul a b) = val a * val b mod 2 ^ 256) \<and>
    (limbs_ok (base_uint_mul32 a k) \<and> val (base_uint_mul32 a k) = val a * unat k mod 2 ^ 256) \<and>
    (limbs_ok (base_uint_shl a s) \<and> val (base_uint_shl a s) = val a * 2 ^ s mod 2 ^ 256) \<and>
    (limbs_ok (base_uint_shr a s) \<and> val (base_uint_shr a s) = val a div 2 ^ s) \<and>
    CompareTo a b = sgn (int (val a) - int (val b)) \<and>
    (EqualTo a w \<longleftrightarrow> val a = unat w) \<and>
    (val a < 2 ^ base_uint_bits a \<and> (base_uint_bits a = 0 \<or> 2 ^ (base_uint_bits a - 1) \<le> val a)) \<and>
    (if val b = 0 then base_uint_div a b = Inl Division_by_zero
     else \<exists>q. base_uint_div a b = Inr q \<and> limbs_ok q \<and> val q = val a div val b)"
  using val_shl [OF a, of s] val_shr [OF a, of s] unfolding push_bit_eq_mult take_bit_eq_mod drop_bit_eq_div
  by (intro conjI add_val [OF a b] sub_val [OF a b] neg_val [OF a] compl_val [OF a] mul_val [OF a b]
    mul32_val [OF a] EqualTo_val [OF a] CompareTo_val [OF a b] div_val [OF a b] limbs_ok_shl limbs_ok_shr
    base_uint_bits_ok [OF a, unfolded is_bits_def] a)

theorem base_uint_refines_witness:
  "limbs_ok (base_uint_of_uint64 7) \<and> \<not> val (base_uint_of_uint64 2) = 0 \<and>
   (\<exists>q. base_uint_div (base_uint_of_uint64 7) (base_uint_of_uint64 2) = Inr q \<and> val q = 3)"
  using base_uint_refines [where a = "base_uint_of_uint64 7" and b = "base_uint_of_uint64 2" and k = 3 and s = 1 and w = 7]
  by (simp, blast)

text \<open>
  C34. The compact format of difficulty targets (\<^verbatim>\<open>GetCompact\<close>, \<^verbatim>\<open>SetCompact\<close> of
  \<^verbatim>\<open>arith_uint256.cpp\<close>): writing any 256-bit number passes both assertions; reading it back sets
  neither the negative nor the overflow flag and gives the number rounded down by less than one
  part in \<open>2 ^ 15\<close>; and writing the rounded number gives the same 32 bits.
\<close>

theorem compact_roundtrip:
  assumes "limbs_ok a"
  shows "\<exists>c b. GetCompact a False = Some c \<and> SetCompact c = (b, False, False) \<and> limbs_ok b \<and>
    val b \<le> val a \<and> 2 ^ 15 * (val a - val b) \<le> val a \<and> GetCompact b False = Some c"
proof -
  let ?n = "(base_uint_bits a + 7) div 8"
  obtain c where c: "GetCompact a False = Some c" "unat c = compact_of (val a) ?n" "c AND 0x00800000 = 0"
    using GetCompact_val [OF assms] by auto
  obtain b neg ov where s: "SetCompact c = (b, neg, ov)" by (metis prod_cases3)
  note b = SetCompact_val [OF s]
  note n = base_uint_bytes [OF assms]
  note f = compact_floor [OF n(1) refl, folded c(2)]
  have lt: "of_compact (unat c) < 2 ^ 256" using f(1) limbs_ok_val_less [OF assms] by linarith
  then have ov: "\<not> ov" "\<not> neg" and v: "val b = of_compact (unat c)" using b c(3) by auto
  have "is_bytes (val b) ((base_uint_bits b + 7) div 8)" by (rule base_uint_bytes [OF b(1)])
  then have e: "(base_uint_bits b + 7) div 8 = ?n" using f(2) v by (metis is_bytes_unique)
  obtain d where d: "GetCompact b False = Some d" "unat d = compact_of (val b) ?n"
    using GetCompact_val [OF b(1)] unfolding e by auto
  then have "unat d = unat c" using f(3) v c(2) by simp
  then have "d = c" by (rule unsigned_word_eqI)
  with c s ov d b(1) f v show ?thesis by auto
qed

theorem compact_roundtrip_witness:
  "\<exists>c b. GetCompact (base_uint_of_uint64 0x123456789) False = Some c \<and> SetCompact c = (b, False, False) \<and>
    val b \<le> 0x123456789 \<and> GetCompact b False = Some c"
  using compact_roundtrip [of "base_uint_of_uint64 0x123456789"] by auto

end
