(* ===== verification/Chain.thy ===== *)
theory Chain
  imports Transaction Arith
begin

text \<open>
  The block tree and the active chain: \<^verbatim>\<open>src/chain.h\<close> and \<^verbatim>\<open>src/chain.cpp\<close>. Block
  index entries live in a store from addresses to records; \<^verbatim>\<open>pprev\<close> and \<^verbatim>\<open>pskip\<close> are
  optional addresses. The walks along the pointers are recursive on the height, which is a
  natural number here because the guards of the code exclude negative ones. A failed
  \<^verbatim>\<open>assert\<close> is a value of \<open>chain_error\<close>.
\<close>

section \<open>Block index entries\<close>

type_synonym addr = nat

record CBlockIndex =
  bi_hash :: uint256
  bi_pprev :: "addr option"
  bi_pskip :: "addr option"
  bi_nHeight :: nat
  bi_nChainWork :: arith_uint256
  bi_nTx :: uint32
  bi_nChainTx :: uint32
  bi_nStatus :: uint32
  bi_nVersion :: uint32
  bi_nTime :: uint32
  bi_nBits :: uint32
  bi_nTimeMax :: uint32
  bi_prevoutStake :: COutPoint
  bi_nStakeModifier :: uint256
  bi_nSequenceId :: int

type_synonym store = "addr \<Rightarrow> CBlockIndex"

datatype chain_error = Assert_pprev | Assert_same | Assert_status

text \<open>
  A run of a loop that may not end: \<open>None\<close> if it does not, otherwise an error or a result.
\<close>

type_synonym ('e, 'a) run = "('e + 'a) option"

definition returns :: "'a \<Rightarrow> ('e, 'a) run" where "returns x = Some (Inr x)"

fun run_bind :: "('e, 'a) run \<Rightarrow> ('a \<Rightarrow> ('e, 'b) run) \<Rightarrow> ('e, 'b) run" where
  "run_bind None f = None"
| "run_bind (Some (Inl e)) f = Some (Inl e)"
| "run_bind (Some (Inr x)) f = f x"

lemma run_bind_returns [simp]: "run_bind (returns x) f = f x"
  by (simp add: returns_def)

definition BLOCK_VALID_MASK :: uint32 where "BLOCK_VALID_MASK = 1 OR 2 OR 3 OR 4 OR 5"
definition BLOCK_FAILED_MASK :: uint32 where "BLOCK_FAILED_MASK = 32 OR 64"

definition IsValid :: "uint32 \<Rightarrow> CBlockIndex \<Rightarrow> chain_error + bool" where
  "IsValid nUpTo b =
     (if nUpTo AND NOT BLOCK_VALID_MASK \<noteq> 0 then Inl Assert_status
      else if bi_nStatus b AND BLOCK_FAILED_MASK \<noteq> 0 then Inr False
      else Inr (bi_nStatus b AND BLOCK_VALID_MASK \<ge> nUpTo))"

definition RaiseValidity :: "uint32 \<Rightarrow> CBlockIndex \<Rightarrow> chain_error + bool \<times> CBlockIndex" where
  "RaiseValidity nUpTo b =
     (if nUpTo AND NOT BLOCK_VALID_MASK \<noteq> 0 then Inl Assert_status
      else if bi_nStatus b AND BLOCK_FAILED_MASK \<noteq> 0 then Inr (False, b)
      else if bi_nStatus b AND BLOCK_VALID_MASK < nUpTo
        then Inr (True, b\<lparr>bi_nStatus := (bi_nStatus b AND NOT BLOCK_VALID_MASK) OR nUpTo\<rparr>)
      else Inr (False, b))"

definition GetBlockTime :: "CBlockIndex \<Rightarrow> int" where "GetBlockTime b = int (unat (bi_nTime b))"
definition GetBlockTimeMax :: "CBlockIndex \<Rightarrow> int" where "GetBlockTimeMax b = int (unat (bi_nTimeMax b))"

definition nMedianTimeSpan :: nat where "nMedianTimeSpan = 11"

text \<open>The times of at most \<open>k\<close> blocks back from \<open>p\<close>.\<close>

fun times_back :: "store \<Rightarrow> nat \<Rightarrow> addr option \<Rightarrow> int list" where
  "times_back s 0 p = []"
| "times_back s (Suc k) p =
     (case p of None \<Rightarrow> [] | Some a \<Rightarrow> GetBlockTime (s a) # times_back s k (bi_pprev (s a)))"

definition GetMedianTimePast :: "store \<Rightarrow> addr \<Rightarrow> int" where
  "GetMedianTimePast s a =
     (let pmedian = sort (times_back s nMedianTimeSpan (Some a)) in pmedian ! (length pmedian div 2))"

definition Index_IsProofOfStake :: "CBlockIndex \<Rightarrow> bool" where
  "Index_IsProofOfStake b \<longleftrightarrow> \<not> COutPoint_IsNull (bi_prevoutStake b)"

section \<open>The skip list\<close>

definition InvertLowestOne :: "nat \<Rightarrow> nat" where "InvertLowestOne n = n AND (n - 1)"

definition GetSkipHeight :: "nat \<Rightarrow> nat" where
  "GetSkipHeight height =
     (if height < 2 then 0
      else if height AND 1 \<noteq> 0 then InvertLowestOne (InvertLowestOne (height - 1)) + 1
      else InvertLowestOne height)"

lemma and_le_right: "(m :: nat) AND k \<le> k"
proof -
  have "int (m AND k) \<le> int k" unfolding of_nat_and_eq by (rule AND_upper2) simp
  then show ?thesis by simp
qed

lemma InvertLowestOne_le: "InvertLowestOne n \<le> n - 1"
  by (simp add: InvertLowestOne_def and_le_right)

lemma GetSkipHeight_less: "0 < height \<Longrightarrow> GetSkipHeight height < height"
  using InvertLowestOne_le [of height] InvertLowestOne_le [of "height - 1"]
    InvertLowestOne_le [of "InvertLowestOne (height - 1)"]
  by (auto simp: GetSkipHeight_def)

text \<open>The loop of \<^verbatim>\<open>GetAncestor\<close>.\<close>

function ancestor_walk :: "store \<Rightarrow> nat \<Rightarrow> addr \<Rightarrow> nat \<Rightarrow> chain_error + addr" where
  "ancestor_walk s height pindexWalk heightWalk =
     (if heightWalk > height then
        let heightSkip = GetSkipHeight heightWalk;
            heightSkipPrev = GetSkipHeight (heightWalk - 1)
        in case bi_pskip (s pindexWalk) of
             Some pskip \<Rightarrow>
               if heightSkip = height \<or>
                  (heightSkip > height \<and> \<not> (int heightSkipPrev < int heightSkip - 2 \<and> heightSkipPrev \<ge> height))
               then ancestor_walk s height pskip heightSkip
               else (case bi_pprev (s pindexWalk) of
                       None \<Rightarrow> Inl Assert_pprev
                     | Some pprev \<Rightarrow> ancestor_walk s height pprev (heightWalk - 1))
           | None \<Rightarrow>
               (case bi_pprev (s pindexWalk) of
                  None \<Rightarrow> Inl Assert_pprev
                | Some pprev \<Rightarrow> ancestor_walk s height pprev (heightWalk - 1))
      else Inr pindexWalk)"
  by pat_completeness auto
termination
  by (relation "measure (\<lambda>(_, _, _, heightWalk). heightWalk)") (auto simp: GetSkipHeight_less)

declare ancestor_walk.simps [simp del]

definition GetAncestor :: "store \<Rightarrow> addr \<Rightarrow> int \<Rightarrow> chain_error + addr option" where
  "GetAncestor s a height =
     (if height > int (bi_nHeight (s a)) \<or> height < 0 then Inr None
      else bind_res (ancestor_walk s (nat height) a (bi_nHeight (s a))) (\<lambda>p. Inr (Some p)))"

definition BuildSkip :: "addr \<Rightarrow> store \<Rightarrow> chain_error + store" where
  "BuildSkip a s =
     (case bi_pprev (s a) of
        None \<Rightarrow> Inr s
      | Some pprev \<Rightarrow>
          bind_res (GetAncestor s pprev (int (GetSkipHeight (bi_nHeight (s a)))))
            (\<lambda>pskip. Inr (s(a := (s a)\<lparr>bi_pskip := pskip\<rparr>))))"

section \<open>The active chain\<close>

text \<open>\<^verbatim>\<open>vChain\<close>: null pointers only appear while \<^verbatim>\<open>SetTip\<close> runs.\<close>

type_synonym chain = "addr option list"

definition Tip :: "chain \<Rightarrow> addr option" where
  "Tip c = (if length c > 0 then c ! (length c - 1) else None)"

definition chain_at :: "chain \<Rightarrow> int \<Rightarrow> addr option" where
  "chain_at c nHeight = (if nHeight < 0 \<or> nHeight \<ge> int (length c) then None else c ! nat nHeight)"

definition Contains :: "store \<Rightarrow> chain \<Rightarrow> addr \<Rightarrow> bool" where
  "Contains s c pindex \<longleftrightarrow> chain_at c (int (bi_nHeight (s pindex))) = Some pindex"

definition Next :: "store \<Rightarrow> chain \<Rightarrow> addr \<Rightarrow> addr option" where
  "Next s c pindex = (if Contains s c pindex then chain_at c (int (bi_nHeight (s pindex)) + 1) else None)"

definition Height :: "chain \<Rightarrow> int" where "Height c = int (length c) - 1"

text \<open>
  The loop of \<^verbatim>\<open>SetTip\<close>. It stops at a null pointer or at an entry that is in place; \<open>k\<close>
  bounds the number of rounds, and \<open>None\<close> says that it was not enough.
\<close>

fun set_tip_loop :: "store \<Rightarrow> nat \<Rightarrow> addr option \<Rightarrow> chain \<Rightarrow> chain option" where
  "set_tip_loop s k None c = Some c"
| "set_tip_loop s 0 (Some pindex) c =
     (if c ! bi_nHeight (s pindex) \<noteq> Some pindex then None else Some c)"
| "set_tip_loop s (Suc k) (Some pindex) c =
     (if c ! bi_nHeight (s pindex) \<noteq> Some pindex
      then set_tip_loop s k (bi_pprev (s pindex)) (c[bi_nHeight (s pindex) := Some pindex])
      else Some c)"

definition resize_chain :: "nat \<Rightarrow> chain \<Rightarrow> chain" where
  "resize_chain k c = take k c @ replicate (k - length c) None"

text \<open>\<^verbatim>\<open>SetTip\<close>; the height of the new tip bounds the rounds.\<close>

definition SetTip :: "store \<Rightarrow> addr option \<Rightarrow> chain \<Rightarrow> chain option" where
  "SetTip s pindex c =
     (case pindex of
        None \<Rightarrow> Some []
      | Some p \<Rightarrow> set_tip_loop s (bi_nHeight (s p) + 1) pindex (resize_chain (bi_nHeight (s p) + 1) c))"

text \<open>Walking back until the entry is on the chain, at most \<open>k\<close> times.\<close>

fun fork_loop :: "store \<Rightarrow> chain \<Rightarrow> nat \<Rightarrow> addr option \<Rightarrow> addr option option" where
  "fork_loop s c k None = Some None"
| "fork_loop s c 0 (Some p) = (if Contains s c p then Some (Some p) else None)"
| "fork_loop s c (Suc k) (Some p) =
     (if Contains s c p then Some (Some p) else fork_loop s c k (bi_pprev (s p)))"

definition FindFork :: "store \<Rightarrow> chain \<Rightarrow> addr option \<Rightarrow> chain_error + addr option option" where
  "FindFork s c pindex =
     (case pindex of
        None \<Rightarrow> Inr (Some None)
      | Some p \<Rightarrow>
          bind_res (if int (bi_nHeight (s p)) > Height c then GetAncestor s p (Height c) else Inr (Some p))
            (\<lambda>q. Inr (fork_loop s c (bi_nHeight (s p) + 1) q)))"

text \<open>\<^verbatim>\<open>GetLocator\<close> from a non-null entry: \<open>fuel\<close> bounds the rounds.\<close>

fun locator_loop ::
  "store \<Rightarrow> chain \<Rightarrow> nat \<Rightarrow> nat \<Rightarrow> addr option \<Rightarrow> uint256 list \<Rightarrow> chain_error + uint256 list option" where
  "locator_loop s c fuel nStep None vHave = Inr (Some vHave)"
| "locator_loop s c 0 nStep (Some p) vHave = Inr None"
| "locator_loop s c (Suc fuel) nStep (Some p) vHave =
     (let vHave = vHave @ [bi_hash (s p)] in
      if bi_nHeight (s p) = 0 then Inr (Some vHave)
      else
        let nHeight = max (int (bi_nHeight (s p)) - int nStep) 0;
            nStep' = (if length vHave > 10 then nStep * 2 else nStep)
        in if Contains s c p then locator_loop s c fuel nStep' (chain_at c nHeight) vHave
           else bind_res (GetAncestor s p nHeight) (\<lambda>q. locator_loop s c fuel nStep' q vHave))"

definition GetLocator :: "store \<Rightarrow> chain \<Rightarrow> addr option \<Rightarrow> chain_error + uint256 list option" where
  "GetLocator s c pindex =
     (let p = (case pindex of None \<Rightarrow> Tip c | Some _ \<Rightarrow> pindex) in
      locator_loop s c (case p of None \<Rightarrow> 0 | Some a \<Rightarrow> bi_nHeight (s a) + 1) 1 p [])"

text \<open>
  \<^verbatim>\<open>std::lower_bound\<close> on the index range from \<open>first\<close> of length \<open>count\<close>: the first position
  where \<open>before\<close> is false, found by bisection.
\<close>

function lower_bound :: "(nat \<Rightarrow> bool) \<Rightarrow> nat \<Rightarrow> nat \<Rightarrow> nat" where
  "lower_bound before first count =
     (if count > 0 then
        let step = count div 2; it = first + step in
        if before it then lower_bound before (it + 1) (count - (step + 1))
        else lower_bound before first step
      else first)"
  by pat_completeness auto
termination
  by (relation "measure (\<lambda>(_, _, count). count)") auto

declare lower_bound.simps [simp del]

definition FindEarliestAtLeast :: "store \<Rightarrow> chain \<Rightarrow> int \<Rightarrow> addr option" where
  "FindEarliestAtLeast s c nTime =
     (let lower = lower_bound (\<lambda>i. GetBlockTimeMax (s (the (c ! i))) < nTime) 0 (length c)
      in if lower = length c then None else c ! lower)"

text \<open>\<^verbatim>\<open>LastCommonAncestor\<close>: both walk back until they meet.\<close>

fun common_loop :: "store \<Rightarrow> nat \<Rightarrow> addr option \<Rightarrow> addr option \<Rightarrow> (addr option \<times> addr option) option" where
  "common_loop s 0 pa pb = (if pa \<noteq> pb \<and> pa \<noteq> None \<and> pb \<noteq> None then None else Some (pa, pb))"
| "common_loop s (Suc k) pa pb =
     (case (pa, pb) of
        (Some a, Some b) \<Rightarrow>
          if a \<noteq> b then common_loop s k (bi_pprev (s a)) (bi_pprev (s b)) else Some (pa, pb)
      | _ \<Rightarrow> Some (pa, pb))"

definition LastCommonAncestor :: "store \<Rightarrow> addr \<Rightarrow> addr \<Rightarrow> chain_error + addr option" where
  "LastCommonAncestor s a b =
     bind_res (if bi_nHeight (s a) > bi_nHeight (s b) then GetAncestor s a (int (bi_nHeight (s b))) else Inr (Some a)) (\<lambda>pa.
     bind_res (if bi_nHeight (s b) > bi_nHeight (s a) then GetAncestor s b (int (bi_nHeight (s a))) else Inr (Some b)) (\<lambda>pb.
       case common_loop s (bi_nHeight (s a) + 1) pa pb of
         None \<Rightarrow> Inl Assert_same
       | Some (pa, pb) \<Rightarrow> if pa = pb then Inr pa else Inl Assert_same))"

section \<open>The skip list finds the ancestor that the parent links lead to\<close>

text \<open>Following \<open>n\<close> parent links, and the ancestor at a height by following them.\<close>

fun go_back :: "store \<Rightarrow> nat \<Rightarrow> addr \<Rightarrow> addr option" where
  "go_back s 0 a = Some a"
| "go_back s (Suc n) a = Option.bind (bi_pprev (s a)) (go_back s n)"

definition naive_ancestor :: "store \<Rightarrow> addr \<Rightarrow> nat \<Rightarrow> addr option" where
  "naive_ancestor s a h = (if h \<le> bi_nHeight (s a) then go_back s (bi_nHeight (s a) - h) a else None)"

text \<open>A set of entries that is closed under parents, with heights and skip pointers in order.\<close>

definition tree_ok :: "store \<Rightarrow> addr set \<Rightarrow> bool" where
  "tree_ok s A \<longleftrightarrow> (\<forall>a \<in> A. (bi_pprev (s a) = None \<longleftrightarrow> bi_nHeight (s a) = 0) \<and>
     (\<forall>p. bi_pprev (s a) = Some p \<longrightarrow> p \<in> A \<and> bi_nHeight (s a) = Suc (bi_nHeight (s p))) \<and>
     (\<forall>q. bi_pskip (s a) = Some q \<longrightarrow> naive_ancestor s a (GetSkipHeight (bi_nHeight (s a))) = Some q))"

lemma go_back_add: "go_back s (m + n) a = Option.bind (go_back s m a) (go_back s n)"
  by (induction m arbitrary: a) (simp_all split: bind_split)

lemma tree_okD:
  assumes "tree_ok s A" "a \<in> A"
  shows "bi_pprev (s a) = None \<longleftrightarrow> bi_nHeight (s a) = 0"
    and "bi_pprev (s a) = Some p \<Longrightarrow> p \<in> A" "bi_pprev (s a) = Some p \<Longrightarrow> bi_nHeight (s a) = Suc (bi_nHeight (s p))"
    and "bi_pskip (s a) = Some q \<Longrightarrow> naive_ancestor s a (GetSkipHeight (bi_nHeight (s a))) = Some q"
  using assms by (auto simp: tree_ok_def)

lemma go_back_ok:
  assumes ok: "tree_ok s A"
  shows "a \<in> A \<Longrightarrow> n \<le> bi_nHeight (s a) \<Longrightarrow>
    \<exists>b. go_back s n a = Some b \<and> b \<in> A \<and> bi_nHeight (s b) = bi_nHeight (s a) - n"
proof (induction n arbitrary: a)
  case (Suc n)
  then obtain p where p: "bi_pprev (s a) = Some p" using tree_okD(1) [OF ok] by fastforce
  with Suc tree_okD [OF ok Suc.prems(1)] show ?case by fastforce
qed simp

lemma naive_ancestor_ok:
  assumes "tree_ok s A" "a \<in> A" "h \<le> bi_nHeight (s a)"
  obtains b where "naive_ancestor s a h = Some b" "b \<in> A" "bi_nHeight (s b) = h"
  using go_back_ok [OF assms(1,2), of "bi_nHeight (s a) - h"] assms(3) by (auto simp: naive_ancestor_def)

lemma naive_ancestor_self [simp]: "naive_ancestor s a (bi_nHeight (s a)) = Some a"
  by (simp add: naive_ancestor_def)

lemma naive_ancestor_trans:
  assumes ok: "tree_ok s A" "a \<in> A" and b: "naive_ancestor s a h = Some b" and i: "i \<le> h"
  shows "naive_ancestor s b i = naive_ancestor s a i"
proof -
  have h: "h \<le> bi_nHeight (s a)" using b by (simp add: naive_ancestor_def split: if_splits)
  then have hb: "bi_nHeight (s b) = h" using naive_ancestor_ok [OF ok h] b by auto
  have "bi_nHeight (s a) - i = (bi_nHeight (s a) - h) + (h - i)" using h i by simp
  then have "go_back s (bi_nHeight (s a) - i) a = Option.bind (go_back s (bi_nHeight (s a) - h) a) (go_back s (h - i))"
    by (simp only: go_back_add)
  with b h i hb show ?thesis by (simp add: naive_ancestor_def)
qed

lemma naive_ancestor_pprev:
  assumes "tree_ok s A" "a \<in> A" "bi_pprev (s a) = Some p" "h < bi_nHeight (s a)"
  shows "naive_ancestor s a h = naive_ancestor s p h"
  using tree_okD(3) [OF assms(1,2,3)] assms(3,4)
  by (auto simp: naive_ancestor_def Suc_diff_le)

lemma ancestor_walk_stop: "height \<ge> hw \<Longrightarrow> ancestor_walk s height a hw = Inr a"
  by (subst ancestor_walk.simps) simp

lemma ancestor_walk_step:
  assumes "height < hw" "bi_pprev (s a) = Some p"
  shows "ancestor_walk s height a hw = ancestor_walk s height p (hw - 1) \<or>
    (\<exists>q. bi_pskip (s a) = Some q \<and> height \<le> GetSkipHeight hw \<and>
      ancestor_walk s height a hw = ancestor_walk s height q (GetSkipHeight hw))"
proof (cases "bi_pskip (s a)")
  case None
  then have "ancestor_walk s height a hw = ancestor_walk s height p (hw - 1)"
    using assms by (subst ancestor_walk.simps) simp
  then show ?thesis by (rule disjI1)
next
  case (Some q)
  let ?C = "GetSkipHeight hw = height \<or> (GetSkipHeight hw > height \<and>
    \<not> (int (GetSkipHeight (hw - 1)) < int (GetSkipHeight hw) - 2 \<and> GetSkipHeight (hw - 1) \<ge> height))"
  have "ancestor_walk s height a hw =
      (if ?C then ancestor_walk s height q (GetSkipHeight hw) else ancestor_walk s height p (hw - 1))"
    using assms Some by (subst ancestor_walk.simps) (simp only: Let_def option.case if_True)
  moreover have "?C \<Longrightarrow> height \<le> GetSkipHeight hw" by linarith
  ultimately show ?thesis using Some by (cases ?C) (simp_all only: if_True if_False, blast+)
qed

lemma ancestor_walk_ok:
  assumes ok: "tree_ok s A"
  shows "a \<in> A \<Longrightarrow> hw = bi_nHeight (s a) \<Longrightarrow> height \<le> hw \<Longrightarrow>
    \<exists>b. naive_ancestor s a height = Some b \<and> ancestor_walk s height a hw = Inr b"
proof (induction hw arbitrary: a rule: less_induct)
  case (less hw)
  note d = tree_okD [OF ok less.prems(1)]
  show ?case
  proof (cases "height < hw")
    case False
    then have "height = bi_nHeight (s a)" using less.prems(2,3) by simp
    then show ?thesis using ancestor_walk_stop [of hw height s a] False by simp
  next
    case True
    then obtain p where p: "bi_pprev (s a) = Some p" using d(1) less.prems(2) by fastforce
    have hp: "p \<in> A" "hw - 1 = bi_nHeight (s p)" "height \<le> hw - 1" "hw - 1 < hw"
      using d(2,3) [OF p] True less.prems(2) by auto
    have prev: "naive_ancestor s a height = naive_ancestor s p height"
      using True less.prems(2) by (intro naive_ancestor_pprev [OF ok less.prems(1) p]) simp
    from ancestor_walk_step [of height hw s a p, OF True p] show ?thesis
    proof (elim disjE exE conjE)
      assume "ancestor_walk s height a hw = ancestor_walk s height p (hw - 1)"
      with less.IH [OF hp(4,1,2,3)] show ?thesis unfolding prev by metis
    next
      fix q assume q: "bi_pskip (s a) = Some q" and le: "height \<le> GetSkipHeight hw"
        and eq: "ancestor_walk s height a hw = ancestor_walk s height q (GetSkipHeight hw)"
      have lt: "GetSkipHeight hw < hw" using True by (simp add: GetSkipHeight_less)
      have nq: "naive_ancestor s a (GetSkipHeight hw) = Some q" using d(4) [OF q] less.prems(2) by metis
      then have qA: "q \<in> A" "GetSkipHeight hw = bi_nHeight (s q)"
        using naive_ancestor_ok [OF ok less.prems(1), of "GetSkipHeight hw"] lt less.prems(2)
        by (metis less_imp_le option.sel)+
      from less.IH [OF lt qA le] show ?thesis
        unfolding eq naive_ancestor_trans [OF ok less.prems(1) nq le] by blast
    qed
  qed
qed

lemma GetAncestor_ok:
  assumes "tree_ok s A" "a \<in> A"
  shows "GetAncestor s a (int h) = Inr (naive_ancestor s a h)"
proof (cases "h \<le> bi_nHeight (s a)")
  case True
  with ancestor_walk_ok [OF assms refl True] show ?thesis by (auto simp: GetAncestor_def)
qed (simp add: GetAncestor_def naive_ancestor_def)

text \<open>
  C20. The skip list is only an optimisation: in a block tree whose entries have consistent
  heights and skip pointers, \<^verbatim>\<open>GetAncestor\<close> fails no assertion and returns exactly the
  entry that following \<^verbatim>\<open>pprev\<close> step by step leads to, and the null pointer for every
  height that is negative or above the entry.
\<close>

theorem GetAncestor_naive:
  assumes "tree_ok s A" "a \<in> A"
  shows "GetAncestor s a height = Inr (if height < 0 then None else naive_ancestor s a (nat height))"
proof (cases "height < 0")
  case False
  then show ?thesis using GetAncestor_ok [OF assms, of "nat height"] by simp
qed (simp add: GetAncestor_def)

lemma go_back_upd_pskip: "go_back (s(a := (s a)\<lparr>bi_pskip := x\<rparr>)) n b = go_back s n b"
  by (induction n arbitrary: b) (auto split: bind_split)

lemma naive_ancestor_upd_pskip [simp]:
  "naive_ancestor (s(a := (s a)\<lparr>bi_pskip := x\<rparr>)) b h = naive_ancestor s b h"
  by (simp add: naive_ancestor_def go_back_upd_pskip)

lemma upd_pskip_fields:
  "bi_nHeight ((s(a := (s a)\<lparr>bi_pskip := x\<rparr>)) b) = bi_nHeight (s b)"
  "bi_pprev ((s(a := (s a)\<lparr>bi_pskip := x\<rparr>)) b) = bi_pprev (s b)"
  by simp_all

lemma BuildSkip_ok:
  assumes ok: "tree_ok s A" and p: "bi_pprev (s a) = Some p" "p \<in> A" "bi_nHeight (s a) = Suc (bi_nHeight (s p))"
    and a: "a \<notin> A"
  obtains s' where "BuildSkip a s = Inr s'" "tree_ok s' (insert a A)"
proof -
  let ?h = "GetSkipHeight (bi_nHeight (s a))"
  let ?s = "s(a := (s a)\<lparr>bi_pskip := naive_ancestor s p ?h\<rparr>)"
  have h: "?h \<le> bi_nHeight (s p)" using GetSkipHeight_less [of "bi_nHeight (s a)"] p(3) by simp
  have eq: "naive_ancestor s a ?h = naive_ancestor s p ?h"
    using h p by (simp add: naive_ancestor_def Suc_diff_le)
  have "tree_ok ?s (insert a A)"
    unfolding tree_ok_def upd_pskip_fields naive_ancestor_upd_pskip
  proof (intro ballI)
    fix b assume "b \<in> insert a A"
    then consider "b = a" | "b \<in> A" "b \<noteq> a" using a by blast
    then show "(bi_pprev (s b) = None \<longleftrightarrow> bi_nHeight (s b) = 0) \<and>
      (\<forall>p. bi_pprev (s b) = Some p \<longrightarrow> p \<in> insert a A \<and> bi_nHeight (s b) = Suc (bi_nHeight (s p))) \<and>
      (\<forall>q. bi_pskip (?s b) = Some q \<longrightarrow> naive_ancestor s b (GetSkipHeight (bi_nHeight (s b))) = Some q)"
    proof cases
      case 1
      with p eq show ?thesis by simp
    next
      case 2
      with tree_okD [OF ok 2(1)] show ?thesis by simp
    qed
  qed
  moreover have "BuildSkip a s = Inr ?s"
    using p(1) GetAncestor_ok [OF ok p(2), of ?h] by (simp add: BuildSkip_def)
  ultimately show thesis using that by blast
qed

text \<open>
  Building the skip pointer of a new entry keeps the block tree in order: if a new entry
  points to a parent of the tree, one height below, \<^verbatim>\<open>BuildSkip\<close> succeeds and the tree
  with the new entry has consistent heights and skip pointers again.
\<close>

theorem BuildSkip_keeps_tree:
  assumes "tree_ok s A" and "bi_pprev (s a) = Some p" "p \<in> A" "bi_nHeight (s a) = Suc (bi_nHeight (s p))"
    and "a \<notin> A"
  shows "\<exists>s'. BuildSkip a s = Inr s' \<and> tree_ok s' (insert a A)"
  using BuildSkip_ok [OF assms] by blast

text \<open>A straight chain whose entry at address \<open>i\<close> has height \<open>i\<close>, skip pointers below \<open>k\<close>.\<close>

definition line_store :: "nat \<Rightarrow> store" where
  "line_store k i = \<lparr>bi_hash = of_nat i, bi_pprev = (if i = 0 then None else Some (i - 1)),
     bi_pskip = (if 0 < i \<and> i < k then Some (GetSkipHeight i) else None), bi_nHeight = i,
     bi_nChainWork = base_uint_of_uint64 (of_nat i), bi_nTx = 1, bi_nChainTx = of_nat (i + 1), bi_nStatus = 0,
     bi_nVersion = 0x20000000, bi_nTime = of_nat i, bi_nBits = 0, bi_nTimeMax = of_nat i,
     bi_prevoutStake = COutPoint_null, bi_nStakeModifier = 0, bi_nSequenceId = 0\<rparr>"

lemma line_store_back: "n \<le> i \<Longrightarrow> go_back (line_store k) n i = Some (i - n)"
  by (induction n arbitrary: i) (auto simp: line_store_def)

lemma line_store_naive: "h \<le> i \<Longrightarrow> naive_ancestor (line_store k) i h = Some h"
  using line_store_back [of "i - h" i k] by (simp add: naive_ancestor_def line_store_def)

lemma line_store_fields [simp]:
  "bi_nHeight (line_store k i) = i" "bi_pprev (line_store k i) = (if i = 0 then None else Some (i - 1))"
  "bi_pskip (line_store k i) = (if 0 < i \<and> i < k then Some (GetSkipHeight i) else None)"
  by (simp_all add: line_store_def)

lemma line_store_ok: "tree_ok (line_store k) {..<n}"
  using GetSkipHeight_less by (auto simp: tree_ok_def line_store_naive less_imp_le)

theorem GetAncestor_naive_witness: "GetAncestor (line_store 200) 100 37 = Inr (Some 37)"
  using GetAncestor_naive [OF line_store_ok, of 100 150 200 37] line_store_naive [of 37 100 200] by simp

theorem BuildSkip_keeps_tree_witness:
  "\<exists>s'. BuildSkip 5 (line_store 5) = Inr s' \<and> tree_ok s' (insert 5 {..<5})"
  using BuildSkip_keeps_tree [OF line_store_ok, of 5 5 4 5] by simp

section \<open>Setting the tip\<close>

text \<open>The path to an entry: at every height its ancestor.\<close>

definition path_to :: "store \<Rightarrow> addr \<Rightarrow> chain" where
  "path_to s t = map (naive_ancestor s t) [0 ..< bi_nHeight (s t) + 1]"

definition chain_ok :: "store \<Rightarrow> addr set \<Rightarrow> chain \<Rightarrow> bool" where
  "chain_ok s A c \<longleftrightarrow> c = [] \<or> (\<exists>t \<in> A. c = path_to s t)"

lemma length_path_to [simp]: "length (path_to s t) = bi_nHeight (s t) + 1"
  by (simp add: path_to_def)

lemma path_to_nonempty [simp]: "path_to s t \<noteq> []"
  by (simp add: path_to_def)

lemma path_to_nth [simp]: "i \<le> bi_nHeight (s t) \<Longrightarrow> path_to s t ! i = naive_ancestor s t i"
  by (simp add: path_to_def del: upt_Suc)

lemma resize_nth:
  "i < k \<Longrightarrow> resize_chain k c ! i = (if i < length c then c ! i else None)" "length (resize_chain k c) = k"
  by (auto simp: resize_chain_def nth_append)

lemma resized_prefix:
  assumes ok: "tree_ok s A" and c: "chain_ok s A c" and j: "j < k" and q: "resize_chain k c ! j = Some q"
    and i: "i \<le> j"
  shows "resize_chain k c ! i = naive_ancestor s q i"
proof -
  have jc: "j < length c" "c ! j = Some q" using q j by (auto simp: resize_nth split: if_splits)
  then obtain t where t: "t \<in> A" "c = path_to s t" using c by (auto simp: chain_ok_def)
  then have jt: "j \<le> bi_nHeight (s t)" "naive_ancestor s t j = Some q" using jc by auto
  have "naive_ancestor s q i = naive_ancestor s t i" by (rule naive_ancestor_trans [OF ok t(1) jt(2) i])
  with t jt(1) i j jc(1) show ?thesis by (simp add: resize_nth)
qed

text \<open>
  The loop: the heights above \<open>j\<close> hold the path to the new tip \<open>p\<close>, those up to \<open>j\<close> are
  still as they were.
\<close>

lemma set_tip_loop_ok:
  assumes ok: "tree_ok s A" and p: "p \<in> A" and c: "chain_ok s A c"
  defines "k \<equiv> bi_nHeight (s p) + 1"
  shows "j < k \<Longrightarrow> naive_ancestor s p j = Some a \<Longrightarrow> length d = k \<Longrightarrow>
    (\<forall>i. j < i \<and> i < k \<longrightarrow> d ! i = naive_ancestor s p i) \<Longrightarrow>
    (\<forall>i \<le> j. d ! i = resize_chain k c ! i) \<Longrightarrow> j < fuel \<Longrightarrow>
    set_tip_loop s fuel (Some a) d = Some (path_to s p)"
proof (induction j arbitrary: a d fuel)
  case (0 a d fuel)
  obtain f where f: "fuel = Suc f" using 0(6) by (cases fuel) auto
  have a: "a \<in> A" "bi_nHeight (s a) = 0" using naive_ancestor_ok [OF ok p, of 0] 0(2) by auto
  have "d[0 := Some a] = path_to s p"
    using 0 by (intro nth_equalityI) (auto simp: k_def nth_list_update simp del: list_update.simps)
  moreover have "d = d[0 := Some a]" if "d ! 0 = Some a" using that by (metis list_update_id)
  moreover have "bi_pprev (s a) = None" using tree_okD(1) [OF ok a(1)] a(2) by simp
  ultimately show ?case using f a(2) by auto
next
  case (Suc j a d fuel)
  obtain f where f: "fuel = Suc f" using Suc.prems(6) by (cases fuel) auto
  have a: "a \<in> A" "bi_nHeight (s a) = Suc j"
    using naive_ancestor_ok [OF ok p, of "Suc j"] Suc.prems(1,2) by (auto simp: k_def)
  show ?case
  proof (cases "d ! Suc j = Some a")
    case True
    then have "resize_chain k c ! Suc j = Some a" using Suc.prems(5) by auto
    then have pre: "d ! i = naive_ancestor s a i" if "i \<le> Suc j" for i
      using resized_prefix [OF ok c Suc.prems(1) _ that] Suc.prems(5) that by auto
    have "d = path_to s p"
    proof (rule nth_equalityI)
      fix i assume "i < length d"
      then show "d ! i = path_to s p ! i"
        using pre [of i] naive_ancestor_trans [OF ok p Suc.prems(2), of i] Suc.prems(3,4)
        by (cases "i \<le> Suc j") (auto simp: k_def)
    qed (simp add: Suc.prems(3) k_def)
    with True a(2) f show ?thesis by simp
  next
    case False
    obtain b where b: "bi_pprev (s a) = Some b" using tree_okD(1) [OF ok a(1)] a(2) by fastforce
    have "naive_ancestor s p j = naive_ancestor s a j"
      using naive_ancestor_trans [OF ok p Suc.prems(2), of j] by simp
    also have "\<dots> = Some b"
      using b a(2) tree_okD(3) [OF ok a(1) b] naive_ancestor_pprev [OF ok a(1) b, of j]
      by (metis lessI naive_ancestor_self old.nat.inject)
    finally have pb: "naive_ancestor s p j = Some b" .
    have "set_tip_loop s f (Some b) (d[Suc j := Some a]) = Some (path_to s p)"
    proof (rule Suc.IH [OF _ pb])
      show "\<forall>i. j < i \<and> i < k \<longrightarrow> d[Suc j := Some a] ! i = naive_ancestor s p i"
        using Suc.prems(2-4) by (auto simp: nth_list_update)
    qed (use Suc.prems f in auto)
    with False a(2) b f show ?thesis by simp
  qed
qed

lemma SetTip_ok:
  assumes ok: "tree_ok s A" "p \<in> A" "chain_ok s A c"
  shows "SetTip s (Some p) c = Some (path_to s p)"
  unfolding SetTip_def option.case
  by (rule set_tip_loop_ok [OF ok, where j = "bi_nHeight (s p)"]) (auto simp: resize_nth)

text \<open>
  C21. Moving the tip of the active chain is exact: although \<^verbatim>\<open>SetTip\<close> stops rewriting
  the vector as soon as it meets an entry that is in place, the loop ends and the vector
  then holds, at every height, the ancestor of the new tip.
\<close>

theorem SetTip_path:
  assumes "tree_ok s A" "chain_ok s A c" "p \<in> A"
  shows "\<exists>c'. SetTip s (Some p) c = Some c' \<and> Tip c' = Some p \<and> Height c' = int (bi_nHeight (s p)) \<and>
    (\<forall>i \<le> bi_nHeight (s p). chain_at c' (int i) = naive_ancestor s p i) \<and> chain_ok s A c'"
proof (intro exI conjI)
  show "SetTip s (Some p) c = Some (path_to s p)" by (rule SetTip_ok [OF assms(1,3,2)])
qed (use assms(3) in \<open>auto simp: Tip_def Height_def chain_at_def chain_ok_def\<close>)

theorem SetTip_path_witness:
  "\<exists>c'. SetTip (line_store 200) (Some 30) (path_to (line_store 200) 20) = Some c' \<and> Tip c' = Some 30"
proof -
  have "chain_ok (line_store 200) {..<50} (path_to (line_store 200) 20)"
    unfolding chain_ok_def by (intro disjI2 bexI [of _ 20]) simp_all
  from SetTip_path [OF line_store_ok this, of 30] show ?thesis by auto
qed

section \<open>Forks\<close>

text \<open>\<open>r\<close> is the highest ancestor of \<open>p\<close> with the property \<open>P\<close>, if there is one.\<close>

definition highest :: "store \<Rightarrow> addr \<Rightarrow> (addr \<Rightarrow> bool) \<Rightarrow> addr option \<Rightarrow> bool" where
  "highest s p P r \<longleftrightarrow> (case r of
     None \<Rightarrow> \<forall>h q. naive_ancestor s p h = Some q \<longrightarrow> \<not> P q
   | Some q \<Rightarrow> naive_ancestor s p (bi_nHeight (s q)) = Some q \<and> P q \<and>
       (\<forall>h x. bi_nHeight (s q) < h \<and> naive_ancestor s p h = Some x \<longrightarrow> \<not> P x))"

lemma naive_ancestor_le: "naive_ancestor s p h = Some q \<Longrightarrow> h \<le> bi_nHeight (s p)"
  by (simp add: naive_ancestor_def split: if_splits)

lemma highest_self: "P p \<Longrightarrow> highest s p P (Some p)"
  using naive_ancestor_le by (fastforce simp: highest_def)

lemma highest_below:
  assumes ok: "tree_ok s A" "p \<in> A" and m: "naive_ancestor s p m = Some b"
    and above: "\<And>h x. m < h \<Longrightarrow> naive_ancestor s p h = Some x \<Longrightarrow> \<not> P x" and h: "highest s b P r"
  shows "highest s p P r"
proof -
  have hb: "bi_nHeight (s b) = m"
    using naive_ancestor_ok [OF ok naive_ancestor_le [OF m]] m by auto
  have anc: "naive_ancestor s b h = naive_ancestor s p h" if "h \<le> m" for h
    using naive_ancestor_trans [OF ok m that] .
  have lift: "\<not> P x" if x: "naive_ancestor s p h = Some x" and b: "naive_ancestor s b h = Some x \<Longrightarrow> \<not> P x" for h x
  proof (cases "h \<le> m")
    case True
    with x anc [OF True] b show ?thesis by simp
  next
    case False
    with above [OF _ x] show ?thesis by simp
  qed
  show ?thesis
  proof (cases r)
    case None
    have "\<not> P x" if "naive_ancestor s b h = Some x" for h x
      using that h unfolding None highest_def option.case by blast
    then show ?thesis unfolding None highest_def option.case using lift by blast
  next
    case (Some q)
    have q: "naive_ancestor s b (bi_nHeight (s q)) = Some q" "P q"
      "\<And>h x. bi_nHeight (s q) < h \<Longrightarrow> naive_ancestor s b h = Some x \<Longrightarrow> \<not> P x"
      using h unfolding Some highest_def option.case by blast+
    have "naive_ancestor s p (bi_nHeight (s q)) = Some q"
      using anc [of "bi_nHeight (s q)"] naive_ancestor_le [OF q(1)] hb q(1) by simp
    then show ?thesis unfolding Some highest_def option.case using q(2,3) lift by blast
  qed
qed

lemma highest_pprev:
  assumes ok: "tree_ok s A" "p \<in> A" and pp: "bi_pprev (s p) = Some b" and np: "\<not> P p"
    and h: "highest s b P r"
  shows "highest s p P r"
proof (rule highest_below [OF ok _ _ h])
  have hb: "bi_nHeight (s p) = Suc (bi_nHeight (s b))" using tree_okD(3) [OF ok pp] .
  show "naive_ancestor s p (bi_nHeight (s b)) = Some b"
    using naive_ancestor_pprev [OF ok pp, of "bi_nHeight (s b)"] hb by simp
  fix h x assume "bi_nHeight (s b) < h" and x: "naive_ancestor s p h = Some x"
  then have "h = bi_nHeight (s p)" using naive_ancestor_le [OF x] hb by simp
  with x np show "\<not> P x" by simp
qed

lemma highest_genesis:
  assumes "tree_ok s A" "p \<in> A" "bi_pprev (s p) = None" "\<not> P p"
  shows "highest s p P None"
proof -
  have "bi_nHeight (s p) = 0" using tree_okD(1) [OF assms(1,2)] assms(3) by simp
  then show ?thesis using assms(4) by (simp add: highest_def naive_ancestor_def)
qed

lemma fork_loop_ok:
  assumes ok: "tree_ok s A"
  shows "p \<in> A \<Longrightarrow> bi_nHeight (s p) < k \<Longrightarrow>
    \<exists>r. fork_loop s c k (Some p) = Some r \<and> highest s p (Contains s c) r"
proof (induction k arbitrary: p)
  case (Suc k)
  show ?case
  proof (cases "Contains s c p")
    case True
    then show ?thesis using highest_self [of "Contains s c" p s] by simp
  next
    case nc: False
    show ?thesis
    proof (cases "bi_pprev (s p)")
      case None
      with nc highest_genesis [of s A p "Contains s c", OF ok Suc.prems(1) None nc] show ?thesis by simp
    next
      case (Some b)
      have "b \<in> A" "bi_nHeight (s b) < k" using tree_okD(2,3) [OF ok Suc.prems(1) Some] Suc.prems(2) by auto
      with Suc.IH obtain r where "fork_loop s c k (Some b) = Some r" "highest s b (Contains s c) r" by blast
      with highest_pprev [of s A p b "Contains s c" r, OF ok Suc.prems(1) Some nc] nc Some show ?thesis by simp
    qed
  qed
qed simp

lemma Contains_height:
  assumes "tree_ok s A" "p \<in> A" "Height c < int h" "naive_ancestor s p h = Some x"
  shows "\<not> Contains s c x"
proof -
  have "bi_nHeight (s x) = h" using naive_ancestor_ok [OF assms(1,2) naive_ancestor_le [OF assms(4)]] assms(4) by auto
  with assms(3) show ?thesis by (simp add: Contains_def chain_at_def Height_def)
qed

text \<open>
  \<^verbatim>\<open>FindFork\<close> returns the last block that a branch shares with the active chain: the
  loops end without a failed assertion, and the result is the highest ancestor of the
  given entry that is on the chain, or null when there is none.
\<close>

theorem FindFork_highest:
  assumes ok: "tree_ok s A" "p \<in> A"
  shows "\<exists>r. FindFork s c (Some p) = Inr (Some r) \<and> highest s p (Contains s c) r"
proof (cases "int (bi_nHeight (s p)) > Height c")
  case False
  with fork_loop_ok [OF ok, of "bi_nHeight (s p) + 1" c] show ?thesis by (auto simp: FindFork_def)
next
  case True
  show ?thesis
  proof (cases "c = []")
    case empty: True
    then have "GetAncestor s p (Height c) = Inr None" by (simp add: GetAncestor_def Height_def)
    moreover have "highest s p (Contains s c) None"
      using empty by (simp add: highest_def Contains_def chain_at_def)
    ultimately show ?thesis using True by (simp add: FindFork_def)
  next
    case False
    then have m: "Height c = int (length c - 1)" by (cases c) (simp_all add: Height_def)
    obtain b where b: "naive_ancestor s p (length c - 1) = Some b" "b \<in> A" "bi_nHeight (s b) = length c - 1"
      using naive_ancestor_ok [OF ok, of "length c - 1"] True m by auto
    obtain r where r: "fork_loop s c (bi_nHeight (s p) + 1) (Some b) = Some r" "highest s b (Contains s c) r"
      using fork_loop_ok [OF ok(1) b(2), of "bi_nHeight (s p) + 1" c] True m b(3) by auto
    have "highest s p (Contains s c) r"
      using highest_below [OF ok b(1) _ r(2)] Contains_height [OF ok] m by (metis of_nat_less_iff)
    with r True m b GetAncestor_ok [OF ok, of "length c - 1"] show ?thesis by (simp add: FindFork_def)
  qed
qed

theorem FindFork_highest_witness:
  "\<exists>r. FindFork (line_store 200) (path_to (line_store 200) 20) (Some 30) = Inr (Some r) \<and>
    highest (line_store 200) 30 (Contains (line_store 200) (path_to (line_store 200) 20)) r"
  using FindFork_highest [OF line_store_ok, of 30 50 200] by simp

lemma common_loop_ok:
  assumes ok: "tree_ok s A" "a \<in> A" "b \<in> A" and gen: "naive_ancestor s a 0 = naive_ancestor s b 0"
  shows "naive_ancestor s a j = Some x \<Longrightarrow> naive_ancestor s b j = Some y \<Longrightarrow> j < k \<Longrightarrow>
    \<exists>q. common_loop s k (Some x) (Some y) = Some (Some q, Some q) \<and> bi_nHeight (s q) \<le> j \<and>
      naive_ancestor s a (bi_nHeight (s q)) = Some q \<and> naive_ancestor s b (bi_nHeight (s q)) = Some q \<and>
      (\<forall>h. bi_nHeight (s q) < h \<and> h \<le> j \<longrightarrow> naive_ancestor s a h \<noteq> naive_ancestor s b h)"
proof (induction j arbitrary: x y k)
  case 0
  then obtain k' where "k = Suc k'" by (cases k) auto
  moreover have "bi_nHeight (s x) = 0" using naive_ancestor_ok [OF ok(1,2), of 0] 0(1) by auto
  moreover have "x = y" using 0 gen by simp
  ultimately show ?case using 0 gen by auto
next
  case (Suc j)
  then obtain k' where k: "k = Suc k'" by (cases k) auto
  have hx: "x \<in> A" "bi_nHeight (s x) = Suc j" and hy: "y \<in> A" "bi_nHeight (s y) = Suc j"
    using naive_ancestor_ok [OF ok(1,2) naive_ancestor_le [OF Suc.prems(1)]]
      naive_ancestor_ok [OF ok(1,3) naive_ancestor_le [OF Suc.prems(2)]] Suc.prems(1,2) by auto
  show ?case
  proof (cases "x = y")
    case True
    with k hx Suc.prems show ?thesis by (intro exI [of _ x]) auto
  next
    case False
    obtain x' y' where pp: "bi_pprev (s x) = Some x'" "bi_pprev (s y) = Some y'"
      using tree_okD(1) [OF ok(1) hx(1)] tree_okD(1) [OF ok(1) hy(1)] hx(2) hy(2) by fastforce
    have "naive_ancestor s x j = Some x'" "naive_ancestor s y j = Some y'"
      using naive_ancestor_pprev [OF ok(1) hx(1) pp(1), of j] naive_ancestor_pprev [OF ok(1) hy(1) pp(2), of j]
        tree_okD(3) [OF ok(1) hx(1) pp(1)] tree_okD(3) [OF ok(1) hy(1) pp(2)] hx(2) hy(2)
      by (metis lessI naive_ancestor_self nat.inject)+
    then have anc: "naive_ancestor s a j = Some x'" "naive_ancestor s b j = Some y'"
      using naive_ancestor_trans [OF ok(1,2) Suc.prems(1), of j] naive_ancestor_trans [OF ok(1,3) Suc.prems(2), of j]
      by simp_all
    obtain q where q: "common_loop s k' (Some x') (Some y') = Some (Some q, Some q)" "bi_nHeight (s q) \<le> j"
      "naive_ancestor s a (bi_nHeight (s q)) = Some q" "naive_ancestor s b (bi_nHeight (s q)) = Some q"
      "\<forall>h. bi_nHeight (s q) < h \<and> h \<le> j \<longrightarrow> naive_ancestor s a h \<noteq> naive_ancestor s b h"
      using Suc.IH [OF anc, of k'] Suc.prems(3) k by auto
    have "naive_ancestor s a (Suc j) \<noteq> naive_ancestor s b (Suc j)" using False Suc.prems(1,2) by simp
    with q(5) have "\<forall>h. bi_nHeight (s q) < h \<and> h \<le> Suc j \<longrightarrow> naive_ancestor s a h \<noteq> naive_ancestor s b h"
      by (metis le_Suc_eq)
    with q(1-4) k False pp show ?thesis by (intro exI [of _ q]) simp
  qed
qed

text \<open>
  C30. \<^verbatim>\<open>LastCommonAncestor\<close> of two entries with the same genesis block fails no assertion
  and returns their highest common ancestor: it is an ancestor of both, and at every greater
  height where both have an ancestor the two differ.
\<close>

theorem LastCommonAncestor_highest:
  assumes ok: "tree_ok s A" "a \<in> A" "b \<in> A" and gen: "naive_ancestor s a 0 = naive_ancestor s b 0"
  shows "\<exists>q. LastCommonAncestor s a b = Inr (Some q) \<and>
    naive_ancestor s a (bi_nHeight (s q)) = Some q \<and> naive_ancestor s b (bi_nHeight (s q)) = Some q \<and>
    (\<forall>h. bi_nHeight (s q) < h \<and> h \<le> min (bi_nHeight (s a)) (bi_nHeight (s b)) \<longrightarrow>
      naive_ancestor s a h \<noteq> naive_ancestor s b h)"
proof -
  let ?m = "min (bi_nHeight (s a)) (bi_nHeight (s b))"
  obtain x where x: "naive_ancestor s a ?m = Some x" using naive_ancestor_ok [OF ok(1,2), of ?m] by auto
  obtain y where y: "naive_ancestor s b ?m = Some y" using naive_ancestor_ok [OF ok(1,3), of ?m] by auto
  have pa: "(if bi_nHeight (s a) > bi_nHeight (s b) then GetAncestor s a (int (bi_nHeight (s b))) else Inr (Some a)) =
      Inr (Some x)"
    using x GetAncestor_ok [OF ok(1,2)]
    by (cases "bi_nHeight (s a) > bi_nHeight (s b)") (simp_all add: min_absorb1 min_absorb2)
  have pb: "(if bi_nHeight (s b) > bi_nHeight (s a) then GetAncestor s b (int (bi_nHeight (s a))) else Inr (Some b)) =
      Inr (Some y)"
    using y GetAncestor_ok [OF ok(1,3)]
    by (cases "bi_nHeight (s b) > bi_nHeight (s a)") (simp_all add: min_absorb1 min_absorb2)
  have "?m < bi_nHeight (s a) + 1" by simp
  from common_loop_ok [OF ok gen x y this] show ?thesis
    unfolding LastCommonAncestor_def pa pb by auto
qed

theorem LastCommonAncestor_highest_witness:
  "\<exists>q. LastCommonAncestor (line_store 200) 30 20 = Inr (Some q)"
  using LastCommonAncestor_highest [OF line_store_ok, of 30 50 20 200] by (auto simp: line_store_naive)

section \<open>Searching by time\<close>

lemma lower_bound_ok:
  assumes "\<And>i j. first \<le> i \<Longrightarrow> i \<le> j \<Longrightarrow> j < first + count \<Longrightarrow> before j \<Longrightarrow> before i"
  shows "first \<le> lower_bound before first count \<and> lower_bound before first count \<le> first + count \<and>
    (\<forall>i. first \<le> i \<and> i < lower_bound before first count \<longrightarrow> before i) \<and>
    (\<forall>i. lower_bound before first count \<le> i \<and> i < first + count \<longrightarrow> \<not> before i)"
  using assms
proof (induction before first count rule: lower_bound.induct)
  case (1 before first count)
  show ?case
  proof (cases "count = 0")
    case True
    have "lower_bound before first count = first" using True by (subst lower_bound.simps) simp
    with True show ?thesis by auto
  next
    case False
    let ?step = "count div 2" let ?it = "first + ?step"
    have lt: "?step < count" using False by simp
    show ?thesis
    proof (cases "before ?it")
      case True
      let ?r = "lower_bound before (?it + 1) (count - (?step + 1))"
      have r: "lower_bound before first count = ?r" using False True by (subst lower_bound.simps) (simp add: Let_def)
      have e: "?it + 1 + (count - (?step + 1)) = first + count" using lt by simp
      have IH: "?it + 1 \<le> ?r" "?r \<le> first + count" "\<forall>i. ?it + 1 \<le> i \<and> i < ?r \<longrightarrow> before i"
        "\<forall>i. ?r \<le> i \<and> i < first + count \<longrightarrow> \<not> before i"
        using "1.IH"(1) [OF _ refl refl True] "1.prems" False lt unfolding e by auto
      have "before i" if "first \<le> i" "i < ?r" for i
        using IH(3) that "1.prems" [of i ?it] True lt by (cases "i \<le> ?it") auto
      with IH show ?thesis unfolding r by auto
    next
      case nb: False
      let ?r = "lower_bound before first ?step"
      have r: "lower_bound before first count = ?r" using False nb by (subst lower_bound.simps) (simp add: Let_def)
      have IH: "first \<le> ?r" "?r \<le> ?it" "\<forall>i. first \<le> i \<and> i < ?r \<longrightarrow> before i"
        "\<forall>i. ?r \<le> i \<and> i < ?it \<longrightarrow> \<not> before i"
        using "1.IH"(2) [OF _ refl refl nb] "1.prems" False lt by auto
      have "\<not> before i" if "?r \<le> i" "i < first + count" for i
        using IH(4) that "1.prems" [of ?it i] nb by (cases "i < ?it") auto
      with IH lt show ?thesis unfolding r by auto
    qed
  qed
qed

text \<open>
  The bisection of \<^verbatim>\<open>FindEarliestAtLeast\<close> finds the first entry of the chain whose maximal
  time is at least the given one; maximal times never decrease along a chain.
\<close>

lemma FindEarliestAtLeast_first:
  assumes mono: "\<And>i j. i \<le> j \<Longrightarrow> j < length c \<Longrightarrow> GetBlockTimeMax (s (the (c ! i))) \<le> GetBlockTimeMax (s (the (c ! j)))"
  shows "\<exists>k \<le> length c. FindEarliestAtLeast s c t = (if k = length c then None else c ! k) \<and>
    (\<forall>i < k. GetBlockTimeMax (s (the (c ! i))) < t) \<and> (k < length c \<longrightarrow> t \<le> GetBlockTimeMax (s (the (c ! k))))"
proof -
  let ?before = "\<lambda>i. GetBlockTimeMax (s (the (c ! i))) < t"
  let ?k = "lower_bound ?before 0 (length c)"
  have "0 \<le> ?k \<and> ?k \<le> 0 + length c \<and> (\<forall>i. 0 \<le> i \<and> i < ?k \<longrightarrow> ?before i) \<and>
      (\<forall>i. ?k \<le> i \<and> i < 0 + length c \<longrightarrow> \<not> ?before i)"
  proof (rule lower_bound_ok [of 0 "length c" ?before])
    fix i j assume "i \<le> j" "j < 0 + length c" "?before j"
    then show "?before i" using mono [of i j] by linarith
  qed
  then have k: "?k \<le> length c" "\<forall>i < ?k. ?before i" "?k < length c \<longrightarrow> t \<le> GetBlockTimeMax (s (the (c ! ?k)))"
    by (auto simp: not_less)
  have "FindEarliestAtLeast s c t = (if ?k = length c then None else c ! ?k)"
    by (simp only: FindEarliestAtLeast_def Let_def)
  with k show ?thesis by blast
qed

section \<open>Median time\<close>

lemma sorted_filter_less: "sorted xs \<Longrightarrow> k < length xs \<Longrightarrow> m \<le> xs ! k \<longleftrightarrow> length (filter (\<lambda>y. y < m) xs) \<le> k"
  for m :: "'a :: linorder"
proof (induction xs arbitrary: k)
  case (Cons x xs)
  show ?case
  proof (cases "x < m")
    case True
    with Cons show ?thesis by (cases k) auto
  next
    case False
    then have "m \<le> (x # xs) ! k" using Cons.prems by (cases k) (force simp: not_less intro: order_trans)+
    moreover have "filter (\<lambda>y. y < m) (x # xs) = []"
      using False Cons.prems(1) by (auto simp: filter_empty_conv)
    ultimately show ?thesis by (simp only: list.size simp_thms le0)
  qed
qed simp

lemma sort_nth_ge: "k < length xs \<Longrightarrow> m \<le> sort xs ! k \<longleftrightarrow> length (filter (\<lambda>y. y < m) xs) \<le> k"
  for m :: "'a :: linorder"
  using sorted_filter_less [of "sort xs" k m]
  by (simp add: filter_sort)

lemma times_back_step:
  "times_back s (Suc k) (Some a) = GetBlockTime (s a) # times_back s k (bi_pprev (s a))"
  by simp

lemma times_back_Suc: "\<exists>ys. times_back s (Suc k) p = times_back s k p @ ys \<and> length ys \<le> 1"
proof (induction k arbitrary: p)
  case (Suc k)
  show ?case
  proof (cases p)
    case (Some a)
    with Suc [of "bi_pprev (s a)"] show ?thesis by auto
  qed simp
qed (simp split: option.split)

lemma median_time_mono:
  assumes pp: "bi_pprev (s a) = Some p" and t: "GetBlockTime (s a) > GetMedianTimePast s p"
  shows "GetMedianTimePast s p \<le> GetMedianTimePast s a"
proof -
  let ?L = "times_back s 11 (Some p)" let ?S = "times_back s 10 (Some p)"
  let ?m = "GetMedianTimePast s p"
  have a: "times_back s 11 (Some a) = GetBlockTime (s a) # ?S"
    using times_back_step [of s 10 a] pp by (simp add: numeral_eq_Suc)
  obtain ys where ys: "?L = ?S @ ys" "length ys \<le> 1" using times_back_Suc [of s 10 "Some p"] by (auto simp: numeral_eq_Suc)
  have ne: "?L \<noteq> []" by (simp add: numeral_eq_Suc)
  then have "length ?L div 2 < length ?L" by simp
  from sort_nth_ge [OF this, of ?m] have c: "length (filter (\<lambda>y. y < ?m) ?L) \<le> length ?L div 2"
    by (simp add: GetMedianTimePast_def nMedianTimeSpan_def Let_def)
  let ?L' = "GetBlockTime (s a) # ?S"
  have "length (filter (\<lambda>y. y < ?m) ?L') \<le> length (filter (\<lambda>y. y < ?m) ?L)" using t ys(1) by simp
  also have "\<dots> \<le> length ?L' div 2" using c ys by (simp add: div_le_mono order_trans)
  finally have "?m \<le> sort ?L' ! (length ?L' div 2)" by (subst sort_nth_ge) simp_all
  then show ?thesis
    by (simp add: GetMedianTimePast_def [of s a] nMedianTimeSpan_def Let_def a del: times_back.simps)
qed

text \<open>
  Median time past never decreases along a chain: if the time of a block is greater
  than the median time past of its parent, the rule that block acceptance enforces, then its
  own median time past is at least its parent's.
\<close>

theorem GetMedianTimePast_monotone:
  assumes "bi_pprev (s a) = Some p" and "GetBlockTime (s a) > GetMedianTimePast s p"
  shows "GetMedianTimePast s p \<le> GetMedianTimePast s a"
  using assms by (rule median_time_mono)

theorem GetMedianTimePast_monotone_witness:
  "GetMedianTimePast (line_store 5) 3 \<le> GetMedianTimePast (line_store 5) 4"
proof -
  have "GetBlockTime (line_store 5 4) > GetMedianTimePast (line_store 5) 3" by code_simp
  then show ?thesis by (intro GetMedianTimePast_monotone) simp_all
qed

section \<open>Block locators\<close>

lemma locator_loop_ok:
  assumes ok: "tree_ok s A" and c: "chain_ok s A c"
  shows "p \<in> A \<Longrightarrow> bi_nHeight (s p) < fuel \<Longrightarrow> 0 < nStep \<Longrightarrow>
    \<exists>hs g. locator_loop s c fuel nStep (Some p) vHave = Inr (Some (vHave @ hs)) \<and> hs \<noteq> [] \<and>
      hd hs = bi_hash (s p) \<and> naive_ancestor s p 0 = Some g \<and> last hs = bi_hash (s g) \<and>
      length hs \<le> bi_nHeight (s p) + 1"
proof (induction fuel arbitrary: p nStep vHave)
  case (Suc fuel)
  show ?case
  proof (cases "bi_nHeight (s p) = 0")
    case True
    then show ?thesis by (simp add: naive_ancestor_def)
  next
    case False
    let ?h = "bi_nHeight (s p) - nStep"
    let ?v = "vHave @ [bi_hash (s p)]" let ?n = "if length ?v > 10 then nStep * 2 else nStep"
    have h: "max (int (bi_nHeight (s p)) - int nStep) 0 = int ?h" by simp
    have lt: "?h < bi_nHeight (s p)" using False Suc.prems(3) by simp
    obtain q where q: "naive_ancestor s p ?h = Some q" "q \<in> A" "bi_nHeight (s q) = ?h"
      using naive_ancestor_ok [OF ok Suc.prems(1), of ?h] by auto
    have chain: "chain_at c (int ?h) = Some q" if con: "Contains s c p"
    proof -
      obtain t where t: "t \<in> A" "c = path_to s t"
        using c con by (auto simp: chain_ok_def Contains_def chain_at_def)
      then have le: "bi_nHeight (s p) \<le> bi_nHeight (s t)" and tp: "naive_ancestor s t (bi_nHeight (s p)) = Some p"
        using con by (auto simp: Contains_def chain_at_def split: if_splits)
      show ?thesis
        using naive_ancestor_trans [OF ok t(1) tp, of ?h] q(1) le t(2) lt by (auto simp: chain_at_def)
    qed
    have step: "locator_loop s c (Suc fuel) nStep (Some p) vHave = locator_loop s c fuel ?n (Some q) ?v"
      using False chain GetAncestor_ok [OF ok Suc.prems(1), of ?h] q(1) unfolding locator_loop.simps Let_def h
      by (simp del: int_nat_eq)
    have n: "0 < ?n" using Suc.prems(3) by simp
    obtain hs g where hs: "locator_loop s c fuel ?n (Some q) ?v = Inr (Some (?v @ hs))" "hs \<noteq> []"
      "naive_ancestor s q 0 = Some g" "last hs = bi_hash (s g)" "length hs \<le> ?h + 1"
      using Suc.IH [OF q(2) _ n, of ?v] q(3) lt Suc.prems(2) by auto
    have "naive_ancestor s p 0 = Some g" using naive_ancestor_trans [OF ok Suc.prems(1) q(1), of 0] hs(3) by simp
    with hs step lt show ?thesis by (intro exI [of _ "bi_hash (s p) # hs"] exI [of _ g]) simp
  qed
qed simp

text \<open>
  C31. \<^verbatim>\<open>GetLocator\<close> terminates and spans the chain: from any entry, with the active chain
  in order, the loop ends without a failed assertion, the locator starts with the hash of the
  entry, ends with the hash of its genesis block, and has at most one hash per height.
\<close>

theorem GetLocator_spans:
  assumes "tree_ok s A" "chain_ok s A c" "p \<in> A"
  shows "\<exists>hs g. GetLocator s c (Some p) = Inr (Some hs) \<and> hs \<noteq> [] \<and> hd hs = bi_hash (s p) \<and>
    naive_ancestor s p 0 = Some g \<and> last hs = bi_hash (s g) \<and> length hs \<le> bi_nHeight (s p) + 1"
  using locator_loop_ok [OF assms, of "bi_nHeight (s p) + 1" 1 "[]"] by (simp add: GetLocator_def)

theorem GetLocator_spans_witness:
  "\<exists>hs. GetLocator (line_store 200) [] (Some 40) = Inr (Some hs) \<and> last hs = 0"
proof -
  have "chain_ok (line_store 200) {..<50} []" by (simp add: chain_ok_def)
  from GetLocator_spans [OF line_store_ok this, of 40] show ?thesis
    by (auto simp: line_store_naive) (simp add: line_store_def)
qed

end
