(* ===== verification/Params.thy ===== *)
theory Params
  imports Prelude
begin

text \<open>
  Consensus parameters (\<^verbatim>\<open>Consensus::Params\<close> of \<^verbatim>\<open>src/consensus/params.h\<close>), with the values that
  depend on the height, and the block size parameters that the on-chain governance sets
  (\<^verbatim>\<open>src/consensus/consensus.h\<close>, \<^verbatim>\<open>src/consensus/consensus.cpp\<close>). The record has the fields that the
  development uses; a \<^verbatim>\<open>uint256\<close> limit is kept as a word.
\<close>

record Consensus_Params =
  QIP9Height :: int
  nReduceBlocktimeHeight :: int
  nRewardFixHeight :: int
  nRewardOffsetHeight :: int
  nRewardOffsetAmount :: CAmount
  nContractOutsHeight :: int
  nRefundFixHeight :: int
  nRuleChangeActivationThreshold :: nat
  nMinerConfirmationWindow :: nat
  powLimit :: uint256
  posLimit :: uint256
  QIP9PosLimit :: uint256
  RBTPosLimit :: uint256
  fPowAllowMinDifficultyBlocks :: bool
  fPowNoRetargeting :: bool
  fPoSNoRetargeting :: bool
  nPowTargetSpacing :: int
  nRBTPowTargetSpacing :: int
  nPowTargetTimespan :: int
  nPowTargetTimespanV2 :: int
  nRBTPowTargetTimespan :: int
  nRBTPowTargetTimespanV2 :: int
  nLastPOWBlock :: int
  totalCoinsSupply :: CAmount
  initialCoinsSupply :: CAmount
  blocksPerYear :: int
  nCheckpointSpan :: int
  nRBTCheckpointSpan :: int
  nStakeTimestampMask :: uint32
  nRBTStakeTimestampMask :: uint32
  nBlocktimeDownscaleFactor :: int
  nCoinbaseMaturity :: int
  nRBTCoinbaseMaturity :: int

text \<open>
  The parameters of the networks: the values common to all networks with the heights of the
  main network, and the changes of the test network (\<^verbatim>\<open>src/chainparams.cpp\<close>).
\<close>

definition main_params :: Consensus_Params where
  "main_params = \<lparr>
     QIP9Height = 5500,
     nReduceBlocktimeHeight = 477300,
     nRewardFixHeight = 658600,
     nRewardOffsetHeight = 658600,
     nRewardOffsetAmount = 33018156505135300,
     nContractOutsHeight = 852800,
     nRefundFixHeight = 1160400,
     nRuleChangeActivationThreshold = 1916,
     nMinerConfirmationWindow = 2016,
     powLimit = 0x0000ffffffffffffffffffffffffffffffffffffffffffffffffffffffffffff,
     posLimit = 0x00000000ffffffffffffffffffffffffffffffffffffffffffffffffffffffff,
     QIP9PosLimit = 0x0000000000001fffffffffffffffffffffffffffffffffffffffffffffffffff,
     RBTPosLimit = 0x0000000000003fffffffffffffffffffffffffffffffffffffffffffffffffff,
     fPowAllowMinDifficultyBlocks = False,
     fPowNoRetargeting = True,
     fPoSNoRetargeting = False,
     nPowTargetSpacing = 2 * 64,
     nRBTPowTargetSpacing = 32,
     nPowTargetTimespan = 16 * 60,
     nPowTargetTimespanV2 = 4000,
     nRBTPowTargetTimespan = 4 * 60,
     nRBTPowTargetTimespanV2 = 1000,
     nLastPOWBlock = 5000,
     totalCoinsSupply = 1858593274150085,
     initialCoinsSupply = 1858593274150085,
     blocksPerYear = 246375,
     nCheckpointSpan = 500,
     nRBTCheckpointSpan = 4 * 500,
     nStakeTimestampMask = 15,
     nRBTStakeTimestampMask = 3,
     nBlocktimeDownscaleFactor = 4,
     nCoinbaseMaturity = 500,
     nRBTCoinbaseMaturity = 4 * 500\<rparr>"

definition test_params :: Consensus_Params where
  "test_params = main_params\<lparr>
     nReduceBlocktimeHeight := 270200,
     nRewardFixHeight := 785140,
     nRewardOffsetHeight := 785140,
     nRewardOffsetAmount := 94225990557823100,
     nContractOutsHeight := 979410,
     nRefundFixHeight := 1153800,
     posLimit := 0x0000ffffffffffffffffffffffffffffffffffffffffffffffffffffffffffff,
     nRuleChangeActivationThreshold := 1512,
     nMinerConfirmationWindow := 2016\<rparr>"

definition TargetSpacing :: "Consensus_Params \<Rightarrow> int \<Rightarrow> int" where
  "TargetSpacing p height =
     (if height < nReduceBlocktimeHeight p then nPowTargetSpacing p else nRBTPowTargetSpacing p)"

definition TargetTimespan :: "Consensus_Params \<Rightarrow> int \<Rightarrow> bool \<Rightarrow> int" where
  "TargetTimespan p height ignore =
     (if height < QIP9Height p then nPowTargetTimespan p
      else if height \<ge> QIP9Height p \<and> height < nReduceBlocktimeHeight p then
        (if ignore then nPowTargetTimespan p else nPowTargetTimespanV2 p)
      else (if ignore then nRBTPowTargetTimespan p else nRBTPowTargetTimespanV2 p))"

text \<open>The division of two positive durations.\<close>

definition DifficultyAdjustmentInterval :: "Consensus_Params \<Rightarrow> int \<Rightarrow> bool \<Rightarrow> int" where
  "DifficultyAdjustmentInterval p height ignore = TargetTimespan p height ignore div TargetSpacing p height"

definition StakeTimestampMask :: "Consensus_Params \<Rightarrow> int \<Rightarrow> uint32" where
  "StakeTimestampMask p height =
     (if height < nReduceBlocktimeHeight p then nStakeTimestampMask p else nRBTStakeTimestampMask p)"

definition BlocktimeDownscaleFactor :: "Consensus_Params \<Rightarrow> int \<Rightarrow> int" where
  "BlocktimeDownscaleFactor p height =
     (if height < nReduceBlocktimeHeight p then 1 else nBlocktimeDownscaleFactor p)"

definition TimestampDownscaleFactor :: "Consensus_Params \<Rightarrow> int \<Rightarrow> int" where
  "TimestampDownscaleFactor p height =
     (if height < nReduceBlocktimeHeight p then 1
      else int (unat ((nStakeTimestampMask p + 1) div (nRBTStakeTimestampMask p + 1))))"

definition CheckpointSpan :: "Consensus_Params \<Rightarrow> int \<Rightarrow> int" where
  "CheckpointSpan p height =
     (if height < nReduceBlocktimeHeight p then nCheckpointSpan p else nRBTCheckpointSpan p)"

definition CoinbaseMaturity :: "Consensus_Params \<Rightarrow> int \<Rightarrow> int" where
  "CoinbaseMaturity p height =
     (if height < nReduceBlocktimeHeight p then nCoinbaseMaturity p else nRBTCoinbaseMaturity p)"

definition MaxCheckpointSpan :: "Consensus_Params \<Rightarrow> int" where
  "MaxCheckpointSpan p =
     (if nCheckpointSpan p \<le> nRBTCheckpointSpan p then nRBTCheckpointSpan p else nCheckpointSpan p)"

lemma CheckpointSpan_le_Max: "CheckpointSpan p height \<le> MaxCheckpointSpan p"
  by (simp add: CheckpointSpan_def MaxCheckpointSpan_def)

section \<open>Block size parameters\<close>

text \<open>The global variables of \<^verbatim>\<open>consensus.cpp\<close>; unsigned arithmetic wraps.\<close>

record block_size_params =
  dgpMaxBlockSerSize :: uint32
  dgpMaxBlockWeight :: uint32
  dgpMaxBlockSize :: uint32
  dgpMaxBlockSigOps :: int
  dgpMaxProtoMsgLength :: uint32
  dgpMaxTxSigOps :: uint32

definition initial_block_size_params :: block_size_params where
  "initial_block_size_params =
     \<lparr>dgpMaxBlockSerSize = 8000000, dgpMaxBlockWeight = 8000000, dgpMaxBlockSize = 2000000,
      dgpMaxBlockSigOps = 80000, dgpMaxProtoMsgLength = 8000000, dgpMaxTxSigOps = 16000\<rparr>"

definition updateBlockSizeParams :: "uint32 \<Rightarrow> block_size_params \<Rightarrow> block_size_params" where
  "updateBlockSizeParams newBlockSize b =
     (let newSizeForParams = 4 * newBlockSize;
          sigops = int (unat (newSizeForParams div 100)) in
      b\<lparr>dgpMaxBlockSerSize := newSizeForParams, dgpMaxBlockWeight := newSizeForParams,
        dgpMaxBlockSigOps := sigops, dgpMaxTxSigOps := of_int (sigops div 5),
        dgpMaxProtoMsgLength := newSizeForParams\<rparr>)"

lemma updateBlockSizeParams_initial:
  "updateBlockSizeParams 2000000 initial_block_size_params = initial_block_size_params"
  by (simp add: updateBlockSizeParams_def initial_block_size_params_def)

lemma updateBlockSizeParams_ok:
  assumes "uint newBlockSize < 2 ^ 30"
  shows "uint (dgpMaxBlockWeight (updateBlockSizeParams newBlockSize b)) = 4 * uint newBlockSize"
    and "dgpMaxBlockSigOps (updateBlockSizeParams newBlockSize b) = 4 * uint newBlockSize div 100"
    and "5 * uint (dgpMaxTxSigOps (updateBlockSizeParams newBlockSize b))
      \<le> dgpMaxBlockSigOps (updateBlockSizeParams newBlockSize b)"
proof -
  have w: "uint (4 * newBlockSize) = 4 * uint newBlockSize" using assms by (simp add: uint_word_ariths)
  then show "uint (dgpMaxBlockWeight (updateBlockSizeParams newBlockSize b)) = 4 * uint newBlockSize"
    by (simp add: updateBlockSizeParams_def Let_def)
  show s: "dgpMaxBlockSigOps (updateBlockSizeParams newBlockSize b) = 4 * uint newBlockSize div 100"
    using w by (simp add: updateBlockSizeParams_def Let_def uint_div_distrib)
  let ?s = "4 * uint newBlockSize div 100"
  have "uint (of_int (?s div 5) :: uint32) = ?s div 5"
  proof -
    have "0 \<le> ?s div 5" "?s div 5 < 2 ^ 32" using assms by (simp_all add: div_int_pos_iff)
    then show ?thesis by (simp add: uint_word_of_int take_bit_int_eq_self del: zdiv_numeral_Bit0 zdiv_numeral_Bit1)
  qed
  then show "5 * uint (dgpMaxTxSigOps (updateBlockSizeParams newBlockSize b))
      \<le> dgpMaxBlockSigOps (updateBlockSizeParams newBlockSize b)"
    using w by (simp add: updateBlockSizeParams_def Let_def uint_div_distrib)
qed

end
