(* ===== verification/TxVerify.thy ===== *)
theory TxVerify
  imports Standard Utxo Chain Params
begin

text \<open>
  Transaction verification (\<^verbatim>\<open>src/consensus/tx_verify.cpp\<close>): finality, relative lock times,
  signature operation costs, the context-free checks, the rules for calls to the system
  contracts, and the check of the inputs against the coins view. A call of
  \<^verbatim>\<open>CValidationState::DoS\<close> or \<^verbatim>\<open>Invalid\<close> that returns false is the value \<open>DoS level reason\<close>.
\<close>

unbundle bit_operations_syntax

datatype tx_fault = DoS nat string | Assertion | Null_pointer | Exception value_out_error | Undefined_overflow

section \<open>Finality and lock times\<close>

definition IsFinalTx :: "CTransaction \<Rightarrow> int \<Rightarrow> int \<Rightarrow> bool" where
  "IsFinalTx tx nBlockHeight nBlockTime =
     (let nLockTime = int (unat (tx_nLockTime tx)) in
      if nLockTime = 0 then True
      else if nLockTime < (if nLockTime < LOCKTIME_THRESHOLD then nBlockHeight else nBlockTime) then True
      else list_all (\<lambda>txin. in_nSequence txin = SEQUENCE_FINAL) (tx_vin tx))"

definition LOCKTIME_VERIFY_SEQUENCE :: uint32 where "LOCKTIME_VERIFY_SEQUENCE = 1"
definition SEQUENCE_LOCKTIME_GRANULARITY :: nat where "SEQUENCE_LOCKTIME_GRANULARITY = 9"

text \<open>
  The loop over the inputs and their heights, from the current minimal height and time; it
  also returns the heights with the irrelevant ones reset to 0.
\<close>

fun sequence_locks_loop ::
  "store \<Rightarrow> addr \<Rightarrow> CTxIn list \<Rightarrow> int list \<Rightarrow> int \<Rightarrow> int \<Rightarrow> tx_fault + ((int \<times> int) \<times> int list)" where
  "sequence_locks_loop s block [] hs nMinHeight nMinTime = Inr ((nMinHeight, nMinTime), hs)"
| "sequence_locks_loop s block (txin # vin) [] nMinHeight nMinTime = Inl Assertion"
| "sequence_locks_loop s block (txin # vin) (nCoinHeight # hs) nMinHeight nMinTime =
     (let nSequence = int (unat (in_nSequence txin)) in
      if nSequence AND SEQUENCE_LOCKTIME_DISABLE_FLAG \<noteq> 0 then
        bind_res (sequence_locks_loop s block vin hs nMinHeight nMinTime) (\<lambda>(r, hs'). Inr (r, 0 # hs'))
      else if nSequence AND SEQUENCE_LOCKTIME_TYPE_FLAG \<noteq> 0 then
        (case GetAncestor s block (max (nCoinHeight - 1) 0) of
           Inl _ \<Rightarrow> Inl Assertion
         | Inr None \<Rightarrow> Inl Null_pointer
         | Inr (Some a) \<Rightarrow>
             bind_res (sequence_locks_loop s block vin hs nMinHeight
               (max nMinTime (GetMedianTimePast s a +
                  push_bit SEQUENCE_LOCKTIME_GRANULARITY (nSequence AND SEQUENCE_LOCKTIME_MASK) - 1)))
               (\<lambda>(r, hs'). Inr (r, nCoinHeight # hs')))
      else
        bind_res (sequence_locks_loop s block vin hs
          (max nMinHeight (nCoinHeight + (nSequence AND SEQUENCE_LOCKTIME_MASK) - 1)) nMinTime)
          (\<lambda>(r, hs'). Inr (r, nCoinHeight # hs')))"

definition CalculateSequenceLocks ::
  "store \<Rightarrow> CTransaction \<Rightarrow> uint32 \<Rightarrow> int list \<Rightarrow> addr \<Rightarrow> tx_fault + ((int \<times> int) \<times> int list)" where
  "CalculateSequenceLocks s tx flags prevHeights block =
     (if length prevHeights \<noteq> length (tx_vin tx) then Inl Assertion
      else if \<not> (unat (tx_nVersion tx) \<ge> 2 \<and> flags AND LOCKTIME_VERIFY_SEQUENCE \<noteq> 0) then
        Inr ((- 1, - 1), prevHeights)
      else sequence_locks_loop s block (tx_vin tx) prevHeights (- 1) (- 1))"

definition EvaluateSequenceLocks :: "store \<Rightarrow> addr \<Rightarrow> int \<times> int \<Rightarrow> tx_fault + bool" where
  "EvaluateSequenceLocks s block lockPair =
     (case bi_pprev (s block) of
        None \<Rightarrow> Inl Assertion
      | Some p \<Rightarrow>
          if fst lockPair \<ge> int (bi_nHeight (s block)) \<or> snd lockPair \<ge> GetMedianTimePast s p then Inr False
          else Inr True)"

definition SequenceLocks :: "store \<Rightarrow> CTransaction \<Rightarrow> uint32 \<Rightarrow> int list \<Rightarrow> addr \<Rightarrow> tx_fault + bool" where
  "SequenceLocks s tx flags prevHeights block =
     bind_res (CalculateSequenceLocks s tx flags prevHeights block)
       (\<lambda>(lockPair, _). EvaluateSequenceLocks s block lockPair)"

section \<open>Signature operations\<close>

text \<open>The counters are unsigned 32-bit; the cost is a 64-bit integer.\<close>

definition GetLegacySigOpCount :: "CTransaction \<Rightarrow> uint32" where
  "GetLegacySigOpCount tx =
     of_nat (sum_list (map (\<lambda>txin. GetSigOpCount False (in_scriptSig txin)) (tx_vin tx)) +
             sum_list (map (\<lambda>txout. GetSigOpCount False (out_scriptPubKey txout)) (tx_vout tx)))"

fun p2sh_sigops_loop ::
  "'b CCoinsView \<Rightarrow> CTxIn list \<Rightarrow> uint32 \<Rightarrow> 'b CCoinsViewCache \<Rightarrow> (tx_fault + uint32) \<times> 'b CCoinsViewCache" where
  "p2sh_sigops_loop V [] nSigOps c = (Inr nSigOps, c)"
| "p2sh_sigops_loop V (txin # vin) nSigOps c =
     (case AccessCoin V (in_prevout txin) c of (coin, c') \<Rightarrow>
        if IsSpent coin then (Inl Assertion, c')
        else
          let script = out_scriptPubKey (coin_out coin) in
          p2sh_sigops_loop V vin
            (if IsPayToScriptHash script then nSigOps + of_nat (GetSigOpCount_p2sh script (in_scriptSig txin))
             else nSigOps) c')"

definition GetP2SHSigOpCount ::
  "'b CCoinsView \<Rightarrow> CTransaction \<Rightarrow> 'b CCoinsViewCache \<Rightarrow> (tx_fault + uint32) \<times> 'b CCoinsViewCache" where
  "GetP2SHSigOpCount V tx c = (if IsCoinBase tx then (Inr 0, c) else p2sh_sigops_loop V (tx_vin tx) 0 c)"

fun witness_sigops_loop ::
  "'b CCoinsView \<Rightarrow> uint32 \<Rightarrow> CTxIn list \<Rightarrow> int \<Rightarrow> 'b CCoinsViewCache \<Rightarrow> (tx_fault + int) \<times> 'b CCoinsViewCache" where
  "witness_sigops_loop V flags [] nSigOps c = (Inr nSigOps, c)"
| "witness_sigops_loop V flags (txin # vin) nSigOps c =
     (case AccessCoin V (in_prevout txin) c of (coin, c') \<Rightarrow>
        if IsSpent coin then (Inl Assertion, c')
        else
          (case CountWitnessSigOps (in_scriptSig txin) (out_scriptPubKey (coin_out coin)) (in_scriptWitness txin) flags of
             None \<Rightarrow> (Inl Assertion, c')
           | Some k \<Rightarrow> witness_sigops_loop V flags vin (nSigOps + int k) c'))"

definition GetTransactionSigOpCost ::
  "'b CCoinsView \<Rightarrow> CTransaction \<Rightarrow> uint32 \<Rightarrow> 'b CCoinsViewCache \<Rightarrow> (tx_fault + int) \<times> 'b CCoinsViewCache" where
  "GetTransactionSigOpCost V tx flags c =
     (let nSigOps = int (unat (GetLegacySigOpCount tx * of_nat WITNESS_SCALE_FACTOR)) in
      if IsCoinBase tx then (Inr nSigOps, c)
      else
        (case (if flag flags SCRIPT_VERIFY_P2SH then GetP2SHSigOpCount V tx c else (Inr 0, c)) of
           (Inl e, c') \<Rightarrow> (Inl e, c')
         | (Inr k, c') \<Rightarrow>
             witness_sigops_loop V flags (tx_vin tx)
               (nSigOps + int (unat (k * of_nat WITNESS_SCALE_FACTOR))) c'))"

section \<open>Context-free checks\<close>

definition MAX_TRANSACTION_BASE_SIZE :: nat where "MAX_TRANSACTION_BASE_SIZE = 1000000"

definition is_contract_out :: "CTxOut \<Rightarrow> bool" where
  "is_contract_out txout \<longleftrightarrow> HasOpCall (out_scriptPubKey txout) \<or> HasOpCreate (out_scriptPubKey txout) \<or>
     HasOpCoinstakeCall (out_scriptPubKey txout) \<or> HasOpSender (out_scriptPubKey txout)"

text \<open>The loop over the outputs, with the running value and the number of contract outputs.\<close>

fun check_outputs_loop :: "CTransaction \<Rightarrow> CTxOut list \<Rightarrow> CAmount \<Rightarrow> nat \<Rightarrow> tx_fault + nat" where
  "check_outputs_loop tx [] nValueOut contract_outs = Inr contract_outs"
| "check_outputs_loop tx (txout # vout) nValueOut contract_outs =
     (if CTxOut_IsEmpty txout \<and> \<not> IsCoinBase tx \<and> \<not> IsCoinStake tx then Inl (DoS 100 ''bad-txns-vout-empty'')
      else if out_nValue txout < 0 then Inl (DoS 100 ''bad-txns-vout-negative'')
      else if out_nValue txout > MAX_MONEY then Inl (DoS 100 ''bad-txns-vout-toolarge'')
      else if \<not> MoneyRange (nValueOut + out_nValue txout) then Inl (DoS 100 ''bad-txns-txouttotal-toolarge'')
      else if is_contract_out txout then
        if fst (Solver (out_scriptPubKey txout) True False) = TX_NONSTANDARD
        then Inl (DoS 100 ''bad-txns-contract-nonstandard'')
        else check_outputs_loop tx vout (nValueOut + out_nValue txout) (contract_outs + 1)
      else check_outputs_loop tx vout (nValueOut + out_nValue txout) contract_outs)"

text \<open>Inserting the outpoints into a set one by one; true when one was there already.\<close>

fun duplicate_input :: "COutPoint list \<Rightarrow> CTxIn list \<Rightarrow> bool" where
  "duplicate_input seen [] = False"
| "duplicate_input seen (txin # vin) =
     (if in_prevout txin \<in> set seen then True else duplicate_input (in_prevout txin # seen) vin)"

definition CheckTransaction ::
  "Consensus_Params \<Rightarrow> block_size_params \<Rightarrow> CTransaction \<Rightarrow> int \<Rightarrow> bool \<Rightarrow> tx_fault + unit" where
  "CheckTransaction params sizes tx nHeight fCheckDuplicateInputs =
     (if tx_vin tx = [] then Inl (DoS 10 ''bad-txns-vin-empty'')
      else if tx_vout tx = [] then Inl (DoS 10 ''bad-txns-vout-empty'')
      else if length (SerializeTransaction False tx) > MAX_TRANSACTION_BASE_SIZE \<or>
              length (SerializeTransaction False tx) * WITNESS_SCALE_FACTOR > unat (dgpMaxBlockWeight sizes)
        then Inl (DoS 100 ''bad-txns-oversize'')
      else if tx_HasOpCoinstakeCall tx \<and> \<not> IsCoinStake tx
        then Inl (DoS 100 ''bad-txns-coinstake-call-on-not-coinstake-transaction'')
      else bind_res (check_outputs_loop tx (tx_vout tx) 0 0) (\<lambda>contract_outs.
        if nHeight \<ge> nContractOutsHeight params \<and> nHeight < nRefundFixHeight params \<and> contract_outs > 1
          then Inl (DoS 100 ''bad-txns-contract-outs-more-than-one'')
        else if fCheckDuplicateInputs \<and> duplicate_input [] (tx_vin tx)
          then Inl (DoS 100 ''bad-txns-inputs-duplicate'')
        else if IsCoinBase tx then
          if length (in_scriptSig (hd (tx_vin tx))) < 2 \<or> length (in_scriptSig (hd (tx_vin tx))) > 100
          then Inl (DoS 100 ''bad-cb-length'') else Inr ()
        else if list_ex (\<lambda>txin. COutPoint_IsNull (in_prevout txin)) (tx_vin tx)
          then Inl (DoS 10 ''bad-txns-prevout-null'')
        else Inr ()))"

section \<open>Calls to the system contracts\<close>

text \<open>
  What \<^verbatim>\<open>CheckQtumTransaction\<close> reads of a \<^verbatim>\<open>QtumTransaction\<close>. The addresses of the two system
  contracts, the selectors of the two functions and the hexadecimal printer come from code
  outside the repository's own sources and are arguments.
\<close>

record QtumTransaction =
  qtumType :: opcodetype
  receiveAddress :: bytes
  qtum_data :: bytes

record system_contracts =
  LockTripEconomyContract :: bytes
  LockTripDgpContract :: bytes
  addContract_hex :: string
  finishVote_hex :: string
  toHex :: "bytes \<Rightarrow> string"

definition selector_is :: "system_contracts \<Rightarrow> QtumTransaction \<Rightarrow> string \<Rightarrow> bool" where
  "selector_is S t hex \<longleftrightarrow> take 8 (toHex S (qtum_data t)) = hex"

fun check_qtum_loop :: "system_contracts \<Rightarrow> bool \<Rightarrow> bool \<Rightarrow> QtumTransaction list \<Rightarrow> tx_fault + unit" where
  "check_qtum_loop S hasEconomyCall hasDGPCall [] = Inr ()"
| "check_qtum_loop S hasEconomyCall hasDGPCall (t # ts) =
     (if qtumType t = OP_CALL \<and> receiveAddress t = LockTripEconomyContract S \<and> selector_is S t (addContract_hex S)
        then Inl (DoS 100 ''bad-txns-cannot-call-addcontract-of-economy-contract'')
      else if qtumType t = OP_CALL \<and> receiveAddress t = LockTripDgpContract S \<and> selector_is S t (finishVote_hex S)
        then Inl (DoS 100 ''bad-txns-cannot-call-finish-vote-outside-coinstake'')
      else if qtumType t = OP_COINSTAKE_CALL then
        if receiveAddress t = LockTripEconomyContract S then
          if hasEconomyCall then Inl (DoS 100 ''bad-txns-coinstake-call-calling-economy-more-than-once'')
          else check_qtum_loop S True hasDGPCall ts
        else if receiveAddress t = LockTripDgpContract S then
          if \<not> selector_is S t (finishVote_hex S)
            then Inl (DoS 100 ''bad-txns-coinstake-can-call-only-finish-vote-inside-coinstake'')
          else if hasDGPCall then Inl (DoS 100 ''bad-txns-coinstake-call-calling-dgp-more-than-once'')
          else check_qtum_loop S hasEconomyCall True ts
        else Inl (DoS 100 ''bad-txns-coinstake-call-on-different-than-economy-dgp-contract'')
      else check_qtum_loop S hasEconomyCall hasDGPCall ts)"

definition CheckQtumTransaction :: "system_contracts \<Rightarrow> QtumTransaction list \<Rightarrow> tx_fault + unit" where
  "CheckQtumTransaction S ts = check_qtum_loop S False False ts"

section \<open>Checking the inputs\<close>

definition int64_ok :: "int \<Rightarrow> bool" where
  "int64_ok v \<longleftrightarrow> int64_min \<le> v \<and> v \<le> int64_max"

text \<open>The loop over the inputs: the value in, or a failure; a signed overflow is undefined.\<close>

fun check_inputs_loop ::
  "'b CCoinsView \<Rightarrow> Consensus_Params \<Rightarrow> int \<Rightarrow> CTxIn list \<Rightarrow> CAmount \<Rightarrow> 'b CCoinsViewCache \<Rightarrow>
   (tx_fault + CAmount) \<times> 'b CCoinsViewCache" where
  "check_inputs_loop V params nSpendHeight [] nValueIn c = (Inr nValueIn, c)"
| "check_inputs_loop V params nSpendHeight (txin # vin) nValueIn c =
     (case AccessCoin V (in_prevout txin) c of (coin, c') \<Rightarrow>
        if IsSpent coin then (Inl Assertion, c')
        else if (coin_fCoinBase coin \<or> coin_fCoinStake coin) \<and>
                nSpendHeight - int (unat (coin_nHeight coin)) < CoinbaseMaturity params nSpendHeight
          then (Inl (DoS 0 ''bad-txns-premature-spend-of-coinbase''), c')
        else
          let v = out_nValue (coin_out coin) in
          if \<not> int64_ok (nValueIn + v) then (Inl Undefined_overflow, c')
          else if \<not> MoneyRange v \<or> \<not> MoneyRange (nValueIn + v)
            then (Inl (DoS 100 ''bad-txns-inputvalues-outofrange''), c')
          else check_inputs_loop V params nSpendHeight vin (nValueIn + v) c')"

text \<open>The fee is written only for transactions that are not coinstakes.\<close>

definition CheckTxInputs ::
  "'b CCoinsView \<Rightarrow> Consensus_Params \<Rightarrow> CTransaction \<Rightarrow> int \<Rightarrow> 'b CCoinsViewCache \<Rightarrow>
   (tx_fault + CAmount option) \<times> 'b CCoinsViewCache" where
  "CheckTxInputs V params tx nSpendHeight c =
     (case HaveInputs V tx c of
        (False, c1) \<Rightarrow> (Inl (DoS 100 ''bad-txns-inputs-missingorspent''), c1)
      | (True, c1) \<Rightarrow>
          (case check_inputs_loop V params nSpendHeight (tx_vin tx) 0 c1 of
             (Inl e, c2) \<Rightarrow> (Inl e, c2)
           | (Inr nValueIn, c2) \<Rightarrow>
               (if IsCoinStake tx then Inr None
                else
                  case GetValueOut tx of
                    Inl e \<Rightarrow> Inl (Exception e)
                  | Inr value_out \<Rightarrow>
                      if nValueIn < value_out then Inl (DoS 100 ''bad-txns-in-belowout'')
                      else if \<not> MoneyRange (nValueIn - value_out) then Inl (DoS 100 ''bad-txns-fee-outofrange'')
                      else Inr (Some (nValueIn - value_out)), c2)))"

section \<open>Lock times\<close>

lemma IsFinalTx_mono: "IsFinalTx tx h t \<Longrightarrow> h \<le> h' \<Longrightarrow> t \<le> t' \<Longrightarrow> IsFinalTx tx h' t'"
  by (auto simp: IsFinalTx_def Let_def split: if_splits)



subsection \<open>Relative lock times\<close>

lemma and_exp_int: "x AND 2 ^ k = (if bit x k then 2 ^ k else 0)" for x :: int
  by (rule bit_eqI) (auto simp: bit_simps)

lemma sequence_flag: "x AND SEQUENCE_LOCKTIME_TYPE_FLAG = (if bit x 22 then 2 ^ 22 else 0)"
  unfolding SEQUENCE_LOCKTIME_TYPE_FLAG_def by (rule and_exp_int)

lemma sequence_mask: "x AND SEQUENCE_LOCKTIME_MASK = take_bit 16 x"
  by (simp add: SEQUENCE_LOCKTIME_MASK_def take_bit_eq_mask mask_eq_exp_minus_1)

lemma mask_bounds: "0 \<le> x AND SEQUENCE_LOCKTIME_MASK" "x AND SEQUENCE_LOCKTIME_MASK < 65536"
  using take_bit_int_less_exp [of 16 x] unfolding sequence_mask by simp_all

lemma masked_sequence:
  "x AND (SEQUENCE_LOCKTIME_TYPE_FLAG OR SEQUENCE_LOCKTIME_MASK) =
    (if x AND SEQUENCE_LOCKTIME_TYPE_FLAG \<noteq> 0 then 4194304 else 0) + (x AND SEQUENCE_LOCKTIME_MASK)"
proof -
  have "x AND (SEQUENCE_LOCKTIME_TYPE_FLAG OR SEQUENCE_LOCKTIME_MASK) =
      (x AND SEQUENCE_LOCKTIME_TYPE_FLAG) OR (x AND SEQUENCE_LOCKTIME_MASK)"
    by (rule bit.conj_disj_distrib)
  also have "\<dots> = (x AND SEQUENCE_LOCKTIME_TYPE_FLAG) + (x AND SEQUENCE_LOCKTIME_MASK)"
    unfolding sequence_mask SEQUENCE_LOCKTIME_TYPE_FLAG_def
    by (rule disjunctive_add [symmetric]) (auto simp only: bit_and_iff bit_exp_iff bit_take_bit_iff)
  finally show ?thesis by (simp add: sequence_flag)
qed

text \<open>What the script check of an operand \<open>n\<close> says about the sequence number of the input.\<close>

lemma CheckSequenceD:
  assumes "CheckSequence tx nIn n"
  defines "sq \<equiv> int (unat (in_nSequence (tx_vin tx ! nIn)))"
  shows "unat (tx_nVersion tx) \<ge> 2" "sq AND SEQUENCE_LOCKTIME_DISABLE_FLAG = 0"
    "sq AND SEQUENCE_LOCKTIME_TYPE_FLAG \<noteq> 0 \<longleftrightarrow> n AND SEQUENCE_LOCKTIME_TYPE_FLAG \<noteq> 0"
    "n AND SEQUENCE_LOCKTIME_MASK \<le> sq AND SEQUENCE_LOCKTIME_MASK"
proof -
  note b = mask_bounds [of sq] mask_bounds [of n]
  have flag: "x < SEQUENCE_LOCKTIME_TYPE_FLAG \<longleftrightarrow> x < 4194304"
    "SEQUENCE_LOCKTIME_TYPE_FLAG \<le> x \<longleftrightarrow> 4194304 \<le> x" for x by (simp_all add: SEQUENCE_LOCKTIME_TYPE_FLAG_def)
  show "unat (tx_nVersion tx) \<ge> 2" "sq AND SEQUENCE_LOCKTIME_DISABLE_FLAG = 0"
    "sq AND SEQUENCE_LOCKTIME_TYPE_FLAG \<noteq> 0 \<longleftrightarrow> n AND SEQUENCE_LOCKTIME_TYPE_FLAG \<noteq> 0"
    "n AND SEQUENCE_LOCKTIME_MASK \<le> sq AND SEQUENCE_LOCKTIME_MASK"
    using assms(1) b unfolding CheckSequence_def Let_def sq_def [symmetric] masked_sequence
    by (auto simp: flag split: if_splits)
qed

lemma sequence_locks_loop_mono:
  "sequence_locks_loop s block vin hs a b = Inr ((h, t), hs') \<Longrightarrow> a \<le> h \<and> b \<le> t"
proof (induction s block vin hs a b arbitrary: hs' rule: sequence_locks_loop.induct)
  case (3 s block txin vin nCoinHeight hs a b)
  then show ?case
    by (fastforce simp: Let_def split: if_splits sum.splits option.splits)
qed auto


lemma sequence_locks_loop_bound:
  "sequence_locks_loop s block vin hs a b = Inr ((h, t), hs') \<Longrightarrow> i < length vin \<Longrightarrow> i < length hs \<Longrightarrow>
    sq = int (unat (in_nSequence (vin ! i))) \<Longrightarrow> sq AND SEQUENCE_LOCKTIME_DISABLE_FLAG = 0 \<Longrightarrow>
    (if sq AND SEQUENCE_LOCKTIME_TYPE_FLAG = 0 then hs ! i + (sq AND SEQUENCE_LOCKTIME_MASK) - 1 \<le> h
     else \<exists>q. GetAncestor s block (max (hs ! i - 1) 0) = Inr (Some q) \<and>
       GetMedianTimePast s q + push_bit SEQUENCE_LOCKTIME_GRANULARITY (sq AND SEQUENCE_LOCKTIME_MASK) - 1 \<le> t)"
proof (induction s block vin hs a b arbitrary: hs' i rule: sequence_locks_loop.induct)
  case (3 s block txin vin nCoinHeight hs a b)
  show ?case
  proof (cases i)
    case 0
    with "3.prems" show ?thesis
      by (auto simp: Let_def split: if_splits sum.splits option.splits dest: sequence_locks_loop_mono)
  next
    case (Suc j)
    with "3.prems" "3.IH" [where i = j] show ?thesis
      by (auto simp: Let_def split: if_splits sum.splits option.splits)
  qed
qed auto

text \<open>
  C10. \<^verbatim>\<open>OP_CHECKSEQUENCEVERIFY\<close> delivers what it promises: if the script check of an input
  passes for an operand and the sequence locks of the transaction hold in a block, then the
  block is at least as many blocks above the block of the spent coin as the operand says, or,
  for a time operand, its median time past is at least that many units of 512 seconds after
  the median time past before that block.
\<close>

theorem CheckSequence_sound:
  assumes "CheckSequence tx nIn n" "nIn < length (tx_vin tx)"
    and "SequenceLocks s tx flags heights block = Inr True" "flags AND LOCKTIME_VERIFY_SEQUENCE \<noteq> 0"
  shows "if n AND SEQUENCE_LOCKTIME_TYPE_FLAG = 0
    then heights ! nIn + (n AND SEQUENCE_LOCKTIME_MASK) \<le> int (bi_nHeight (s block))
    else \<exists>q p. GetAncestor s block (max (heights ! nIn - 1) 0) = Inr (Some q) \<and> bi_pprev (s block) = Some p \<and>
      GetMedianTimePast s q + 512 * (n AND SEQUENCE_LOCKTIME_MASK) \<le> GetMedianTimePast s p"
proof -
  note c = CheckSequenceD [OF assms(1)]
  let ?sq = "int (unat (in_nSequence (tx_vin tx ! nIn)))"
  obtain h t hs' where l: "CalculateSequenceLocks s tx flags heights block = Inr ((h, t), hs')"
    and e: "EvaluateSequenceLocks s block (h, t) = Inr True"
    using assms(3) by (auto simp: SequenceLocks_def)
  have loop: "sequence_locks_loop s block (tx_vin tx) heights (- 1) (- 1) = Inr ((h, t), hs')"
    and len: "length heights = length (tx_vin tx)"
    using l c(1) assms(4) by (auto simp: CalculateSequenceLocks_def split: if_splits)
  obtain p where p: "bi_pprev (s block) = Some p" "h < int (bi_nHeight (s block))" "t < GetMedianTimePast s p"
    using e by (auto simp: EvaluateSequenceLocks_def split: option.splits if_splits)
  note b = sequence_locks_loop_bound [OF loop assms(2) _ refl c(2)]
  show ?thesis
  proof (cases "n AND SEQUENCE_LOCKTIME_TYPE_FLAG = 0")
    case True
    with b c(3,4) len assms(2) p(2) show ?thesis by simp
  next
    case False
    then obtain q where q: "GetAncestor s block (max (heights ! nIn - 1) 0) = Inr (Some q)"
      "GetMedianTimePast s q + push_bit SEQUENCE_LOCKTIME_GRANULARITY (?sq AND SEQUENCE_LOCKTIME_MASK) - 1 \<le> t"
      using b c(3) len assms(2) by auto
    have "512 * (n AND SEQUENCE_LOCKTIME_MASK)
        \<le> push_bit SEQUENCE_LOCKTIME_GRANULARITY (?sq AND SEQUENCE_LOCKTIME_MASK)"
      using c(4) by (simp add: push_bit_eq_mult SEQUENCE_LOCKTIME_GRANULARITY_def)
    with q p False show ?thesis by auto
  qed
qed

definition csv_tx :: CTransaction where
  "csv_tx = \<lparr>tx_nVersion = 2, tx_vin = [\<lparr>in_prevout = COutPoint_null, in_scriptSig = [], in_nSequence = 7, in_scriptWitness = []\<rparr>],
    tx_vout = [], tx_nLockTime = 0\<rparr>"

theorem CheckSequence_sound_witness:
  "CheckSequence csv_tx 0 5 \<and> SequenceLocks (line_store 200) csv_tx 1 [30] 40 = Inr True \<and> (30 :: int) + 5 \<le> 40"
proof -
  have a: "CheckSequence csv_tx 0 5"
    by (simp add: CheckSequence_def csv_tx_def SEQUENCE_LOCKTIME_DISABLE_FLAG_def SEQUENCE_LOCKTIME_TYPE_FLAG_def
        SEQUENCE_LOCKTIME_MASK_def)
  have "GetMedianTimePast (line_store 200) 39 = 34" by code_simp
  then have b: "SequenceLocks (line_store 200) csv_tx 1 [30] 40 = Inr True"
    by (simp add: SequenceLocks_def CalculateSequenceLocks_def EvaluateSequenceLocks_def csv_tx_def
        LOCKTIME_VERIFY_SEQUENCE_def SEQUENCE_LOCKTIME_DISABLE_FLAG_def SEQUENCE_LOCKTIME_TYPE_FLAG_def
        SEQUENCE_LOCKTIME_MASK_def)
  from CheckSequence_sound [OF a _ b] a b show ?thesis
    by (simp add: csv_tx_def LOCKTIME_VERIFY_SEQUENCE_def SEQUENCE_LOCKTIME_TYPE_FLAG_def SEQUENCE_LOCKTIME_MASK_def)
qed

section \<open>What the context-free checks guarantee\<close>

lemma check_outputs_loop_InrD:
  "check_outputs_loop tx vout acc k = Inr k' \<Longrightarrow>
    list_all (\<lambda>v. MoneyRange (out_nValue v)) vout \<and> k \<le> k' \<and> k' = k + length (filter is_contract_out vout) \<and>
    list_all (\<lambda>v. is_contract_out v \<longrightarrow> fst (Solver (out_scriptPubKey v) True False) \<noteq> TX_NONSTANDARD) vout \<and>
    (MoneyRange acc \<longrightarrow> MoneyRange (acc + sum_list (map out_nValue vout)))"
proof (induction tx vout acc k rule: check_outputs_loop.induct)
  case (2 tx txout vout acc k)
  have r: "MoneyRange (out_nValue txout)" "MoneyRange (acc + out_nValue txout)"
    using "2.prems" by (auto simp: MoneyRange_def split: if_splits)
  show ?case
  proof (cases "is_contract_out txout")
    case True
    with "2.prems" have "check_outputs_loop tx vout (acc + out_nValue txout) (k + 1) = Inr k'"
      "fst (Solver (out_scriptPubKey txout) True False) \<noteq> TX_NONSTANDARD" by (auto split: if_splits)
    with "2.IH"(1) True r "2.prems" show ?thesis by (auto simp: add.assoc split: if_splits)
  next
    case False
    with "2.prems" have "check_outputs_loop tx vout (acc + out_nValue txout) k = Inr k'" by (auto split: if_splits)
    with "2.IH"(2) False r "2.prems" show ?thesis by (auto simp: add.assoc split: if_splits)
  qed
qed simp

lemma duplicate_input_iff:
  "\<not> duplicate_input seen vin \<longleftrightarrow> distinct (map in_prevout vin) \<and> set seen \<inter> in_prevout ` set vin = {}"
  by (induction seen vin rule: duplicate_input.induct) auto

lemma MoneyRange_0: "MoneyRange 0"
  by (simp add: MoneyRange_def MAX_MONEY_def COIN_def)

lemma CheckTransaction_InrD:
  assumes "CheckTransaction params sizes tx h dup = Inr u"
  shows "tx_vin tx \<noteq> []" "tx_vout tx \<noteq> []" "length (SerializeTransaction False tx) \<le> MAX_TRANSACTION_BASE_SIZE"
    "list_all (\<lambda>v. MoneyRange (out_nValue v)) (tx_vout tx)" "sum_list (map out_nValue (tx_vout tx)) \<le> MAX_MONEY"
    "dup \<Longrightarrow> distinct (map in_prevout (tx_vin tx))"
    "\<not> IsCoinBase tx \<Longrightarrow> list_all (\<lambda>txin. \<not> COutPoint_IsNull (in_prevout txin)) (tx_vin tx)"
    "list_all (\<lambda>v. is_contract_out v \<longrightarrow> fst (Solver (out_scriptPubKey v) True False) \<noteq> TX_NONSTANDARD) (tx_vout tx)"
    "nContractOutsHeight params \<le> h \<Longrightarrow> h < nRefundFixHeight params \<Longrightarrow> length (filter is_contract_out (tx_vout tx)) \<le> 1"
    "tx_HasOpCoinstakeCall tx \<Longrightarrow> IsCoinStake tx"
proof -
  obtain k where k: "check_outputs_loop tx (tx_vout tx) 0 0 = Inr k"
    and r: "\<not> (nContractOutsHeight params \<le> h \<and> h < nRefundFixHeight params \<and> k > 1)"
    using assms by (auto simp: CheckTransaction_def split: if_splits)
  note o = check_outputs_loop_InrD [OF k]
  show "tx_vin tx \<noteq> []" "tx_vout tx \<noteq> []" "length (SerializeTransaction False tx) \<le> MAX_TRANSACTION_BASE_SIZE"
    "dup \<Longrightarrow> distinct (map in_prevout (tx_vin tx))"
    "\<not> IsCoinBase tx \<Longrightarrow> list_all (\<lambda>txin. \<not> COutPoint_IsNull (in_prevout txin)) (tx_vin tx)"
    "tx_HasOpCoinstakeCall tx \<Longrightarrow> IsCoinStake tx"
    using assms k by (simp_all add: CheckTransaction_def duplicate_input_iff list_ex_iff list_all_iff split: if_splits)
  show "list_all (\<lambda>v. MoneyRange (out_nValue v)) (tx_vout tx)"
    "list_all (\<lambda>v. is_contract_out v \<longrightarrow> fst (Solver (out_scriptPubKey v) True False) \<noteq> TX_NONSTANDARD) (tx_vout tx)"
    using o by blast+
  show "sum_list (map out_nValue (tx_vout tx)) \<le> MAX_MONEY" using o MoneyRange_0 by (simp add: MoneyRange_def)
  show "nContractOutsHeight params \<le> h \<Longrightarrow> h < nRefundFixHeight params \<Longrightarrow> length (filter is_contract_out (tx_vout tx)) \<le> 1"
    using o r by simp
qed

lemma length_concat_map_ge: "(\<And>x. f x \<noteq> []) \<Longrightarrow> length xs \<le> length (concat (map f xs))"
proof (induction xs)
  case (Cons x xs)
  then show ?case using Cons.prems [of x] by (cases "f x") auto
qed simp

lemma length_vout_le: "length (tx_vout tx) \<le> length (SerializeTransaction False tx)"
proof -
  have ne: "Serialize_CTxOut v \<noteq> []" for v
  proof -
    have "8 \<le> length (Serialize_CTxOut v)" by (simp add: Serialize_CTxOut_def ser_int64_def ser_writedata64_def)
    then show ?thesis by (intro notI) simp
  qed
  from length_concat_map_ge [of Serialize_CTxOut "tx_vout tx", OF ne] show ?thesis
    by (simp add: SerializeTransaction_def Serialize_vector_def)
qed

section \<open>The value of the unspent outputs\<close>

abbreviation coin_value :: "Coin \<Rightarrow> CAmount" where "coin_value coin \<equiv> out_nValue (coin_out coin)"

definition total_value :: "utxo \<Rightarrow> CAmount" where
  "total_value u = (\<Sum>k \<in> dom u. coin_value (the (u k)))"

text \<open>The value of the outputs that can never be spent and are not stored.\<close>

definition burnt :: "CTransaction \<Rightarrow> CAmount" where
  "burnt tx = sum_list (map out_nValue (filter (\<lambda>t. IsUnspendable (out_scriptPubKey t)) (tx_vout tx)))"

lemma total_value_restrict:
  assumes "finite (dom u)" "A \<subseteq> dom u"
  shows "total_value (u |` (- A)) = total_value u - (\<Sum>k \<in> A. coin_value (the (u k)))"
proof -
  have d: "dom (u |` (- A)) = dom u - A" by auto
  have "total_value (u |` (- A)) = (\<Sum>k \<in> dom u - A. coin_value (the (u k)))"
    unfolding total_value_def d by (rule sum.cong) auto
  also have "\<dots> = total_value u - (\<Sum>k \<in> A. coin_value (the (u k)))"
    unfolding total_value_def using assms by (simp add: sum_diff)
  finally show ?thesis .
qed

lemma total_value_add:
  assumes "finite (dom u)" "distinct (map fst kvs)" "\<forall>k \<in> fst ` set kvs. u k = None"
  shows "total_value (u ++ map_of kvs) = total_value u + sum_list (map (\<lambda>(_, coin). coin_value coin) kvs)"
  using assms(2,3)
proof (induction kvs)
  case (Cons kv kvs)
  obtain k coin where kv: "kv = (k, coin)" by (cases kv)
  let ?w = "u ++ map_of kvs"
  have k: "k \<notin> dom ?w" using Cons.prems kv by (auto simp: dom_map_of_conv_image_fst)
  have fin: "finite (dom ?w)" using assms(1) by (simp add: finite_dom_map_of)
  have "total_value (?w(k \<mapsto> coin)) = coin_value coin + total_value ?w"
  proof -
    have "(\<Sum>j \<in> dom ?w. coin_value (the ((?w(k \<mapsto> coin)) j))) = total_value ?w"
      unfolding total_value_def by (rule sum.cong) (use k in auto)
    then show ?thesis using k fin by (simp add: total_value_def [of "?w(k \<mapsto> coin)"])
  qed
  moreover have "u ++ map_of (kv # kvs) = ?w(k \<mapsto> coin)" by (rule ext) (simp add: map_add_def kv)
  ultimately have e: "total_value (u ++ map_of (kv # kvs)) = coin_value coin + total_value ?w" by simp
  have ih: "total_value ?w = total_value u + sum_list (map (\<lambda>(_, coin). coin_value coin) kvs)"
    using Cons by simp
  show ?case unfolding e ih by (simp add: kv)
qed simp

lemma outs_from_value:
  "sum_list (map (\<lambda>(_, coin). coin_value coin) (outs_from txid (tx_coin tx h) i ts)) +
    sum_list (map out_nValue (filter (\<lambda>t. IsUnspendable (out_scriptPubKey t)) ts)) = sum_list (map out_nValue ts)"
  by (induction ts arbitrary: i) auto

lemma total_value_spec_tx:
  assumes "finite (dom u)" and c: "connectable H h tx u"
  shows "total_value (spec_tx H h tx u) + burnt tx =
    total_value u - sum_list (map (\<lambda>k. coin_value (the (u k))) (tx_ins tx)) + sum_list (map out_nValue (tx_vout tx))"
proof -
  have ins: "set (tx_ins tx) \<subseteq> dom u" using c connectable_present by fast
  have d: "distinct (tx_ins tx)" and len: "length (tx_vout tx) \<le> 2 ^ 32" using c by (simp_all add: connectable_def)
  have r: "total_value (u |` (- set (tx_ins tx))) = total_value u - sum_list (map (\<lambda>k. coin_value (the (u k))) (tx_ins tx))"
    using total_value_restrict [OF assms(1) ins] d by (simp add: sum_list_distinct_conv_sum_set)
  have new: "\<forall>k \<in> fst ` set (tx_outs H h tx). (u |` (- set (tx_ins tx))) k = None"
    using connectable_outs [OF c] by (auto simp: restrict_map_def)
  have "total_value (spec_tx H h tx u) = total_value (u |` (- set (tx_ins tx))) +
      sum_list (map (\<lambda>(_, coin). coin_value coin) (tx_outs H h tx))"
    unfolding spec_tx_def
    by (rule total_value_add) (use assms(1) new distinct_outs_from [of 0 "tx_vout tx"] len in \<open>auto simp: tx_outs_def\<close>)
  then show ?thesis
    unfolding r burnt_def tx_outs_def using outs_from_value [of "ComputeHash H tx" tx h 0 "tx_vout tx"] by linarith
qed


context coins_view
begin

lemma have_inputs_loop_ok:
  "cinv c \<Longrightarrow> have_inputs_loop V vin c = (r, c') \<Longrightarrow>
    cinv c' \<and> cutxo c' = cutxo c \<and> cbest c' = cbest c \<and> (r \<longleftrightarrow> (\<forall>txin \<in> set vin. cutxo c (in_prevout txin) \<noteq> None))"
proof (induction vin arbitrary: c)
  case (Cons txin vin)
  obtain b c1 where h: "HaveCoin V (in_prevout txin) c = (b, c1)" by fastforce
  note ok = HaveCoin_ok [OF Cons.prems(1) h]
  show ?case
  proof (cases b)
    case True
    with Cons.prems(2) h have "have_inputs_loop V vin c1 = (r, c')" by simp
    from Cons.IH [OF ok(4) this] ok True show ?thesis by simp
  next
    case False
    with Cons.prems h ok show ?thesis by auto
  qed
qed simp

lemma check_inputs_loop_ok:
  "cinv c \<Longrightarrow> check_inputs_loop V params h vin acc c = (Inr v, c') \<Longrightarrow>
    cinv c' \<and> cutxo c' = cutxo c \<and> cbest c' = cbest c \<and>
    v = acc + sum_list (map (\<lambda>txin. coin_value (the (cutxo c (in_prevout txin)))) vin) \<and>
    (\<forall>txin \<in> set vin. \<exists>coin. cutxo c (in_prevout txin) = Some coin \<and> MoneyRange (coin_value coin) \<and>
      (coin_fCoinBase coin \<or> coin_fCoinStake coin \<longrightarrow>
        CoinbaseMaturity params h \<le> h - int (unat (coin_nHeight coin))))"
proof (induction vin arbitrary: c acc)
  case (Cons txin vin)
  obtain coin c1 where a: "AccessCoin V (in_prevout txin) c = (coin, c1)" by fastforce
  note ok = AccessCoin_ok [OF Cons.prems(1) a]
  have ns: "\<not> IsSpent coin" and r: "MoneyRange (coin_value coin)"
    and m: "coin_fCoinBase coin \<or> coin_fCoinStake coin \<longrightarrow> CoinbaseMaturity params h \<le> h - int (unat (coin_nHeight coin))"
    and rec: "check_inputs_loop V params h vin (acc + coin_value coin) c1 = (Inr v, c')"
    using Cons.prems(2) a by (auto simp: Let_def split: if_splits)
  have u: "cutxo c (in_prevout txin) = Some coin" using ok(1) ns by (simp add: unspent_def)
  show ?case using Cons.IH [OF ok(4) rec] ok(2,3) u r m by simp
qed simp

lemma CheckTxInputs_ok:
  assumes c: "cinv c" and chk: "CheckTxInputs V params tx h c = (Inr (Some fee), c')" and cb: "\<not> IsCoinBase tx"
  shows "cinv c' \<and> cutxo c' = cutxo c \<and> cbest c' = cbest c \<and> MoneyRange fee \<and>
    sum_list (map (\<lambda>txin. coin_value (the (cutxo c (in_prevout txin)))) (tx_vin tx)) =
      sum_list (map out_nValue (tx_vout tx)) + fee \<and>
    (\<forall>txin \<in> set (tx_vin tx). cutxo c (in_prevout txin) \<noteq> None)"
proof -
  obtain b c1 where h: "HaveInputs V tx c = (b, c1)" by fastforce
  have b: b using chk h by (simp add: CheckTxInputs_def split: bool.splits)
  have i: "have_inputs_loop V (tx_vin tx) c = (True, c1)" using h b cb by (simp add: HaveInputs_def)
  note ok1 = have_inputs_loop_ok [OF c i]
  obtain x c2 where l: "check_inputs_loop V params h (tx_vin tx) 0 c1 = (x, c2)" by fastforce
  obtain nValueIn value_out where x: "x = Inr nValueIn" "c2 = c'" "GetValueOut tx = Inr value_out"
    "fee = nValueIn - value_out" "MoneyRange fee"
    using chk h b l by (auto simp: CheckTxInputs_def split: sum.splits if_splits)
  have ok2: "cinv c'" "cutxo c' = cutxo c1" "cbest c' = cbest c1"
    "nValueIn = sum_list (map (\<lambda>txin. coin_value (the (cutxo c1 (in_prevout txin)))) (tx_vin tx))"
    using check_inputs_loop_ok [of c1 params h "tx_vin tx" 0 nValueIn c'] ok1 l x by auto
  have "value_out = sum_list (map out_nValue (tx_vout tx))"
    using value_out_loop_Inr [of 0 "tx_vout tx" value_out] x(3) MoneyRange_0 by (simp add: GetValueOut_def)
  with ok1 ok2 x show ?thesis by simp
qed

lemma check_inputs_loop_complete:
  "cinv c \<Longrightarrow> MoneyRange acc \<Longrightarrow>
    \<forall>txin \<in> set vin. \<exists>coin. cutxo c (in_prevout txin) = Some coin \<and> 0 \<le> coin_value coin \<and>
      (coin_fCoinBase coin \<or> coin_fCoinStake coin \<longrightarrow> CoinbaseMaturity params h \<le> h - int (unat (coin_nHeight coin))) \<Longrightarrow>
    acc + sum_list (map (\<lambda>txin. coin_value (the (cutxo c (in_prevout txin)))) vin) \<le> MAX_MONEY \<Longrightarrow>
    \<exists>c'. check_inputs_loop V params h vin acc c =
      (Inr (acc + sum_list (map (\<lambda>txin. coin_value (the (cutxo c (in_prevout txin)))) vin)), c')"
proof (induction vin arbitrary: c acc)
  case (Cons txin vin)
  let ?sum = "sum_list (map (\<lambda>txin. coin_value (the (cutxo c (in_prevout txin)))) vin)"
  obtain coin where u: "cutxo c (in_prevout txin) = Some coin" "0 \<le> coin_value coin"
    and m: "coin_fCoinBase coin \<or> coin_fCoinStake coin \<longrightarrow> CoinbaseMaturity params h \<le> h - int (unat (coin_nHeight coin))"
    using Cons.prems(3) by auto
  obtain coin' c1 where a: "AccessCoin V (in_prevout txin) c = (coin', c1)" by fastforce
  note ok = AccessCoin_ok [OF Cons.prems(1) a]
  have cc: "coin' = coin" "\<not> IsSpent coin" using ok(1) u(1) by (auto simp: unspent_def split: if_splits)
  have rest: "0 \<le> ?sum" using Cons.prems(3) by (intro sum_list_nonneg) force
  have tot: "acc + coin_value coin + ?sum \<le> MAX_MONEY" using Cons.prems(4) u(1) by simp
  have r: "MoneyRange (coin_value coin)" "MoneyRange (acc + coin_value coin)"
    using Cons.prems(2) u(2) rest tot by (auto simp: MoneyRange_def)
  then have i: "int64_ok (acc + coin_value coin)"
    by (simp add: int64_ok_def MoneyRange_def MAX_MONEY_def COIN_def int64_min_def int64_max_def)
  have "\<exists>c'. check_inputs_loop V params h vin (acc + coin_value coin) c1 =
      (Inr (acc + coin_value coin + sum_list (map (\<lambda>txin. coin_value (the (cutxo c1 (in_prevout txin)))) vin)), c')"
    by (rule Cons.IH) (use ok(2,4) r(2) Cons.prems(3) tot in \<open>simp_all add: add.assoc\<close>)
  then show ?case using a cc r i m u(1) ok(2) by (auto simp: Let_def add.assoc)
qed simp

text \<open>\<^verbatim>\<open>CheckTxInputs\<close> accepts every transaction whose inputs exist, are mature and cover the outputs.\<close>

lemma CheckTxInputs_complete:
  assumes c: "cinv c" and cb: "\<not> IsCoinBase tx" "\<not> IsCoinStake tx" and out: "GetValueOut tx = Inr value_out"
    and ins: "\<forall>txin \<in> set (tx_vin tx). \<exists>coin. cutxo c (in_prevout txin) = Some coin \<and> 0 \<le> coin_value coin \<and>
      (coin_fCoinBase coin \<or> coin_fCoinStake coin \<longrightarrow> CoinbaseMaturity params h \<le> h - int (unat (coin_nHeight coin)))"
    and sum: "value_in = sum_list (map (\<lambda>txin. coin_value (the (cutxo c (in_prevout txin)))) (tx_vin tx))"
      "value_out \<le> value_in" "value_in \<le> MAX_MONEY"
  shows "\<exists>c'. CheckTxInputs V params tx h c = (Inr (Some (value_in - value_out)), c')"
proof -
  obtain b c1 where i: "have_inputs_loop V (tx_vin tx) c = (b, c1)" by fastforce
  note ok = have_inputs_loop_ok [OF c i]
  have b: b using ok ins by auto
  obtain c2 where l: "check_inputs_loop V params h (tx_vin tx) 0 c1 = (Inr value_in, c2)"
    using check_inputs_loop_complete [of c1 0 "tx_vin tx" params h] ok ins sum MoneyRange_0 by auto
  have "0 \<le> value_out" using value_out_loop_Inr [of 0 "tx_vout tx" value_out] out MoneyRange_0
    by (auto simp: GetValueOut_def MoneyRange_def)
  then have "MoneyRange (value_in - value_out)" using sum by (simp add: MoneyRange_def)
  then show ?thesis using i b l cb out sum(2) by (simp add: CheckTxInputs_def HaveInputs_def)
qed

end

text \<open>
  Every stored coin is unspent, was created above height 0 and can be spent: what block
  connection keeps of the set of coins.
\<close>

definition utxo_ok :: "utxo \<Rightarrow> bool" where
  "utxo_ok u \<longleftrightarrow> (\<forall>coin \<in> ran u. spendable coin)"

lemma checked_connectable:
  assumes chk: "CheckTransaction params sizes tx h True = Inr ()" and u: "utxo_ok u"
    and ins: "\<forall>txin \<in> set (tx_vin tx). u (in_prevout txin) \<noteq> None" and cb: "\<not> IsCoinBase tx"
    and new: "list_all (\<lambda>(k, _). u k = None) (tx_outs H h tx)"
  shows "connectable H h tx u"
proof -
  note d = CheckTransaction_InrD [OF chk]
  have "list_all (\<lambda>k. case u k of None \<Rightarrow> False | Some coin \<Rightarrow> spendable coin) (tx_ins tx)"
    using ins u by (auto simp: list_all_iff tx_ins_def utxo_ok_def ran_def split: option.splits)
  moreover have "distinct (tx_ins tx)" using d(6) by (simp add: tx_ins_def)
  moreover have "length (tx_vout tx) \<le> 2 ^ 32"
    using length_vout_le [of tx] d(3) by (simp add: MAX_TRANSACTION_BASE_SIZE_def)
  moreover have "list_all (\<lambda>t. \<not> CTxOut_IsNull t) (tx_vout tx)"
    using d(4) by (auto simp: list_all_iff CTxOut_IsNull_def MoneyRange_def)
  ultimately show ?thesis using new by (simp add: connectable_def)
qed

context coins_view
begin

lemma checked_tx_conserves_value:
  assumes c: "cinv c" and u: "utxo_ok (cutxo c)" "finite (dom (cutxo c))"
    and chk: "CheckTransaction params sizes tx h True = Inr ()" and cb: "\<not> IsCoinBase tx"
    and ins: "CheckTxInputs V params tx h c = (Inr (Some fee), c1)"
    and new: "list_all (\<lambda>(k, _). cutxo c k = None) (tx_outs H h tx)"
  shows "\<exists>undo c2. UpdateCoins H V tx h c1 = Inr (undo, c2) \<and> cinv c2 \<and> 0 \<le> fee \<and>
    total_value (cutxo c2) + burnt tx + fee = total_value (cutxo c)"
proof -
  note i = CheckTxInputs_ok [OF c ins cb]
  have con: "connectable H h tx (cutxo c)" by (rule checked_connectable [OF chk u(1) _ cb new]) (use i in blast)
  obtain c2 where c2: "UpdateCoins H V tx h c1 = Inr (spec_undo tx (cutxo c), c2)" "cinv c2"
    "cutxo c2 = spec_tx H h tx (cutxo c)"
    using UpdateCoins_ok [of c1 H h tx] i con by auto
  have "total_value (cutxo c2) + burnt tx + fee = total_value (cutxo c)"
    using total_value_spec_tx [OF u(2) con] i cb c2(3) by (simp add: tx_ins_def comp_def)
  with c2 i show ?thesis by (auto simp: MoneyRange_def)
qed

end

text \<open>
  C6. No inflation: a transaction that is neither coinbase nor coinstake, passes
  \<^verbatim>\<open>CheckTransaction\<close> and \<^verbatim>\<open>CheckTxInputs\<close>, and whose outputs are new, is applied by
  \<^verbatim>\<open>UpdateCoins\<close> without an error, and the value of all unspent outputs changes by exactly
  the fee (which is not negative) and the value of the outputs that can never be spent.
\<close>

theorem checked_tx_no_inflation:
  assumes "cache_inv (cache_inv db_inv db_coin) (cache_utxo db_coin) c"
    and "utxo_ok (cache_utxo (cache_utxo db_coin) c)" "finite (dom (cache_utxo (cache_utxo db_coin) c))"
    and "CheckTransaction params sizes tx h True = Inr ()" "\<not> IsCoinBase tx"
    and "CheckTxInputs (CacheView (CCoinsViewDB est n)) params tx h c = (Inr (Some fee), c1)"
    and "list_all (\<lambda>(k, _). cache_utxo (cache_utxo db_coin) c k = None) (tx_outs H h tx)"
  shows "\<exists>undo c2. UpdateCoins H (CacheView (CCoinsViewDB est n)) tx h c1 = Inr (undo, c2) \<and>
    cache_inv (cache_inv db_inv db_coin) (cache_utxo db_coin) c2 \<and> 0 \<le> fee \<and>
    total_value (cache_utxo (cache_utxo db_coin) c2) + burnt tx + fee = total_value (cache_utxo (cache_utxo db_coin) c)"
  using assms by (rule tip.checked_tx_conserves_value)


text \<open>A transaction that spends a coin of value 5 and pays 3.\<close>

definition pay3 :: CTransaction where
  "pay3 = \<lparr>tx_nVersion = 2,
     tx_vin = [\<lparr>in_prevout = kernel_out, in_scriptSig = [], in_nSequence = 0, in_scriptWitness = []\<rparr>],
     tx_vout = [\<lparr>out_nValue = 3, out_scriptPubKey = []\<rparr>], tx_nLockTime = 0\<rparr>"

lemma pay3_simps:
  "\<not> IsCoinBase pay3" "\<not> IsCoinStake pay3" "length (SerializeTransaction False pay3) = 60" "\<not> tx_HasOpCoinstakeCall pay3"
proof -
  show cb: "\<not> IsCoinBase pay3" "\<not> IsCoinStake pay3"
    by (simp_all add: IsCoinBase_def IsCoinStake_def pay3_def kernel_out_def COutPoint_IsNull_def)
  show "length (SerializeTransaction False pay3) = 60"
    by (simp add: SerializeTransaction_def pay3_def Serialize_vector_def Serialize_CTxIn_def
      Serialize_CTxOut_def Serialize_bytes_def length_ser_simps length_WriteCompactSize GetSizeOfCompactSize_def)
  have "\<not> HasOpCoinstakeCall []" by code_simp
  then show "\<not> tx_HasOpCoinstakeCall pay3" by (simp add: tx_HasOpCoinstakeCall_def pay3_def)
qed

lemma pay3_checked: "CheckTransaction params initial_block_size_params pay3 h True = Inr ()"
proof -
  have "\<not> is_contract_out \<lparr>out_nValue = 3, out_scriptPubKey = []\<rparr>" by code_simp
  then have "check_outputs_loop pay3 (tx_vout pay3) 0 0 = Inr 0"
    by (simp add: pay3_def CTxOut_IsEmpty_def MoneyRange_def MAX_MONEY_def COIN_def)
  moreover have "tx_vin pay3 \<noteq> []" "tx_vout pay3 \<noteq> []" "\<not> duplicate_input [] (tx_vin pay3)"
    "\<not> list_ex (\<lambda>txin. COutPoint_IsNull (in_prevout txin)) (tx_vin pay3)"
    by (simp_all add: pay3_def COutPoint_IsNull_def kernel_out_def)
  ultimately show ?thesis
    by (simp add: CheckTransaction_def pay3_simps MAX_TRANSACTION_BASE_SIZE_def initial_block_size_params_def WITNESS_SCALE_FACTOR_def)
qed

theorem checked_tx_no_inflation_witness:
  "\<exists>undo c1 c2. CheckTxInputs (CacheView (CCoinsViewDB length 0)) main_params pay3 5 (new_cache (new_cache stake_db)) = (Inr (Some 2), c1) \<and>
    UpdateCoins length_hash (CacheView (CCoinsViewDB length 0)) pay3 5 c1 = Inr (undo, c2) \<and>
    total_value (cache_utxo (cache_utxo db_coin) c2) = 3"
proof -
  let ?c = "new_cache (new_cache stake_db)" and ?V = "CacheView (CCoinsViewDB length 0)"
  have u: "cache_utxo (cache_utxo db_coin) ?c = [kernel_out \<mapsto> sample_coin]"
    by (simp add: new_cache_def cache_utxo_def fun_eq_iff)
  have ns: "\<not> IsSpent sample_coin" by (simp add: sample_coin_def IsSpent_def CTxOut_IsNull_def)
  then have inv: "cache_inv (cache_inv db_inv db_coin) (cache_utxo db_coin) ?c"
    by (simp add: new_cache_def cache_inv_def entries_ok_def db_inv_def empty_db_def)
  obtain c1 where c1: "CheckTxInputs ?V main_params pay3 5 ?c = (Inr (Some 2), c1)"
  proof -
    have g: "GetValueOut pay3 = Inr 3"
      by (simp add: GetValueOut_def pay3_def MoneyRange_def MAX_MONEY_def COIN_def int64_min_def int64_max_def)
    have "\<exists>c1. CheckTxInputs ?V main_params pay3 5 ?c = (Inr (Some (5 - 3)), c1)"
      by (rule tip.CheckTxInputs_complete [OF inv pay3_simps(1,2) g])
        (unfold u, simp_all add: pay3_def sample_coin_def MAX_MONEY_def COIN_def)
    then have "\<exists>c1. CheckTxInputs ?V main_params pay3 5 ?c = (Inr (Some 2), c1)" by simp
    with that show thesis by blast
  qed
  have new: "list_all (\<lambda>(k, _). cache_utxo (cache_utxo db_coin) ?c k = None) (tx_outs length_hash 5 pay3)"
  proof -
    have "ComputeHash length_hash pay3 = 60" using pay3_simps(3) by (simp add: ComputeHash_def)
    then show ?thesis unfolding u by (simp add: tx_outs_def) (simp add: pay3_def kernel_out_def)
  qed
  have tv: "total_value [kernel_out \<mapsto> sample_coin] = 5" by (simp add: total_value_def sample_coin_def)
  have b: "burnt pay3 = 0" by (simp add: burnt_def pay3_def IsUnspendable_def)
  show ?thesis
    using checked_tx_no_inflation [OF inv _ _ pay3_checked pay3_simps(1) c1 new] spendable_samples(1)
    unfolding u tv b by (auto simp: utxo_ok_def c1)
qed

section \<open>Calls to the system contracts\<close>

abbreviation stake_call_to :: "bytes \<Rightarrow> QtumTransaction \<Rightarrow> bool" where
  "stake_call_to a t \<equiv> qtumType t = OP_COINSTAKE_CALL \<and> receiveAddress t = a"

text \<open>Whether one transaction alone respects the rules.\<close>

definition system_call_ok :: "system_contracts \<Rightarrow> QtumTransaction \<Rightarrow> bool" where
  "system_call_ok S t \<longleftrightarrow>
     (qtumType t = OP_CALL \<longrightarrow>
        \<not> (receiveAddress t = LockTripEconomyContract S \<and> selector_is S t (addContract_hex S)) \<and>
        \<not> (receiveAddress t = LockTripDgpContract S \<and> selector_is S t (finishVote_hex S))) \<and>
     (qtumType t = OP_COINSTAKE_CALL \<longrightarrow>
        receiveAddress t = LockTripEconomyContract S \<or>
        (receiveAddress t = LockTripDgpContract S \<and> selector_is S t (finishVote_hex S)))"

lemma check_qtum_loop_iff:
  "(d \<longrightarrow> LockTripEconomyContract S \<noteq> LockTripDgpContract S) \<Longrightarrow>
   check_qtum_loop S e d ts = Inr () \<longleftrightarrow>
     list_all (system_call_ok S) ts \<and>
     length (filter (stake_call_to (LockTripEconomyContract S)) ts) \<le> (if e then 0 else 1) \<and>
     length (filter (stake_call_to (LockTripDgpContract S)) ts) \<le> (if d then 0 else 1)"
proof (induction S e d ts rule: check_qtum_loop.induct)
  case (2 S e d t ts)
  show ?case
  proof (cases "qtumType t = OP_COINSTAKE_CALL")
    case True
    then show ?thesis
      using "2.IH"(1,2) "2.prems" by (auto simp: system_call_ok_def)
  next
    case False
    then show ?thesis using "2.IH"(3) "2.prems" by (auto simp: system_call_ok_def)
  qed
qed simp

text \<open>
  C13. \<^verbatim>\<open>CheckQtumTransaction\<close> enforces exactly the rules for calls to the system contracts: no
  plain call adds a contract to the economy contract or finishes a vote, a coinstake call
  reaches only the economy contract or the finishing of a vote, and there is at most one
  coinstake call to each of the two contracts, in whatever order they come.
\<close>

theorem CheckQtumTransaction_iff:
  "CheckQtumTransaction S ts = Inr () \<longleftrightarrow>
     list_all (system_call_ok S) ts \<and>
     length (filter (stake_call_to (LockTripEconomyContract S)) ts) \<le> 1 \<and>
     length (filter (stake_call_to (LockTripDgpContract S)) ts) \<le> 1"
  unfolding CheckQtumTransaction_def by (subst check_qtum_loop_iff) simp_all

end
