(* ===== verification/Pow.thy ===== *)
theory Pow imports Chain Params begin

text \<open>
  Difficulty targets and proof of work (\<^verbatim>\<open>src/pow.cpp\<close>), the work of a block
  (\<^verbatim>\<open>GetBlockProof\<close> of \<^verbatim>\<open>src/chain.cpp\<close>) and the rule that looks at recent block times
  (\<^verbatim>\<open>CheckQIP9BlockTimeDiff\<close> of \<^verbatim>\<open>src/rpc/blockchain.cpp\<close>).
\<close>

section \<open>Outcomes\<close>

text \<open>
  A run that ends is \<open>Some\<close>: an exception, a failed assertion, a null dereference, or a result.
\<close>

datatype pow_error = Uint_error uint_error | Compact_assert | Null_deref

definition lift_uint :: "uint_error + 'a \<Rightarrow> pow_error + 'a" where
  "lift_uint r = (case r of Inl e \<Rightarrow> Inl (Uint_error e) | Inr x \<Rightarrow> Inr x)"

definition deref :: "'a option \<Rightarrow> (pow_error, 'a) run" where
  "deref p = (case p of None \<Rightarrow> Some (Inl Null_deref) | Some x \<Rightarrow> returns x)"

definition compact :: "arith_uint256 \<Rightarrow> (pow_error, uint32) run" where
  "compact a = (case GetCompact a False of None \<Rightarrow> Some (Inl Compact_assert) | Some c \<Rightarrow> returns c)"

section \<open>The exponential\<close>

text \<open>
  The loop of \<^verbatim>\<open>mul_exp\<close>. \<^verbatim>\<open>a * abs_p\<close> is the multiplication by a 32-bit number, which
  truncates \<^verbatim>\<open>abs_p\<close>.
\<close>

partial_function (option) mul_exp_loop ::
  "uint64 \<Rightarrow> uint64 \<Rightarrow> bool \<Rightarrow> arith_uint256 \<Rightarrow> arith_uint256 \<Rightarrow> uint64 \<Rightarrow> (pow_error, arith_uint256) run" where
  "mul_exp_loop abs_p q isNegative a result n =
     (if CompareTo a (base_uint_of_uint64 0) > 0 then
        (case bind_res (base_uint_div (base_uint_mul32 a (ucast abs_p)) (base_uint_of_uint64 q))
               (\<lambda>x. base_uint_div x (base_uint_of_uint64 (n + 1))) of
           Inl e \<Rightarrow> Some (Inl (Uint_error e))
         | Inr a' \<Rightarrow>
             mul_exp_loop abs_p q isNegative a'
               (if isNegative \<and> (n + 1) mod 2 = 1 then base_uint_sub result a' else base_uint_add result a') (n + 1))
      else Some (Inr result))"

text \<open>The arguments \<open>p\<close> and \<open>q\<close> are 64-bit signed numbers.\<close>

definition mul_exp :: "arith_uint256 \<Rightarrow> int \<Rightarrow> int \<Rightarrow> (pow_error, arith_uint256) run" where
  "mul_exp a p q = mul_exp_loop (of_int (if p \<ge> 0 then p else - p)) (of_int q) (p < 0) a a 0"

section \<open>Retargeting\<close>

partial_function (option) GetLastBlockIndex :: "store \<Rightarrow> bool \<Rightarrow> addr option \<Rightarrow> addr option option" where
  "GetLastBlockIndex s fProofOfStake pindex =
     (case pindex of
        None \<Rightarrow> Some None
      | Some a \<Rightarrow>
          if bi_pprev (s a) \<noteq> None \<and> Index_IsProofOfStake (s a) \<noteq> fProofOfStake
          then GetLastBlockIndex s fProofOfStake (bi_pprev (s a))
          else Some (Some a))"

text \<open>
  The loop of \<^verbatim>\<open>CheckQIP9BlockTimeDiff\<close>: the entry it stops at, the stakes counted and the 32-bit
  sum of the times between them.
\<close>

partial_function (option) stake_times ::
  "store \<Rightarrow> addr option \<Rightarrow> addr option \<Rightarrow> nat \<Rightarrow> uint32 \<Rightarrow> (addr option \<times> nat \<times> uint32) option" where
  "stake_times s pindexPrevStake pindex nStakesHandled nStakesTime =
     (case pindex of
        None \<Rightarrow> Some (None, nStakesHandled, nStakesTime)
      | Some a \<Rightarrow>
          if nStakesHandled < 72 then
            (if Index_IsProofOfStake (s a) then
               (case pindexPrevStake of
                  None \<Rightarrow> stake_times s (Some a) (bi_pprev (s a)) nStakesHandled nStakesTime
                | Some b \<Rightarrow>
                    stake_times s (Some a) (bi_pprev (s a)) (nStakesHandled + 1)
                      (nStakesTime + (bi_nTime (s b) - bi_nTime (s a))))
             else stake_times s pindexPrevStake (bi_pprev (s a)) nStakesHandled nStakesTime)
          else Some (pindex, nStakesHandled, nStakesTime))"

definition CheckQIP9BlockTimeDiff :: "Consensus_Params \<Rightarrow> store \<Rightarrow> addr option \<Rightarrow> bool option" where
  "CheckQIP9BlockTimeDiff params s pindex =
     map_option
       (\<lambda>(pindex, nStakesHandled, nStakesTime).
          let targetSpacing = TargetSpacing params (case pindex of None \<Rightarrow> 0 | Some a \<Rightarrow> int (bi_nHeight (s a)))
          in sint nStakesTime > 2 * targetSpacing * int nStakesHandled)
       (stake_times s None pindex 0 0)"

definition GetLimit :: "int \<Rightarrow> Consensus_Params \<Rightarrow> bool \<Rightarrow> arith_uint256" where
  "GetLimit nHeight params fProofOfStake =
     (if fProofOfStake then UintToArith256 (posLimit params) else UintToArith256 (powLimit params))"

text \<open>
  The quotient of signed integers rounds towards zero. The arguments of the in-place product and
  quotient are converted to 32 and to 64 bits.
\<close>

definition c_div :: "int \<Rightarrow> int \<Rightarrow> int" where
  "c_div x y = sgn x * sgn y * (\<bar>x\<bar> div \<bar>y\<bar>)"

text \<open>The new target before it is capped.\<close>

definition retarget ::
  "Consensus_Params \<Rightarrow> int \<Rightarrow> bool \<Rightarrow> arith_uint256 \<Rightarrow> int \<Rightarrow> (pow_error, arith_uint256) run" where
  "retarget params nHeight ignore bnNew nActualSpacing =
     (let nTargetSpacing = TargetSpacing params nHeight;
          nInterval = DifficultyAdjustmentInterval params nHeight ignore;
          nActualSpacing = (if nActualSpacing < 0 then nTargetSpacing else nActualSpacing)
      in if nHeight < QIP9Height params \<or> ignore then
           let nActualSpacing = (if nActualSpacing > nTargetSpacing * 10 then nTargetSpacing * 10 else nActualSpacing);
               bnNew = base_uint_mul32 bnNew (of_int ((nInterval - 1) * nTargetSpacing + nActualSpacing + nActualSpacing))
           in Some (lift_uint (base_uint_div bnNew (base_uint_of_uint64 (of_int ((nInterval + 1) * nTargetSpacing)))))
         else
           let nActualSpacing = (if nActualSpacing > nTargetSpacing * 20 then nTargetSpacing * 20 else nActualSpacing);
               m = int (unat (StakeTimestampMask params nHeight + 1))
           in mul_exp bnNew (c_div (2 * (nActualSpacing - nTargetSpacing)) m) (c_div ((nInterval + 1) * nTargetSpacing) m))"

definition CalculateNextWorkRequired ::
  "Consensus_Params \<Rightarrow> store \<Rightarrow> addr \<Rightarrow> int \<Rightarrow> bool \<Rightarrow> (pow_error, uint32) run" where
  "CalculateNextWorkRequired params s pindexLast nFirstBlockTime fProofOfStake =
     (if (if fProofOfStake then fPoSNoRetargeting params else fPowNoRetargeting params)
      then returns (bi_nBits (s pindexLast))
      else
        let nHeight = int (bi_nHeight (s pindexLast)) + 1;
            nActualSpacing = GetBlockTime (s pindexLast) - nFirstBlockTime;
            bnTargetLimit = GetLimit nHeight params fProofOfStake;
            bnNew = fst (SetCompact (bi_nBits (s pindexLast)))
        in case CheckQIP9BlockTimeDiff params s (Some pindexLast) of
             None \<Rightarrow> None
           | Some ignore \<Rightarrow>
               run_bind (retarget params nHeight ignore bnNew nActualSpacing)
                 (\<lambda>bnNew. compact (if CompareTo bnNew (base_uint_of_uint64 0) \<le> 0 \<or> CompareTo bnNew bnTargetLimit > 0
                                   then bnTargetLimit else bnNew)))"

text \<open>The last entry that does not have the special minimum difficulty.\<close>

partial_function (option) last_non_special ::
  "Consensus_Params \<Rightarrow> store \<Rightarrow> bool \<Rightarrow> uint32 \<Rightarrow> addr \<Rightarrow> addr option" where
  "last_non_special params s ignore nTargetLimit pindex =
     (case bi_pprev (s pindex) of
        None \<Rightarrow> Some pindex
      | Some pprev \<Rightarrow>
          if int (bi_nHeight (s pindex)) mod DifficultyAdjustmentInterval params (int (bi_nHeight (s pindex))) ignore \<noteq> 0 \<and>
             bi_nBits (s pindex) = nTargetLimit
          then last_non_special params s ignore nTargetLimit pprev
          else Some pindex)"

definition GetNextWorkRequired ::
  "Consensus_Params \<Rightarrow> store \<Rightarrow> addr option \<Rightarrow> CBlockHeader \<Rightarrow> bool \<Rightarrow> (pow_error, uint32) run" where
  "GetNextWorkRequired params s pindexLast pblock fProofOfStake =
     run_bind
       (compact (GetLimit (case pindexLast of None \<Rightarrow> 0 | Some a \<Rightarrow> int (bi_nHeight (s a)) + 1) params fProofOfStake))
       (\<lambda>nTargetLimit.
          case pindexLast of
            None \<Rightarrow> returns nTargetLimit
          | Some pLast \<Rightarrow>
              run_bind (map_option Inr (GetLastBlockIndex s fProofOfStake pindexLast))
                (\<lambda>p. run_bind (deref p) (\<lambda>pindexPrev.
                   if bi_pprev (s pindexPrev) = None then returns nTargetLimit
                   else
                     run_bind (map_option Inr (GetLastBlockIndex s fProofOfStake (bi_pprev (s pindexPrev))))
                       (\<lambda>pp. run_bind (deref pp) (\<lambda>pindexPrevPrev.
                          if bi_pprev (s pindexPrevPrev) = None then returns nTargetLimit
                          else if fPowAllowMinDifficultyBlocks params then
                            (if int (unat (hdr_nTime pblock)) >
                                GetBlockTime (s pLast) + TargetSpacing params (int (bi_nHeight (s pLast)) + 1) * 2
                             then returns nTargetLimit
                             else (case CheckQIP9BlockTimeDiff params s (Some pLast) of
                                     None \<Rightarrow> None
                                   | Some ignore \<Rightarrow>
                                       map_option (\<lambda>a. Inr (bi_nBits (s a)))
                                         (last_non_special params s ignore nTargetLimit pLast)))
                          else CalculateNextWorkRequired params s pindexPrev (GetBlockTime (s pindexPrevPrev)) fProofOfStake)))))"

section \<open>Proof of work\<close>

definition CheckProofOfWork :: "uint256 \<Rightarrow> uint32 \<Rightarrow> Consensus_Params \<Rightarrow> bool \<Rightarrow> bool" where
  "CheckProofOfWork hash nBits params fProofOfStake =
     (let (bnTarget, fNegative, fOverflow) = SetCompact nBits
      in if fNegative \<or> EqualTo bnTarget 0 \<or> fOverflow \<or> CompareTo bnTarget (UintToArith256 (powLimit params)) > 0
         then False
         else if CompareTo (UintToArith256 hash) bnTarget > 0 then False
         else True)"

definition GetBlockProof :: "CBlockIndex \<Rightarrow> uint_error + arith_uint256" where
  "GetBlockProof block =
     (let (bnTarget, fNegative, fOverflow) = SetCompact (bi_nBits block)
      in if fNegative \<or> fOverflow \<or> EqualTo bnTarget 0 then Inr (base_uint_of_uint64 0)
         else
           bind_res (base_uint_div (base_uint_compl bnTarget) (base_uint_add bnTarget (base_uint_of_uint64 1)))
             (\<lambda>x. Inr (base_uint_add x (base_uint_of_uint64 1))))"

section \<open>The exponential returns\<close>

lemma CompareTo_0: "limbs_ok a \<Longrightarrow> CompareTo a (base_uint_of_uint64 0) > 0 \<longleftrightarrow> 0 < val a"
  by (simp add: CompareTo_order)

text \<open>One round: the next term of the series.\<close>

lemma mul_exp_term:
  assumes a: "limbs_ok a" and q: "q \<noteq> 0" and n: "unat n + 1 < 2 ^ 64"
  shows "\<exists>a'. bind_res (base_uint_div (base_uint_mul32 a p) (base_uint_of_uint64 q))
      (\<lambda>x. base_uint_div x (base_uint_of_uint64 (n + 1))) = Inr a' \<and> limbs_ok a' \<and>
    val a' = val a * unat p mod 2 ^ 256 div unat q div (unat n + 1)"
proof -
  have q': "unat q \<noteq> 0" using q by (simp add: unsigned_eq_0_iff)
  have n': "unat (n + 1) = unat n + 1" using n by (simp add: unat_word_ariths)
  have m: "limbs_ok (base_uint_mul32 a p)" "val (base_uint_mul32 a p) = val a * unat p mod 2 ^ 256"
    using mul32_val [OF a, of p] by simp_all
  obtain x where x: "base_uint_div (base_uint_mul32 a p) (base_uint_of_uint64 q) = Inr x" "limbs_ok x"
      "val x = val a * unat p mod 2 ^ 256 div unat q"
    using div_val [OF m(1), of "base_uint_of_uint64 q"] q' m(2) by auto
  obtain y where "base_uint_div x (base_uint_of_uint64 (n + 1)) = Inr y" "limbs_ok y" "val y = val x div (unat n + 1)"
    using div_val [OF x(2), of "base_uint_of_uint64 (n + 1)"] n' by auto
  with x show ?thesis by auto
qed

lemma mul_exp_round:
  assumes a: "limbs_ok a" and r: "limbs_ok r" and q: "q \<noteq> 0" and n: "unat n + 1 < 2 ^ 64"
  shows "if val a = 0 then mul_exp_loop p q neg a r n = Some (Inr r)
    else \<exists>a' r'. mul_exp_loop p q neg a r n = mul_exp_loop p q neg a' r' (n + 1) \<and> limbs_ok a' \<and> limbs_ok r' \<and>
      val a' \<le> val a * 2 ^ 32 div unat (n + 1) \<and> unat (n + 1) = unat n + 1"
proof (cases "val a = 0")
  case True
  then have "\<not> CompareTo a (base_uint_of_uint64 0) > 0" using a by (simp add: CompareTo_0)
  then show ?thesis using True by (subst mul_exp_loop.simps) simp
next
  case False
  then have c: "CompareTo a (base_uint_of_uint64 0) > 0" using a by (simp add: CompareTo_0)
  obtain a' where a': "bind_res (base_uint_div (base_uint_mul32 a (ucast p)) (base_uint_of_uint64 q))
      (\<lambda>x. base_uint_div x (base_uint_of_uint64 (n + 1))) = Inr a'" "limbs_ok a'"
      "val a' = val a * unat (ucast p :: uint32) mod 2 ^ 256 div unat q div (unat n + 1)"
    using mul_exp_term [OF a q n] by blast
  have n': "unat (n + 1) = unat n + 1" using n by (simp add: unat_word_ariths)
  have "val a * unat (ucast p :: uint32) mod 2 ^ 256 div unat q \<le> val a * unat (ucast p :: uint32)"
    using div_le_dividend mod_less_eq_dividend le_trans by blast
  also have "\<dots> \<le> val a * 2 ^ 32" using uint32_less [of "ucast p"] by (intro mult_le_mono2) simp
  finally have le: "val a' \<le> val a * 2 ^ 32 div unat (n + 1)" unfolding a'(3) n' by (rule div_le_mono)
  define r' where "r' = (if neg \<and> (n + 1) mod 2 = 1 then base_uint_sub r a' else base_uint_add r a')"
  have "limbs_ok r'" using sub_val [OF r a'(2)] add_val [OF r a'(2)] by (simp add: r'_def)
  moreover have "mul_exp_loop p q neg a r n = mul_exp_loop p q neg a' r' (n + 1)"
    by (subst mul_exp_loop.simps) (simp only: c if_True a'(1) sum.case r'_def)
  ultimately show ?thesis using False a'(2) le n' by auto
qed

text \<open>Once the counter is past \<open>2 ^ 33\<close> every round halves the term.\<close>

lemma mul_exp_loop_small:
  assumes q: "q \<noteq> 0"
  shows "limbs_ok a \<Longrightarrow> limbs_ok r \<Longrightarrow> val a < 2 ^ k \<Longrightarrow> 2 ^ 33 \<le> unat n + 1 \<Longrightarrow> unat n + k < 2 ^ 64 - 1 \<Longrightarrow>
    \<exists>r'. mul_exp_loop p q neg a r n = Some (Inr r') \<and> limbs_ok r'"
proof (induction k arbitrary: a r n)
  case 0
  then show ?case using mul_exp_round [OF 0(1,2) q, of n p neg] by auto
next
  case (Suc k)
  have n: "unat n + 1 < 2 ^ 64" using Suc.prems(5) by linarith
  show ?case
  proof (cases "val a = 0")
    case True
    then show ?thesis using mul_exp_round [OF Suc.prems(1,2) q n, of p neg] Suc.prems(2) by simp
  next
    case False
    then obtain a' r' where s: "mul_exp_loop p q neg a r n = mul_exp_loop p q neg a' r' (n + 1)" "limbs_ok a'" "limbs_ok r'"
        "val a' \<le> val a * 2 ^ 32 div unat (n + 1)" "unat (n + 1) = unat n + 1"
      using mul_exp_round [OF Suc.prems(1,2) q n, of p neg] by auto
    note s(4)
    also have "val a * 2 ^ 32 div unat (n + 1) \<le> val a * 2 ^ 32 div 2 ^ 33"
      using Suc.prems(4) s(5) by (intro div_le_mono2) simp_all
    also have "\<dots> < 2 ^ k" using Suc.prems(3) by (simp add: less_mult_imp_div_less)
    finally have "val a' < 2 ^ k" .
    then show ?thesis unfolding s(1) by (intro Suc.IH) (use s Suc.prems in simp_all)
  qed
qed

lemma mul_exp_loop_returns:
  assumes q: "q \<noteq> 0"
  shows "limbs_ok a \<Longrightarrow> limbs_ok r \<Longrightarrow> unat n + k = 2 ^ 33 \<Longrightarrow>
    \<exists>r'. mul_exp_loop p q neg a r n = Some (Inr r') \<and> limbs_ok r'"
proof (induction k arbitrary: a r n)
  case 0
  then show ?case using limbs_ok_val_less [of a] by (intro mul_exp_loop_small [OF q, of _ _ 256]) simp_all
next
  case (Suc k)
  have n: "unat n + 1 < 2 ^ 64" using Suc.prems(3) by simp
  show ?case
  proof (cases "val a = 0")
    case True
    then show ?thesis using mul_exp_round [OF Suc.prems(1,2) q n, of p neg] Suc.prems(2) by simp
  next
    case False
    then obtain a' r' where s: "mul_exp_loop p q neg a r n = mul_exp_loop p q neg a' r' (n + 1)" "limbs_ok a'" "limbs_ok r'"
        "unat (n + 1) = unat n + 1"
      using mul_exp_round [OF Suc.prems(1,2) q n, of p neg] by auto
    then show ?thesis unfolding s(1) by (intro Suc.IH) (use s Suc.prems in simp_all)
  qed
qed

lemma mul_exp_ok:
  assumes "limbs_ok a" "0 < q" "q < 2 ^ 64"
  shows "\<exists>r. mul_exp a p q = returns r \<and> limbs_ok r"
proof -
  have "(of_int q :: uint64) \<noteq> 0"
  proof
    assume "(of_int q :: uint64) = 0"
    then have "uint (of_int q :: uint64) = 0" by simp
    moreover have "uint (of_int q :: uint64) = q" using assms by (simp add: uint_word_of_int)
    ultimately show False using assms by simp
  qed
  then show ?thesis unfolding mul_exp_def returns_def
    using assms(1) by (intro mul_exp_loop_returns [where k = "2 ^ 33"]) simp_all
qed

section \<open>The walks return\<close>

lemma pprev_measure:
  assumes "tree_ok s A" "a \<in> A" "bi_pprev (s a) = Some p"
  shows "p \<in> A" "bi_nHeight (s p) < bi_nHeight (s a)"
  using assms by (auto simp: tree_ok_def)

lemma GetLastBlockIndex_returns:
  assumes ok: "tree_ok s A"
  shows "a \<in> A \<Longrightarrow> \<exists>b. GetLastBlockIndex s f (Some a) = Some (Some b) \<and> b \<in> A \<and> bi_nHeight (s b) \<le> bi_nHeight (s a)"
proof (induction "bi_nHeight (s a)" arbitrary: a rule: less_induct)
  case less
  show ?case
  proof (cases "bi_pprev (s a) \<noteq> None \<and> Index_IsProofOfStake (s a) \<noteq> f")
    case True
    then obtain p where p: "bi_pprev (s a) = Some p" by auto
    note m = pprev_measure [OF ok less.prems p]
    from less.hyps [OF m(2,1)] m(2) show ?thesis using True p
      by (subst GetLastBlockIndex.simps) fastforce
  next
    case False
    with less.prems show ?thesis by (subst GetLastBlockIndex.simps) auto
  qed
qed

lemma stake_times_returns:
  assumes ok: "tree_ok s A"
  shows "a \<in> A \<Longrightarrow> \<exists>r. stake_times s prev (Some a) k t = Some r"
proof (induction "bi_nHeight (s a)" arbitrary: a prev k t rule: less_induct)
  case less
  have "\<exists>r. stake_times s prev' (bi_pprev (s a)) k' t' = Some r" for prev' k' t'
  proof (cases "bi_pprev (s a)")
    case None
    then show ?thesis by (subst stake_times.simps) simp
  next
    case (Some p)
    with less.hyps pprev_measure [OF ok less.prems Some] show ?thesis by simp
  qed
  then show ?case by (subst stake_times.simps) (auto split: option.split)
qed

lemma CheckQIP9BlockTimeDiff_returns:
  "tree_ok s A \<Longrightarrow> a \<in> A \<Longrightarrow> \<exists>b. CheckQIP9BlockTimeDiff params s (Some a) = Some b"
  using stake_times_returns [of s A a None 0 0] by (auto simp: CheckQIP9BlockTimeDiff_def)

section \<open>Targets stay in range\<close>

text \<open>What retargeting relies on; the parameters of both networks satisfy it.\<close>

definition pow_params_ok :: "Consensus_Params \<Rightarrow> bool" where
  "pow_params_ok p \<longleftrightarrow>
     posLimit p \<noteq> 0 \<and> powLimit p \<noteq> 0 \<and>
     int (unat (nStakeTimestampMask p)) + 1 \<le> nPowTargetSpacing p \<and> nPowTargetSpacing p < 2 ^ 32 \<and>
     int (unat (nRBTStakeTimestampMask p)) + 1 \<le> nRBTPowTargetSpacing p \<and> nRBTPowTargetSpacing p < 2 ^ 32 \<and>
     (\<forall>t \<in> {nPowTargetTimespan p, nPowTargetTimespanV2 p, nRBTPowTargetTimespan p, nRBTPowTargetTimespanV2 p}.
        0 \<le> t \<and> t < 2 ^ 62)"

lemma main_params_pow_ok: "pow_params_ok main_params"
  by (simp add: pow_params_ok_def main_params_def)

lemma test_params_pow_ok: "pow_params_ok test_params"
  by (simp add: pow_params_ok_def test_params_def main_params_def)

lemma interval_bounds:
  fixes h :: int and ignore :: bool
  assumes ok: "pow_params_ok p"
  defines "T \<equiv> TargetSpacing p h" and "m \<equiv> int (unat (StakeTimestampMask p h + 1))"
    and "I \<equiv> DifficultyAdjustmentInterval p h ignore"
  shows "0 < T" and "0 < m" and "m \<le> T" and "0 < (I + 1) * T" and "(I + 1) * T < 2 ^ 64"
    and "0 < c_div ((I + 1) * T) m" and "c_div ((I + 1) * T) m < 2 ^ 64"
proof -
  let ?M = "StakeTimestampMask p h"
  have M: "int (unat ?M) + 1 \<le> T" "T < 2 ^ 32"
    using ok by (auto simp: pow_params_ok_def T_def TargetSpacing_def StakeTimestampMask_def)
  then have "int (unat ?M + 1) < int (2 ^ 32)" by simp
  then have "unat ?M + 1 < 2 ^ 32" by (simp only: of_nat_less_iff)
  then have "unat (?M + 1) = unat ?M + 1" by (simp add: unat_word_ariths)
  then have m: "m = int (unat ?M) + 1" by (simp add: m_def)
  show T: "0 < T" and mp: "0 < m" and mT: "m \<le> T" using M(1) m by linarith+
  have ts: "0 \<le> TargetTimespan p h ignore" "TargetTimespan p h ignore < 2 ^ 62"
    using ok by (auto simp: pow_params_ok_def TargetTimespan_def)
  have I: "0 \<le> I" using ts T by (simp add: I_def DifficultyAdjustmentInterval_def T_def pos_imp_zdiv_nonneg_iff)
  have "I * T = TargetTimespan p h ignore - TargetTimespan p h ignore mod T"
    by (simp add: I_def DifficultyAdjustmentInterval_def T_def minus_mod_eq_div_mult)
  moreover have "0 \<le> TargetTimespan p h ignore mod T" using T by simp
  ultimately have "I * T \<le> TargetTimespan p h ignore" by linarith
  then have IT: "(I + 1) * T < 2 ^ 64" using ts(2) M(2) by (simp add: algebra_simps)
  then show "(I + 1) * T < 2 ^ 64" .
  have le: "T \<le> (I + 1) * T" using I T by (simp add: algebra_simps)
  then show pos: "0 < (I + 1) * T" using T by linarith
  have c: "c_div ((I + 1) * T) m = (I + 1) * T div m" using pos mp by (simp add: c_div_def)
  have "m \<le> (I + 1) * T" using le mT by (rule order_trans [rotated])
  then show "0 < c_div ((I + 1) * T) m" unfolding c using mp by (simp only: pos_imp_zdiv_pos_iff)
  have "(I + 1) * T div m \<le> (I + 1) * T div 1" by (rule zdiv_mono2) (use pos mp in simp_all)
  then show "c_div ((I + 1) * T) m < 2 ^ 64" unfolding c using IT by simp
qed

lemma of_int_uint64_pos: "0 < d \<Longrightarrow> d < 2 ^ 64 \<Longrightarrow> unat (of_int d :: uint64) \<noteq> 0"
proof -
  assume d: "0 < d" "d < 2 ^ 64"
  then have "uint (of_int d :: uint64) = d" by (simp add: uint_word_of_int)
  with d show ?thesis by (auto simp: unsigned_eq_0_iff)
qed

lemma retarget_ok:
  assumes ok: "pow_params_ok p" and b: "limbs_ok b"
  shows "\<exists>r. retarget p h ignore b sp = returns r \<and> limbs_ok r"
proof (cases "h < QIP9Height p \<or> ignore")
  case True
  let ?d = "(DifficultyAdjustmentInterval p h ignore + 1) * TargetSpacing p h"
  have "unat (of_int ?d :: uint64) \<noteq> 0" by (rule of_int_uint64_pos) (rule interval_bounds [OF ok])+
  then have "\<exists>r. base_uint_div (base_uint_mul32 b w) (base_uint_of_uint64 (of_int ?d)) = Inr r \<and> limbs_ok r" for w
    using div_val [of "base_uint_mul32 b w" "base_uint_of_uint64 (of_int ?d)"] mul32_val [OF b, of w] by auto
  then show ?thesis unfolding retarget_def Let_def if_P [OF True]
    by (metis lift_uint_def returns_def sum.case(2))
next
  case False
  then show ?thesis unfolding retarget_def Let_def if_not_P [OF False]
    using mul_exp_ok [OF b interval_bounds(6,7) [OF ok]] by blast
qed

definition valid_target :: "uint32 \<Rightarrow> nat \<Rightarrow> bool" where
  "valid_target c limit \<longleftrightarrow>
     (let (t, fNegative, fOverflow) = SetCompact c in \<not> fNegative \<and> \<not> fOverflow \<and> 0 < val t \<and> val t \<le> limit)"

lemma compact_ok:
  assumes "limbs_ok a"
  shows "\<exists>c t. compact a = returns c \<and> SetCompact c = (t, False, False) \<and> val t \<le> val a \<and> (0 < val a \<longrightarrow> 0 < val t)"
proof -
  let ?n = "(base_uint_bits a + 7) div 8"
  obtain c where c: "GetCompact a False = Some c" "unat c = compact_of (val a) ?n" "c AND 0x00800000 = 0"
    using GetCompact_val [OF assms] by auto
  obtain t neg ov where s: "SetCompact c = (t, neg, ov)" by (metis prod_cases3)
  note f = compact_floor [OF base_uint_bytes(1) [OF assms] refl, folded c(2)]
  have "of_compact (unat c) < 2 ^ 256" using f(1) limbs_ok_val_less [OF assms] by linarith
  then have "\<not> ov" "\<not> neg" "val t = of_compact (unat c)" using SetCompact_val [OF s] c(3) by auto
  moreover have "0 < of_compact (unat c)" if "0 < val a" using f(4) that by (cases "of_compact (unat c)") simp_all
  ultimately show ?thesis using c(1) s f(1) by (auto simp: compact_def returns_def)
qed

lemma GetLimit_ok:
  assumes "pow_params_ok p"
  shows "limbs_ok (GetLimit h p f)" "val (GetLimit h p f) = unat (if f then posLimit p else powLimit p)"
    "0 < val (GetLimit h p f)"
  using assms by (auto simp: GetLimit_def UintToArith256_val pow_params_ok_def unat_gt_0)

lemma CalculateNextWorkRequired_ok:
  assumes tree: "tree_ok s A" "a \<in> A" and ok: "pow_params_ok p"
    and re: "\<not> (if f then fPoSNoRetargeting p else fPowNoRetargeting p)"
  shows "\<exists>c. CalculateNextWorkRequired p s a t0 f = returns c \<and> valid_target c (unat (if f then posLimit p else powLimit p))"
proof -
  let ?h = "int (bi_nHeight (s a)) + 1" let ?L = "GetLimit ?h p f"
  obtain ignore where i: "CheckQIP9BlockTimeDiff p s (Some a) = Some ignore"
    using CheckQIP9BlockTimeDiff_returns [OF tree] by auto
  have "limbs_ok (fst (SetCompact (bi_nBits (s a))))" using SetCompact_val(1) by (metis prod.collapse)
  from retarget_ok [OF ok this] obtain r where
    r: "retarget p ?h ignore (fst (SetCompact (bi_nBits (s a)))) (GetBlockTime (s a) - t0) = returns r" "limbs_ok r"
    by blast
  define b where "b = (if CompareTo r (base_uint_of_uint64 0) \<le> 0 \<or> CompareTo r ?L > 0 then ?L else r)"
  note L = GetLimit_ok [OF ok, of ?h f]
  have b: "limbs_ok b" "0 < val b" "val b \<le> val ?L"
    using L r(2) by (auto simp: b_def CompareTo_order)
  obtain c t where c: "compact b = returns c" "SetCompact c = (t, False, False)" "val t \<le> val b" "0 < val t"
    using compact_ok [OF b(1)] b(2) by auto
  have "CalculateNextWorkRequired p s a t0 f = returns c"
    using re i r(1) c(1) by (auto simp: CalculateNextWorkRequired_def Let_def returns_def b_def [symmetric])
  moreover have "valid_target c (unat (if f then posLimit p else powLimit p))"
    using c b L(2) by (simp add: valid_target_def)
  ultimately show ?thesis by blast
qed

lemma last_non_special_returns:
  assumes ok: "tree_ok s A"
  shows "a \<in> A \<Longrightarrow> \<exists>b. last_non_special p s i l a = Some b \<and> b \<in> A"
proof (induction "bi_nHeight (s a)" arbitrary: a rule: less_induct)
  case less
  show ?case
  proof (cases "bi_pprev (s a)")
    case None
    with less.prems show ?thesis by (subst last_non_special.simps) auto
  next
    case (Some q)
    then have "\<exists>b. last_non_special p s i l q = Some b \<and> b \<in> A"
      using less.hyps pprev_measure [OF ok less.prems Some] by blast
    with Some less.prems show ?thesis by (subst last_non_special.simps) auto
  qed
qed

text \<open>
  C15. On a tree of block index entries, and for parameters such as those of the networks,
  computing the difficulty of the next block (\<^verbatim>\<open>GetNextWorkRequired\<close> of \<^verbatim>\<open>pow.cpp\<close>) always
  returns: no walk along the predecessors goes on for ever or dereferences a null pointer, no
  division is by zero, the series of \<^verbatim>\<open>mul_exp\<close> becomes zero, and no assertion of the compact
  format fails. The result is the difficulty bits of an earlier entry (the rules for networks
  without retargeting or with minimum difficulty), or bits that decode without the negative or the
  overflow flag to a positive target at most the limit of the kind of block.
\<close>

theorem GetNextWorkRequired_returns:
  assumes tree: "tree_ok s A" "a \<in> A" and ok: "pow_params_ok params"
  shows "\<exists>c. GetNextWorkRequired params s (Some a) blk f = returns c \<and>
    (valid_target c (unat (if f then posLimit params else powLimit params)) \<or>
     (fPowAllowMinDifficultyBlocks params \<or> (if f then fPoSNoRetargeting params else fPowNoRetargeting params)) \<and>
       (\<exists>b \<in> A. c = bi_nBits (s b)))"
proof -
  let ?L = "unat (if f then posLimit params else powLimit params)"
  let ?G = "GetLimit (int (bi_nHeight (s a)) + 1) params f"
  note G = GetLimit_ok [OF ok, of "int (bi_nHeight (s a)) + 1" f]
  obtain nl where nl: "compact ?G = returns nl" "valid_target nl ?L"
    using compact_ok [OF G(1)] G(2,3) by (auto simp: valid_target_def)
  obtain p1 where p1: "GetLastBlockIndex s f (Some a) = Some (Some p1)" "p1 \<in> A"
    using GetLastBlockIndex_returns [OF tree] by blast
  show ?thesis
  proof (cases "bi_pprev (s p1)")
    case None
    then show ?thesis using nl p1 by (auto simp: GetNextWorkRequired_def returns_def deref_def)
  next
    case (Some q)
    then have "q \<in> A" using pprev_measure [OF tree(1) p1(2)] by blast
    then obtain p2 where p2: "GetLastBlockIndex s f (Some q) = Some (Some p2)" "p2 \<in> A"
      using GetLastBlockIndex_returns [OF tree(1)] by blast
    have e: "GetNextWorkRequired params s (Some a) blk f =
        (if bi_pprev (s p2) = None then returns nl
         else if fPowAllowMinDifficultyBlocks params then
           (if int (unat (hdr_nTime blk)) > GetBlockTime (s a) + TargetSpacing params (int (bi_nHeight (s a)) + 1) * 2
            then returns nl
            else (case CheckQIP9BlockTimeDiff params s (Some a) of
                    None \<Rightarrow> None
                  | Some ignore \<Rightarrow> map_option (\<lambda>a. Inr (bi_nBits (s a))) (last_non_special params s ignore nl a)))
         else CalculateNextWorkRequired params s p1 (GetBlockTime (s p2)) f)"
      using nl(1) p1(1) p2(1) Some by (simp add: GetNextWorkRequired_def returns_def deref_def)
    obtain ignore where i: "CheckQIP9BlockTimeDiff params s (Some a) = Some ignore"
      using CheckQIP9BlockTimeDiff_returns [OF tree] by auto
    obtain b where b: "last_non_special params s ignore nl a = Some b" "b \<in> A"
      using last_non_special_returns [OF tree] by blast
    show ?thesis
    proof (cases "if f then fPoSNoRetargeting params else fPowNoRetargeting params")
      case True
      then have "CalculateNextWorkRequired params s p1 (GetBlockTime (s p2)) f = returns (bi_nBits (s p1))"
        by (simp add: CalculateNextWorkRequired_def)
      with True nl(2) i b p1(2) show ?thesis unfolding e by (auto simp: returns_def)
    next
      case False
      from CalculateNextWorkRequired_ok [OF tree(1) p1(2) ok False, of "GetBlockTime (s p2)"] nl(2) i b show ?thesis
        unfolding e by (auto simp: returns_def)
    qed
  qed
qed

theorem GetNextWorkRequired_returns_witness:
  "\<exists>c. GetNextWorkRequired main_params (line_store 10) (Some 9)
      \<lparr>hdr_nVersion = 1, hdr_hashPrevBlock = 0, hdr_hashMerkleRoot = 0, hdr_nTime = 10, hdr_nBits = 0, hdr_nNonce = 0,
        hdr_hashStateRoot = 0, hdr_hashUTXORoot = 0, hdr_prevoutStake = COutPoint_null, hdr_vchBlockSigDlgt = []\<rparr> True
    = returns c \<and> valid_target c (unat (posLimit main_params))"
  using GetNextWorkRequired_returns [OF line_store_ok, of 9 10 main_params 10
      "\<lparr>hdr_nVersion = 1, hdr_hashPrevBlock = 0, hdr_hashMerkleRoot = 0, hdr_nTime = 10, hdr_nBits = 0, hdr_nNonce = 0,
        hdr_hashStateRoot = 0, hdr_hashUTXORoot = 0, hdr_prevoutStake = COutPoint_null, hdr_vchBlockSigDlgt = []\<rparr>" True]
    main_params_pow_ok by (auto simp: main_params_def)

section \<open>Proof of work and the work of a block\<close>

text \<open>The target that the bits of a block stand for, if they are in range.\<close>

definition target_of :: "uint32 \<Rightarrow> nat option" where
  "target_of nBits =
     (let (t, fNegative, fOverflow) = SetCompact nBits in if fNegative \<or> fOverflow \<or> val t = 0 then None else Some (val t))"

lemma of_compact_not_max:
  assumes "of_compact c < 2 ^ 256" shows "of_compact c + 1 < 2 ^ 256"
proof (cases "c div 2 ^ 24 \<le> 3")
  case True
  have "c mod 2 ^ 23 div 256 ^ (3 - c div 2 ^ 24) \<le> c mod 2 ^ 23" by simp
  also have "\<dots> < 2 ^ 23" by simp
  finally have "of_compact c < 2 ^ 23" using True by (simp only: of_compact_def Let_def if_True)
  then show ?thesis by simp
next
  case False
  then have "of_compact c = c mod 2 ^ 23 * 256 ^ (c div 2 ^ 24 - 3)" by (simp only: of_compact_def Let_def if_False)
  moreover have "even ((256 :: nat) ^ (c div 2 ^ 24 - 3))" using False by simp
  ultimately have "even (of_compact c)" by simp
  moreover have "odd ((2 :: nat) ^ 256 - 1)" by simp
  ultimately have "of_compact c \<noteq> 2 ^ 256 - 1" by metis
  with assms show ?thesis by linarith
qed

lemma target_of_facts:
  assumes "SetCompact nBits = (t, neg, ov)"
  shows "limbs_ok t" and "target_of nBits = (if neg \<or> ov \<or> val t = 0 then None else Some (val t))"
    and "\<not> ov \<Longrightarrow> val t + 1 < 2 ^ 256" and "EqualTo t 0 \<longleftrightarrow> val t = 0"
proof -
  note c = SetCompact_val [OF assms]
  show "limbs_ok t" by (rule c(1))
  show "target_of nBits = (if neg \<or> ov \<or> val t = 0 then None else Some (val t))" using assms by (simp add: target_of_def)
  show "\<not> ov \<Longrightarrow> val t + 1 < 2 ^ 256" using c of_compact_not_max [of "unat nBits"] by (simp add: not_le)
  show "EqualTo t 0 \<longleftrightarrow> val t = 0" using EqualTo_val [OF c(1), of 0] by simp
qed

lemma GetBlockProof_val:
  "\<exists>w. GetBlockProof block = Inr w \<and> limbs_ok w \<and>
     val w = (case target_of (bi_nBits block) of None \<Rightarrow> 0 | Some t \<Rightarrow> 2 ^ 256 div (t + 1))"
proof -
  obtain t neg ov where s: "SetCompact (bi_nBits block) = (t, neg, ov)" by (metis prod_cases3)
  note c = target_of_facts [OF s]
  show ?thesis
  proof (cases "neg \<or> ov \<or> val t = 0")
    case True
    then show ?thesis using c(2,4) by (auto simp: GetBlockProof_def s)
  next
    case False
    then have lt: "val t + 1 < 2 ^ 256" using c(3) by simp
    have n: "limbs_ok (base_uint_compl t)" "val (base_uint_compl t) = 2 ^ 256 - 1 - val t"
      using compl_val [OF c(1)] by simp_all
    have d: "limbs_ok (base_uint_add t (base_uint_of_uint64 1))" "val (base_uint_add t (base_uint_of_uint64 1)) = val t + 1"
      using add_val [OF c(1), of "base_uint_of_uint64 1"] lt by simp_all
    obtain q where q: "base_uint_div (base_uint_compl t) (base_uint_add t (base_uint_of_uint64 1)) = Inr q" "limbs_ok q"
        "val q = (2 ^ 256 - 1 - val t) div (val t + 1)"
      using div_val [OF n(1) d(1)] n(2) d(2) by auto
    have "2 ^ 256 = (2 ^ 256 - 1 - val t) + (val t + 1)" using lt by simp
    then have e: "2 ^ 256 div (val t + 1) = val q + 1" unfolding q(3) by (metis add_gr_0 div_add_self2 less_one nat_less_le)
    have "2 ^ 256 div (val t + 1) \<le> 2 ^ 256 div 2" using False by (intro div_le_mono2) simp_all
    then have "val q + 1 < 2 ^ 256" unfolding e by simp
    then have "limbs_ok (base_uint_add q (base_uint_of_uint64 1))" "val (base_uint_add q (base_uint_of_uint64 1)) = val q + 1"
      using add_val [OF q(2), of "base_uint_of_uint64 1"] by simp_all
    then show ?thesis using False c(2,4) q(1) e by (auto simp: GetBlockProof_def s)
  qed
qed

text \<open>
  C16. Proof of work (\<^verbatim>\<open>CheckProofOfWork\<close> of \<^verbatim>\<open>pow.cpp\<close>): the check succeeds exactly when the bits
  stand for a positive target at most the limit and the hash, read as a number, is at most the
  target. The work of a block (\<^verbatim>\<open>GetBlockProof\<close> of \<^verbatim>\<open>chain.cpp\<close>) never raises and is zero for bits
  out of range and the exact quotient of \<open>2 ^ 256\<close> by the target plus one otherwise, although
  \<open>2 ^ 256\<close> is not representable.
\<close>

theorem proof_of_work_iff:
  "(CheckProofOfWork hash nBits params f \<longleftrightarrow>
     (\<exists>t. target_of nBits = Some t \<and> t \<le> unat (powLimit params) \<and> unat hash \<le> t)) \<and>
   (\<exists>w. GetBlockProof block = Inr w \<and> limbs_ok w \<and>
     val w = (case target_of (bi_nBits block) of None \<Rightarrow> 0 | Some t \<Rightarrow> 2 ^ 256 div (t + 1)))"
proof (intro conjI GetBlockProof_val)
  obtain t neg ov where s: "SetCompact nBits = (t, neg, ov)" by (metis prod_cases3)
  note c = target_of_facts [OF s]
  show "CheckProofOfWork hash nBits params f \<longleftrightarrow>
     (\<exists>t. target_of nBits = Some t \<and> t \<le> unat (powLimit params) \<and> unat hash \<le> t)"
    using c(1,2,4) by (auto simp: CheckProofOfWork_def s CompareTo_order UintToArith256_val)
qed

end
