(* ===== verification/Merkle.thy ===== *)
theory Merkle
  imports Transaction Params
begin

text \<open>
  Merkle roots (\<^verbatim>\<open>src/consensus/merkle.cpp\<close>) and partial Merkle trees
  (\<^verbatim>\<open>src/merkleblock.cpp\<close>, \<^verbatim>\<open>src/merkleblock.h\<close>). The double hash of bytes is the argument \<open>H\<close>.
  Positions and widths are natural numbers: the number of transactions is limited by
  \<^verbatim>\<open>ExtractMatches\<close> to a 30th of the block size in bytes, so that no 32-bit sum wraps.
\<close>

section \<open>Merkle roots\<close>

definition hash2 :: "(bytes \<Rightarrow> uint256) \<Rightarrow> uint256 \<Rightarrow> uint256 \<Rightarrow> uint256" where
  "hash2 H left right = H (ser_uint256 left @ ser_uint256 right)"

text \<open>The loop that looks for equal neighbours, and \<^verbatim>\<open>SHA256D64\<close> on a level of the tree.\<close>

fun equal_pairs :: "uint256 list \<Rightarrow> bool" where
  "equal_pairs (x # y # hashes) \<longleftrightarrow> x = y \<or> equal_pairs hashes"
| "equal_pairs _ \<longleftrightarrow> False"

fun SHA256D64 :: "(bytes \<Rightarrow> uint256) \<Rightarrow> uint256 list \<Rightarrow> uint256 list" where
  "SHA256D64 H (x # y # hashes) = hash2 H x y # SHA256D64 H hashes"
| "SHA256D64 H _ = []"

definition pad :: "uint256 list \<Rightarrow> uint256 list" where
  "pad hashes = (if odd (length hashes) then hashes @ [last hashes] else hashes)"

lemma length_SHA256D64 [simp]: "length (SHA256D64 H hashes) = length hashes div 2"
  by (induction H hashes rule: SHA256D64.induct) auto

lemma length_pad: "length (pad hashes) = 2 * ((length hashes + 1) div 2)"
  by (auto simp: pad_def)

function merkle_loop :: "(bytes \<Rightarrow> uint256) \<Rightarrow> uint256 list \<Rightarrow> bool \<Rightarrow> uint256 list \<times> bool" where
  "merkle_loop H hashes mutation =
     (if length hashes > 1
      then merkle_loop H (SHA256D64 H (pad hashes)) (mutation \<or> equal_pairs hashes)
      else (hashes, mutation))"
  by pat_completeness auto
termination
  by (relation "measure (\<lambda>(_, hashes, _). length hashes)") (auto simp: length_pad)

declare merkle_loop.simps [simp del]

text \<open>The root, and the value of \<^verbatim>\<open>*mutated\<close> for callers that ask for it.\<close>

definition ComputeMerkleRoot :: "(bytes \<Rightarrow> uint256) \<Rightarrow> uint256 list \<Rightarrow> uint256 \<times> bool" where
  "ComputeMerkleRoot H hashes =
     (case merkle_loop H hashes False of
        (hs, mutation) \<Rightarrow> (if hs = [] then 0 else hd hs, mutation))"

definition BlockMerkleRoot :: "(bytes \<Rightarrow> uint256) \<Rightarrow> CBlock \<Rightarrow> uint256 \<times> bool" where
  "BlockMerkleRoot H block = ComputeMerkleRoot H (map (ComputeHash H) (blk_vtx block))"

text \<open>\<open>None\<close> is an index out of range: the block has no coinbase or no coinstake.\<close>

definition BlockWitnessMerkleRoot ::
  "(bytes \<Rightarrow> uint256) \<Rightarrow> CBlock \<Rightarrow> bool option \<Rightarrow> (uint256 \<times> bool) option" where
  "BlockWitnessMerkleRoot H block pfProofOfStake =
     (let fProofOfStake = (case pfProofOfStake of Some b \<Rightarrow> b | None \<Rightarrow> IsProofOfStake (blk_header block));
          k = 1 + (if fProofOfStake then 1 else 0)
      in if length (blk_vtx block) < k then None
         else Some (ComputeMerkleRoot H (replicate k 0 @ map (ComputeWitnessHash H) (drop k (blk_vtx block)))))"

section \<open>Partial trees\<close>

record CPartialMerkleTree =
  pmt_nTransactions :: nat
  pmt_vBits :: "bool list"
  pmt_vHash :: "uint256 list"
  pmt_fBad :: bool

definition CalcTreeWidth :: "nat \<Rightarrow> nat \<Rightarrow> nat" where
  "CalcTreeWidth nTransactions height = (nTransactions + 2 ^ height - 1) div 2 ^ height"

text \<open>The loop that finds the height of the tree.\<close>

lemma CalcTreeWidth_height: "Suc 0 < CalcTreeWidth n h \<Longrightarrow> h < n"
proof -
  assume "Suc 0 < CalcTreeWidth n h"
  then have "2 * 2 ^ h \<le> n + 2 ^ h - 1"
    unfolding CalcTreeWidth_def by (simp add: less_eq_div_iff_mult_less_eq Suc_le_eq [symmetric])
  moreover have "(0 :: nat) < 2 ^ h" by simp
  ultimately have "2 ^ h < n" by linarith
  then show "h < n" using less_exp [of h] by linarith
qed

function tree_height :: "nat \<Rightarrow> nat \<Rightarrow> nat" where
  "tree_height nTransactions nHeight =
     (if CalcTreeWidth nTransactions nHeight > 1 then tree_height nTransactions (nHeight + 1) else nHeight)"
  by pat_completeness auto
termination
  by (relation "measure (\<lambda>(n, h). n - h)") (auto dest!: CalcTreeWidth_height)

declare tree_height.simps [simp del]

fun CalcHash :: "(bytes \<Rightarrow> uint256) \<Rightarrow> nat \<Rightarrow> uint256 list \<Rightarrow> nat \<Rightarrow> nat \<Rightarrow> uint256" where
  "CalcHash H n vTxid 0 pos = vTxid ! pos"
| "CalcHash H n vTxid (Suc height) pos =
     (let left = CalcHash H n vTxid height (pos * 2);
          right = (if pos * 2 + 1 < CalcTreeWidth n height then CalcHash H n vTxid height (pos * 2 + 1) else left)
      in hash2 H left right)"

definition parent_of_match :: "nat \<Rightarrow> bool list \<Rightarrow> nat \<Rightarrow> nat \<Rightarrow> bool" where
  "parent_of_match n vMatch height pos =
     list_ex (\<lambda>p. vMatch ! p) [pos * 2 ^ height ..< min ((pos + 1) * 2 ^ height) n]"

text \<open>What the traversal appends to \<^verbatim>\<open>vBits\<close> and \<^verbatim>\<open>vHash\<close>.\<close>

fun TraverseAndBuild ::
  "(bytes \<Rightarrow> uint256) \<Rightarrow> nat \<Rightarrow> uint256 list \<Rightarrow> bool list \<Rightarrow> nat \<Rightarrow> nat \<Rightarrow> bool list \<times> uint256 list \<Rightarrow>
   bool list \<times> uint256 list" where
  "TraverseAndBuild H n vTxid vMatch 0 pos (vBits, vHash) =
     (vBits @ [parent_of_match n vMatch 0 pos], vHash @ [CalcHash H n vTxid 0 pos])"
| "TraverseAndBuild H n vTxid vMatch (Suc height) pos (vBits, vHash) =
     (let fParentOfMatch = parent_of_match n vMatch (Suc height) pos;
          vBits = vBits @ [fParentOfMatch]
      in if \<not> fParentOfMatch then (vBits, vHash @ [CalcHash H n vTxid (Suc height) pos])
         else
           let st = TraverseAndBuild H n vTxid vMatch height (pos * 2) (vBits, vHash)
           in if pos * 2 + 1 < CalcTreeWidth n height
              then TraverseAndBuild H n vTxid vMatch height (pos * 2 + 1) st else st)"

text \<open>The constructor; \<open>None\<close> is the failed assertion of \<^verbatim>\<open>CalcHash\<close>.\<close>

definition make_CPartialMerkleTree ::
  "(bytes \<Rightarrow> uint256) \<Rightarrow> uint256 list \<Rightarrow> bool list \<Rightarrow> CPartialMerkleTree option" where
  "make_CPartialMerkleTree H vTxid vMatch =
     (if vTxid = [] then None
      else
        let n = length vTxid;
            (vBits, vHash) = TraverseAndBuild H n vTxid vMatch (tree_height n 0) 0 ([], [])
        in Some \<lparr>pmt_nTransactions = n, pmt_vBits = vBits, pmt_vHash = vHash, pmt_fBad = False\<rparr>)"

record extract_state =
  ex_fBad :: bool
  ex_nBitsUsed :: nat
  ex_nHashUsed :: nat
  ex_vMatch :: "uint256 list"
  ex_vnIndex :: "nat list"

fun TraverseAndExtract ::
  "(bytes \<Rightarrow> uint256) \<Rightarrow> CPartialMerkleTree \<Rightarrow> nat \<Rightarrow> nat \<Rightarrow> extract_state \<Rightarrow> uint256 \<times> extract_state" where
  "TraverseAndExtract H t height pos st =
     (if ex_nBitsUsed st \<ge> length (pmt_vBits t) then (0, st\<lparr>ex_fBad := True\<rparr>)
      else
        let fParentOfMatch = pmt_vBits t ! ex_nBitsUsed st;
            st = st\<lparr>ex_nBitsUsed := ex_nBitsUsed st + 1\<rparr>
        in if height = 0 \<or> \<not> fParentOfMatch then
             if ex_nHashUsed st \<ge> length (pmt_vHash t) then (0, st\<lparr>ex_fBad := True\<rparr>)
             else
               let hash = pmt_vHash t ! ex_nHashUsed st;
                   st = st\<lparr>ex_nHashUsed := ex_nHashUsed st + 1\<rparr>
               in (hash,
                   if height = 0 \<and> fParentOfMatch
                   then st\<lparr>ex_vMatch := ex_vMatch st @ [hash], ex_vnIndex := ex_vnIndex st @ [pos]\<rparr>
                   else st)
           else
             let (left, st) = TraverseAndExtract H t (height - 1) (pos * 2) st
             in if pos * 2 + 1 < CalcTreeWidth (pmt_nTransactions t) (height - 1) then
                  let (right, st) = TraverseAndExtract H t (height - 1) (pos * 2 + 1) st
                  in (hash2 H left right, if right = left then st\<lparr>ex_fBad := True\<rparr> else st)
                else (hash2 H left left, st))"

declare TraverseAndExtract.simps [simp del]

definition MIN_TRANSACTION_WEIGHT :: nat where "MIN_TRANSACTION_WEIGHT = WITNESS_SCALE_FACTOR * 60"

definition max_transactions :: "block_size_params \<Rightarrow> nat" where
  "max_transactions sizes = unat (dgpMaxBlockSize sizes * of_nat WITNESS_SCALE_FACTOR) div MIN_TRANSACTION_WEIGHT"

text \<open>The root or zero, and the final values of the two output vectors, \<open>vnIndex\<close> being appended to.\<close>

definition ExtractMatches ::
  "(bytes \<Rightarrow> uint256) \<Rightarrow> block_size_params \<Rightarrow> CPartialMerkleTree \<Rightarrow> nat list \<Rightarrow>
   uint256 \<times> uint256 list \<times> nat list" where
  "ExtractMatches H sizes t vnIndex =
     (let n = pmt_nTransactions t in
      if n = 0 then (0, [], vnIndex)
      else if n > max_transactions sizes then (0, [], vnIndex)
      else if length (pmt_vHash t) > n then (0, [], vnIndex)
      else if length (pmt_vBits t) < length (pmt_vHash t) then (0, [], vnIndex)
      else
        let (hashMerkleRoot, st) =
              TraverseAndExtract H t (tree_height n 0) 0
                \<lparr>ex_fBad = pmt_fBad t, ex_nBitsUsed = 0, ex_nHashUsed = 0, ex_vMatch = [], ex_vnIndex = vnIndex\<rparr>
        in (if ex_fBad st then 0
            else if (ex_nBitsUsed st + 7) div 8 \<noteq> (length (pmt_vBits t) + 7) div 8 then 0
            else if ex_nHashUsed st \<noteq> length (pmt_vHash t) then 0
            else hashMerkleRoot,
            ex_vMatch st, ex_vnIndex st))"

text \<open>The format: the flag bits are packed eight to a byte, least significant bit first.\<close>

definition pack_byte :: "bool list \<Rightarrow> byte" where
  "pack_byte bits = foldr (\<lambda>p b. b OR (if bits ! p then push_bit p 1 else 0)) [0..<min 8 (length bits)] 0"

fun pack_bits :: "bool list \<Rightarrow> bytes" where
  "pack_bits bits = (if bits = [] then [] else pack_byte bits # pack_bits (drop 8 bits))"

declare pack_bits.simps [simp del]

definition unpack_bits :: "bytes \<Rightarrow> bool list" where
  "unpack_bits vBytes = map (\<lambda>p. (vBytes ! (p div 8)) AND push_bit (p mod 8) 1 \<noteq> 0) [0..<length vBytes * 8]"

definition Serialize_CPartialMerkleTree :: "CPartialMerkleTree \<Rightarrow> bytes" where
  "Serialize_CPartialMerkleTree t =
     ser_writedata32 (of_nat (pmt_nTransactions t)) @ Serialize_vector ser_uint256 (pmt_vHash t) @
     Serialize_bytes (pack_bits (pmt_vBits t))"

definition Unserialize_CPartialMerkleTree :: "CPartialMerkleTree reader" where
  "Unserialize_CPartialMerkleTree =
     rbind ser_readdata32 (\<lambda>n. rbind (Unserialize_vector unser_uint256) (\<lambda>vHash.
     rbind Unserialize_bytes (\<lambda>vBytes.
     rreturn \<lparr>pmt_nTransactions = unat n, pmt_vBits = unpack_bits vBytes, pmt_vHash = vHash, pmt_fBad = False\<rparr>)))"

section \<open>The two ways to compute a root\<close>

lemma width_0 [simp]: "CalcTreeWidth n 0 = n"
  by (simp add: CalcTreeWidth_def)

lemma width_Suc: "CalcTreeWidth n (Suc h) = (CalcTreeWidth n h + 1) div 2"
proof -
  have p: "(0 :: nat) < 2 ^ h" by simp
  have "CalcTreeWidth n (Suc h) = (n + 2 ^ Suc h - 1) div 2 ^ h div 2"
    by (simp add: CalcTreeWidth_def div_mult2_eq [symmetric] mult.commute)
  also have "n + 2 ^ Suc h - 1 = (n + 2 ^ h - 1) + 2 ^ h" using p by simp
  also have "((n + 2 ^ h - 1) + 2 ^ h) div 2 ^ h = (n + 2 ^ h - 1) div 2 ^ h + 1" using p by (rule div_add_self2 [OF less_imp_neq [THEN not_sym]])
  finally show ?thesis by (simp only: CalcTreeWidth_def)
qed

lemma width_pos: "0 < n \<Longrightarrow> 0 < CalcTreeWidth n h"
  by (induction h) (simp_all add: width_Suc)

lemma SHA256D64_nth: "i < length xs div 2 \<Longrightarrow> SHA256D64 H xs ! i = hash2 H (xs ! (2 * i)) (xs ! (2 * i + 1))"
proof (induction H xs arbitrary: i rule: SHA256D64.induct)
  case (1 H x y hashes)
  then show ?case by (cases i) simp_all
qed simp_all

lemma pad_nth: "i < length xs \<Longrightarrow> pad xs ! i = xs ! i"
  by (simp add: pad_def nth_append)

lemma pad_nth_last: "odd (length xs) \<Longrightarrow> pad xs ! length xs = xs ! (length xs - 1)"
  by (cases xs) (simp_all add: pad_def nth_append last_conv_nth)

lemma equal_pairs_iff: "equal_pairs xs \<longleftrightarrow> (\<exists>i. 2 * i + 1 < length xs \<and> xs ! (2 * i) = xs ! (2 * i + 1))"
proof (induction xs rule: equal_pairs.induct)
  case (1 x y hashes)
  show ?case
  proof
    assume "equal_pairs (x # y # hashes)"
    then consider "x = y" | i where "2 * i + 1 < length hashes" "hashes ! (2 * i) = hashes ! (2 * i + 1)"
      using 1 by auto
    then show "\<exists>i. 2 * i + 1 < length (x # y # hashes) \<and> (x # y # hashes) ! (2 * i) = (x # y # hashes) ! (2 * i + 1)"
    proof cases
      case 1 then show ?thesis by (intro exI [of _ 0]) simp
    next
      case 2 then show ?thesis by (intro exI [of _ "Suc i"]) simp
    qed
  next
    assume "\<exists>i. 2 * i + 1 < length (x # y # hashes) \<and> (x # y # hashes) ! (2 * i) = (x # y # hashes) ! (2 * i + 1)"
    then obtain i where i: "2 * i + 1 < length (x # y # hashes)" "(x # y # hashes) ! (2 * i) = (x # y # hashes) ! (2 * i + 1)"
      by blast
    then show "equal_pairs (x # y # hashes)" using 1 by (cases i) auto
  qed
qed simp_all

text \<open>The nodes at one height, from left to right.\<close>

definition level :: "(bytes \<Rightarrow> uint256) \<Rightarrow> uint256 list \<Rightarrow> nat \<Rightarrow> uint256 list" where
  "level H vTxid h = map (CalcHash H (length vTxid) vTxid h) [0..<CalcTreeWidth (length vTxid) h]"

lemma length_level [simp]: "length (level H vTxid h) = CalcTreeWidth (length vTxid) h"
  by (simp add: level_def)

lemma level_0 [simp]: "level H vTxid 0 = vTxid"
  by (rule nth_equalityI) (simp_all add: level_def)

lemma level_nth [simp]: "pos < CalcTreeWidth (length vTxid) h \<Longrightarrow> level H vTxid h ! pos = CalcHash H (length vTxid) vTxid h pos"
  by (simp add: level_def)

lemma level_Suc: "SHA256D64 H (pad (level H vTxid h)) = level H vTxid (Suc h)"
proof (rule nth_equalityI)
  let ?w = "CalcTreeWidth (length vTxid) h"
  show l: "length (SHA256D64 H (pad (level H vTxid h))) = length (level H vTxid (Suc h))"
    by (simp add: length_pad width_Suc)
  fix i assume "i < length (SHA256D64 H (pad (level H vTxid h)))"
  then have i: "i < (?w + 1) div 2" by (simp add: length_pad)
  then have li: "i < length (pad (level H vTxid h)) div 2" by (simp add: length_pad)
  have i2: "2 * i < ?w" using i by linarith
  have "SHA256D64 H (pad (level H vTxid h)) ! i = hash2 H (pad (level H vTxid h) ! (2 * i)) (pad (level H vTxid h) ! (2 * i + 1))"
    by (rule SHA256D64_nth [OF li])
  also have "pad (level H vTxid h) ! (2 * i) = CalcHash H (length vTxid) vTxid h (i * 2)"
    using i2 by (simp add: pad_nth mult.commute)
  also have "pad (level H vTxid h) ! (2 * i + 1) =
      (if i * 2 + 1 < ?w then CalcHash H (length vTxid) vTxid h (i * 2 + 1) else CalcHash H (length vTxid) vTxid h (i * 2))"
  proof (cases "2 * i + 1 < ?w")
    case True
    then show ?thesis by (simp add: pad_nth mult.commute)
  next
    case False
    then have w: "?w = 2 * i + 1" using i2 by linarith
    then have "pad (level H vTxid h) ! (2 * i + 1) = level H vTxid h ! (2 * i)"
      using pad_nth_last [of "level H vTxid h"] by simp
    with False w show ?thesis by (simp add: mult.commute)
  qed
  also have "hash2 H (CalcHash H (length vTxid) vTxid h (i * 2)) (if i * 2 + 1 < ?w then CalcHash H (length vTxid) vTxid h (i * 2 + 1) else CalcHash H (length vTxid) vTxid h (i * 2)) = CalcHash H (length vTxid) vTxid (Suc h) i"
    by (simp add: Let_def)
  finally show "SHA256D64 H (pad (level H vTxid h)) ! i = level H vTxid (Suc h) ! i"
    using i by (simp add: width_Suc)
qed

lemma merkle_loop_level:
  "n = length vTxid \<Longrightarrow> merkle_loop H (level H vTxid h) m =
    (level H vTxid (tree_height n h), m \<or> (\<exists>k \<in> {h..<tree_height n h}. equal_pairs (level H vTxid k)))"
proof (induction n h arbitrary: m rule: tree_height.induct)
  case (1 n h)
  show ?case
  proof (cases "CalcTreeWidth n h > 1")
    case True
    have t: "tree_height n h = tree_height n (h + 1)" using True by (subst tree_height.simps) simp
    have lt: "h < tree_height n (h + 1)"
    proof -
      have "k \<le> tree_height n k" for k
        by (induction n k rule: tree_height.induct) (subst tree_height.simps, fastforce)
      from this [of "h + 1"] show ?thesis by simp
    qed
    have "merkle_loop H (level H vTxid h) m = merkle_loop H (level H vTxid (h + 1)) (m \<or> equal_pairs (level H vTxid h))"
      using True 1(2) by (subst merkle_loop.simps) (simp add: level_Suc)
    also have "\<dots> = (level H vTxid (tree_height n h), (m \<or> equal_pairs (level H vTxid h)) \<or>
        (\<exists>k \<in> {h + 1..<tree_height n h}. equal_pairs (level H vTxid k)))"
      unfolding t using 1(1) [OF True 1(2)] by simp
    also have "{h..<tree_height n h} = insert h {h + 1..<tree_height n h}" using lt t by auto
    ultimately show ?thesis using lt t by (auto simp: Suc_le_eq le_less)
  next
    case False
    then have "tree_height n h = h" by (subst tree_height.simps) simp
    with False 1(2) show ?thesis by (subst merkle_loop.simps) simp
  qed
qed

lemma tree_height_width: "CalcTreeWidth n (tree_height n h) \<le> 1"
proof (induction n h rule: tree_height.induct)
  case (1 n h)
  then show ?case by (cases "CalcTreeWidth n h > 1") (subst tree_height.simps, simp)+
qed

lemma top_width: "0 < n \<Longrightarrow> CalcTreeWidth n (tree_height n 0) = 1"
  using tree_height_width [of n 0] width_pos [of n "tree_height n 0"] by linarith

definition mutated :: "(bytes \<Rightarrow> uint256) \<Rightarrow> uint256 list \<Rightarrow> bool" where
  "mutated H vTxid \<longleftrightarrow> (\<exists>k < tree_height (length vTxid) 0. equal_pairs (level H vTxid k))"

lemma ComputeMerkleRoot_CalcHash:
  assumes "vTxid \<noteq> []"
  shows "ComputeMerkleRoot H vTxid =
    (CalcHash H (length vTxid) vTxid (tree_height (length vTxid) 0) 0, mutated H vTxid)"
proof -
  let ?T = "tree_height (length vTxid) 0"
  have w: "CalcTreeWidth (length vTxid) ?T = 1" using assms by (intro top_width) simp
  then have ne: "level H vTxid ?T \<noteq> []" by (metis length_level list.size(3) zero_neq_one)
  then have "hd (level H vTxid ?T) = CalcHash H (length vTxid) vTxid ?T 0" using w by (simp add: hd_conv_nth)
  then show ?thesis
    using merkle_loop_level [of "length vTxid" vTxid H 0 False] ne by (auto simp: ComputeMerkleRoot_def mutated_def)
qed

section \<open>A root commits to the list\<close>

fun pairs_of :: "uint256 list \<Rightarrow> (uint256 \<times> uint256) list" where
  "pairs_of (x # y # xs) = (x, y) # pairs_of xs"
| "pairs_of _ = []"

text \<open>The pairs that are hashed when the root of a list is computed.\<close>

definition tree_pairs :: "(bytes \<Rightarrow> uint256) \<Rightarrow> uint256 list \<Rightarrow> (uint256 \<times> uint256) set" where
  "tree_pairs H vTxid = (\<Union>k < tree_height (length vTxid) 0. set (pairs_of (pad (level H vTxid k))))"

lemma SHA256D64_pairs: "SHA256D64 H xs = map (\<lambda>(l, r). hash2 H l r) (pairs_of xs)"
  by (induction xs rule: pairs_of.induct) simp_all

lemma pairs_of_inject: "even (length xs) \<Longrightarrow> even (length ys) \<Longrightarrow> pairs_of xs = pairs_of ys \<Longrightarrow> xs = ys"
proof (induction xs arbitrary: ys rule: pairs_of.induct)
  case (1 x y xs)
  then show ?case by (cases ys rule: pairs_of.cases) auto
next
  case "2_1"
  then show ?case by (cases ys rule: pairs_of.cases) auto
qed simp

lemma even_pad: "even (length (pad xs))"
  by (simp add: length_pad)

lemma pad_odd_equal: "odd (length xs) \<Longrightarrow> equal_pairs (xs @ [last xs])"
proof -
  assume odd: "odd (length xs)"
  define i where "i = length xs div 2"
  have i: "length xs = 2 * i + 1" using odd unfolding i_def by presburger
  have "(xs @ [last xs]) ! (2 * i) = (xs @ [last xs]) ! (2 * i + 1)"
    using i pad_nth_last [OF odd] by (simp add: nth_append pad_def odd)
  then show ?thesis unfolding equal_pairs_iff using i by (intro exI [of _ i]) simp
qed

lemma pad_inject: "pad xs = pad ys \<Longrightarrow> \<not> equal_pairs xs \<Longrightarrow> \<not> equal_pairs ys \<Longrightarrow> xs = ys"
  using pad_odd_equal [of xs] pad_odd_equal [of ys] by (auto simp: pad_def split: if_splits)

lemma level_inject:
  assumes inj: "inj_on (\<lambda>(l, r). hash2 H l r) (tree_pairs H xs \<union> tree_pairs H ys)"
    and T: "tree_height (length xs) 0 = tree_height (length ys) 0"
    and nm: "\<not> mutated H xs" "\<not> mutated H ys"
  shows "k \<le> tree_height (length xs) 0 \<Longrightarrow> level H xs k = level H ys k \<Longrightarrow> xs = ys"
proof (induction k)
  case (Suc k)
  then have k: "k < tree_height (length xs) 0" "k < tree_height (length ys) 0" using T by simp_all
  have "map (\<lambda>(l, r). hash2 H l r) (pairs_of (pad (level H xs k))) = map (\<lambda>(l, r). hash2 H l r) (pairs_of (pad (level H ys k)))"
    using Suc.prems(2) by (simp only: level_Suc [symmetric] SHA256D64_pairs)
  moreover have "inj_on (\<lambda>(l, r). hash2 H l r) (set (pairs_of (pad (level H xs k))) \<union> set (pairs_of (pad (level H ys k))))"
    by (rule inj_on_subset [OF inj]) (use k in \<open>auto simp: tree_pairs_def\<close>)
  ultimately have "pairs_of (pad (level H xs k)) = pairs_of (pad (level H ys k))" by (rule map_inj_on)
  then have "pad (level H xs k) = pad (level H ys k)" by (intro pairs_of_inject even_pad)
  then have "level H xs k = level H ys k" by (rule pad_inject) (use nm k in \<open>auto simp: mutated_def\<close>)
  then show ?case using Suc.IH k(1) by simp
qed simp

text \<open>
  C18. The defence against malleable Merkle trees (the comment at the top of
  \<^verbatim>\<open>consensus/merkle.cpp\<close>, CVE-2012-2459): for two lists of transaction hashes with the same number
  of levels and for both of which \<^verbatim>\<open>ComputeMerkleRoot\<close> does not report a mutation, the roots are
  equal exactly when the lists are, if the hash has no collision among the pairs hashed for the
  two roots. Without the report this fails: a list of odd length has the same root as the list
  with its last element repeated.
\<close>

theorem merkle_root_commits:
  assumes inj: "inj_on (\<lambda>(l, r). hash2 H l r) (tree_pairs H xs \<union> tree_pairs H ys)"
    and T: "tree_height (length xs) 0 = tree_height (length ys) 0"
    and xs: "xs \<noteq> []" "ComputeMerkleRoot H xs = (r, False)"
    and ys: "ys \<noteq> []" "ComputeMerkleRoot H ys = (r', False)"
  shows "r = r' \<longleftrightarrow> xs = ys"
proof
  let ?T = "tree_height (length xs) 0"
  note x = ComputeMerkleRoot_CalcHash [OF xs(1), of H] and y = ComputeMerkleRoot_CalcHash [OF ys(1), of H]
  have nm: "\<not> mutated H xs" "\<not> mutated H ys" using xs(2) ys(2) x y by simp_all
  assume "r = r'"
  then have e: "CalcHash H (length xs) xs ?T 0 = CalcHash H (length ys) ys ?T 0"
    using xs(2) ys(2) x y T by simp
  have "CalcTreeWidth (length xs) ?T = 1" "CalcTreeWidth (length ys) ?T = 1"
    using top_width [of "length xs"] top_width [of "length ys"] xs(1) ys(1) T by simp_all
  then have "level H xs ?T = level H ys ?T" using e by (simp add: level_def)
  then show "xs = ys" by (rule level_inject [OF inj T nm order_refl])
next
  assume "xs = ys"
  then show "r = r'" using xs ys by simp
qed

lemma merkle_loop_step:
  "1 < length zs \<Longrightarrow> merkle_loop H zs m = merkle_loop H (SHA256D64 H (pad zs)) (m \<or> equal_pairs zs)"
  by (subst merkle_loop.simps) simp

lemma merkle_loop_stop: "\<not> 1 < length zs \<Longrightarrow> merkle_loop H zs m = (zs, m)"
  by (subst merkle_loop.simps) simp

lemma merkle_loop_flag: "fst (merkle_loop H zs m) = fst (merkle_loop H zs m')"
proof (induction H zs m arbitrary: m' rule: merkle_loop.induct)
  case (1 H zs m)
  show ?case
  proof (cases "1 < length zs")
    case True
    then show ?thesis using 1 [OF True] by (simp only: merkle_loop_step)
  next
    case False
    then show ?thesis by (simp add: merkle_loop_stop)
  qed
qed

lemma merkle_root_malleable:
  assumes "odd (length xs)" "1 < length xs"
  shows "fst (ComputeMerkleRoot H (xs @ [last xs])) = fst (ComputeMerkleRoot H xs)"
proof -
  have p: "pad (xs @ [last xs]) = pad xs" using assms by (simp add: pad_def)
  have l: "1 < length (xs @ [last xs])" using assms(2) by auto
  have "fst (merkle_loop H (xs @ [last xs]) False) = fst (merkle_loop H xs False)"
    unfolding merkle_loop_step [OF l] merkle_loop_step [OF assms(2)] p by (rule merkle_loop_flag)
  then show ?thesis unfolding ComputeMerkleRoot_def
    by (cases "merkle_loop H (xs @ [last xs]) False"; cases "merkle_loop H xs False") simp
qed

lemma ser_pair_inject: "ser_uint256 l @ ser_uint256 r = ser_uint256 l' @ ser_uint256 r' \<longleftrightarrow> l = l' \<and> r = r'"
  using ser256.enc_prefix_free [of l "ser_uint256 r" l' "ser_uint256 r'"] ser256.enc_prefix_free [of r "[]" r' "[]"] by auto

definition toy_hash :: "bytes \<Rightarrow> uint256" where
  "toy_hash bs = (if bs = ser_uint256 1 @ ser_uint256 2 then 5 else 6)"

lemma hash2_toy: "hash2 toy_hash l r = (if l = 1 \<and> r = 2 then 5 else 6)"
  by (simp add: hash2_def toy_hash_def ser_pair_inject)

lemma two_leaves: "tree_height 2 0 = 1" "x \<noteq> y \<Longrightarrow> ComputeMerkleRoot H [x, y] = (hash2 H x y, False)"
    "tree_pairs H [x, y] = {(x, y)}"
proof -
  show T: "tree_height 2 0 = 1" by (simp add: tree_height.simps CalcTreeWidth_def)
  then show "tree_pairs H [x, y] = {(x, y)}" by (auto simp: tree_pairs_def numeral_2_eq_2 pad_def lessThan_Suc)
  show "x \<noteq> y \<Longrightarrow> ComputeMerkleRoot H [x, y] = (hash2 H x y, False)"
    by (simp add: ComputeMerkleRoot_def merkle_loop_step merkle_loop_stop pad_def)
qed

theorem merkle_root_commits_witness:
  "ComputeMerkleRoot toy_hash [1, 2] = (5, False) \<and> ComputeMerkleRoot toy_hash [1, 3] = (6, False) \<and>
   ((5 :: uint256) = 6 \<longleftrightarrow> [1, 2] = [1 :: uint256, 3])"
proof -
  have r: "ComputeMerkleRoot toy_hash [1, 2] = (5, False)" "ComputeMerkleRoot toy_hash [1, 3] = (6, False)"
    by (simp_all add: two_leaves hash2_toy)
  have "inj_on (\<lambda>(l, r). hash2 toy_hash l r) (tree_pairs toy_hash [1, 2] \<union> tree_pairs toy_hash [1, 3])"
    by (simp add: two_leaves inj_on_def hash2_toy)
  from merkle_root_commits [OF this _ _ r(1) _ r(2)] r show ?thesis by simp
qed

section \<open>A proof of inclusion is sound\<close>

lemma pad_level_nth:
  assumes "pos < CalcTreeWidth (length vTxid) (Suc h)"
  shows "pad (level H vTxid h) ! (2 * pos) = CalcHash H (length vTxid) vTxid h (pos * 2)"
    and "pad (level H vTxid h) ! (2 * pos + 1) =
      (if pos * 2 + 1 < CalcTreeWidth (length vTxid) h then CalcHash H (length vTxid) vTxid h (pos * 2 + 1)
       else CalcHash H (length vTxid) vTxid h (pos * 2))"
proof -
  let ?w = "CalcTreeWidth (length vTxid) h"
  have i: "2 * pos < ?w" using assms unfolding width_Suc by linarith
  then show "pad (level H vTxid h) ! (2 * pos) = CalcHash H (length vTxid) vTxid h (pos * 2)"
    by (simp add: pad_nth mult.commute)
  show "pad (level H vTxid h) ! (2 * pos + 1) =
      (if pos * 2 + 1 < ?w then CalcHash H (length vTxid) vTxid h (pos * 2 + 1) else CalcHash H (length vTxid) vTxid h (pos * 2))"
  proof (cases "2 * pos + 1 < ?w")
    case True
    then show ?thesis by (simp add: pad_nth mult.commute)
  next
    case False
    then have w: "?w = 2 * pos + 1" using i by linarith
    then have "pad (level H vTxid h) ! (2 * pos + 1) = level H vTxid h ! (2 * pos)"
      using pad_nth_last [of "level H vTxid h"] by simp
    with False w show ?thesis by (simp add: mult.commute)
  qed
qed

lemma length_pairs_of: "length (pairs_of xs) = length xs div 2"
  by (induction xs rule: pairs_of.induct) simp_all

lemma pairs_of_nth: "i < length xs div 2 \<Longrightarrow> pairs_of xs ! i = (xs ! (2 * i), xs ! (2 * i + 1))"
proof (induction xs arbitrary: i rule: pairs_of.induct)
  case (1 x y xs)
  then show ?case by (cases i) simp_all
qed simp_all

lemma CalcHash_pair:
  assumes "h < tree_height (length vTxid) 0" "pos < CalcTreeWidth (length vTxid) (Suc h)"
  shows "\<exists>l r. CalcHash H (length vTxid) vTxid (Suc h) pos = hash2 H l r \<and> (l, r) \<in> tree_pairs H vTxid \<and>
    l = CalcHash H (length vTxid) vTxid h (pos * 2) \<and>
    r = (if pos * 2 + 1 < CalcTreeWidth (length vTxid) h then CalcHash H (length vTxid) vTxid h (pos * 2 + 1) else l)"
proof -
  let ?P = "pad (level H vTxid h)"
  have i: "pos < length ?P div 2" using assms(2) by (simp add: length_pad width_Suc)
  then have "(?P ! (2 * pos), ?P ! (2 * pos + 1)) \<in> set (pairs_of ?P)"
    unfolding pairs_of_nth [OF i, symmetric] by (simp add: length_pairs_of)
  then have "(?P ! (2 * pos), ?P ! (2 * pos + 1)) \<in> tree_pairs H vTxid" using assms(1) by (auto simp: tree_pairs_def)
  then show ?thesis unfolding pad_level_nth [OF assms(2)] by (intro exI conjI) (simp_all add: Let_def)
qed

lemma TraverseAndExtract_sound:
  assumes n: "pmt_nTransactions t = length vTxid"
    and sp: "\<forall>(l', r') \<in> tree_pairs H vTxid. \<forall>l r. hash2 H l r = hash2 H l' r' \<longrightarrow> l = l' \<and> r = r'"
  shows "h \<le> tree_height (length vTxid) 0 \<Longrightarrow> pos < CalcTreeWidth (length vTxid) h \<Longrightarrow>
    TraverseAndExtract H t h pos st = (x, st') \<Longrightarrow>
    \<exists>ms js. ex_vMatch st' = ex_vMatch st @ ms \<and> ex_vnIndex st' = ex_vnIndex st @ js \<and>
      (x = CalcHash H (length vTxid) vTxid h pos \<longrightarrow> list_all2 (\<lambda>m j. j < length vTxid \<and> vTxid ! j = m) ms js)"
proof (induction h arbitrary: pos st x st')
  case 0
  then show ?case
    by (subst (asm) TraverseAndExtract.simps) (auto simp: Let_def split: if_splits)
next
  case (Suc h)
  let ?n = "length vTxid"
  let ?st = "st\<lparr>ex_nBitsUsed := ex_nBitsUsed st + 1\<rparr>"
  have h: "h < tree_height ?n 0" "h \<le> tree_height ?n 0" using Suc.prems(1) by simp_all
  have p2: "pos * 2 < CalcTreeWidth ?n h" using Suc.prems(2) unfolding width_Suc by linarith
  show ?case
  proof (cases "ex_nBitsUsed st \<ge> length (pmt_vBits t) \<or> \<not> pmt_vBits t ! ex_nBitsUsed st")
    case True
    then show ?thesis using Suc.prems(3)
      by (subst (asm) TraverseAndExtract.simps) (auto simp: Let_def split: if_splits)
  next
    case False
    obtain l s1 where l: "TraverseAndExtract H t h (pos * 2) ?st = (l, s1)" by (metis prod.exhaust)
    obtain ms1 js1 where 1: "ex_vMatch s1 = ex_vMatch st @ ms1" "ex_vnIndex s1 = ex_vnIndex st @ js1"
      "l = CalcHash H ?n vTxid h (pos * 2) \<Longrightarrow> list_all2 (\<lambda>m j. j < ?n \<and> vTxid ! j = m) ms1 js1"
      using Suc.IH [OF h(2) p2 l] by auto
    obtain cl cr where c: "CalcHash H ?n vTxid (Suc h) pos = hash2 H cl cr" "(cl, cr) \<in> tree_pairs H vTxid"
        "cl = CalcHash H ?n vTxid h (pos * 2)"
        "cr = (if pos * 2 + 1 < CalcTreeWidth ?n h then CalcHash H ?n vTxid h (pos * 2 + 1) else cl)"
      using CalcHash_pair [OF h(1) Suc.prems(2)] by blast
    show ?thesis
    proof (cases "pos * 2 + 1 < CalcTreeWidth ?n h")
      case True
      obtain r s2 where r: "TraverseAndExtract H t h (pos * 2 + 1) s1 = (r, s2)" by (metis prod.exhaust)
      obtain ms2 js2 where 2: "ex_vMatch s2 = ex_vMatch s1 @ ms2" "ex_vnIndex s2 = ex_vnIndex s1 @ js2"
        "r = CalcHash H ?n vTxid h (pos * 2 + 1) \<Longrightarrow> list_all2 (\<lambda>m j. j < ?n \<and> vTxid ! j = m) ms2 js2"
        using Suc.IH [OF h(2) True r] by auto
      have "TraverseAndExtract H t (Suc h) pos st = (hash2 H l r, if r = l then s2\<lparr>ex_fBad := True\<rparr> else s2)"
        using False l r True n by (subst TraverseAndExtract.simps) (simp add: Let_def)
      then have e: "x = hash2 H l r" "ex_vMatch st' = ex_vMatch s2" "ex_vnIndex st' = ex_vnIndex s2"
        using Suc.prems(3) by auto
      have "list_all2 (\<lambda>m j. j < ?n \<and> vTxid ! j = m) (ms1 @ ms2) (js1 @ js2)" if "x = CalcHash H ?n vTxid (Suc h) pos"
      proof -
        have "l = cl \<and> r = cr" using sp c(1,2) that e(1) by fastforce
        then show ?thesis using 1(3) 2(3) c True by (auto intro: list_all2_appendI)
      qed
      then show ?thesis using 1 2 e by (intro exI [of _ "ms1 @ ms2"] exI [of _ "js1 @ js2"]) simp
    next
      case nr: False
      have "TraverseAndExtract H t (Suc h) pos st = (hash2 H l l, s1)"
        using False l nr n by (subst TraverseAndExtract.simps) (simp add: Let_def)
      then have e: "x = hash2 H l l" "st' = s1" using Suc.prems(3) by auto
      have "list_all2 (\<lambda>m j. j < ?n \<and> vTxid ! j = m) ms1 js1" if "x = CalcHash H ?n vTxid (Suc h) pos"
      proof -
        have "l = cl" using sp c(1,2) that e(1) by fastforce
        then show ?thesis using 1(3) c by auto
      qed
      then show ?thesis using 1 e by auto
    qed
  qed
qed



section \<open>Building and extracting\<close>

definition leaves_below :: "nat \<Rightarrow> nat \<Rightarrow> nat \<Rightarrow> nat list" where
  "leaves_below n h pos = [pos * 2 ^ h ..< min ((pos + 1) * 2 ^ h) n]"

lemma less_width_iff: "pos < CalcTreeWidth n h \<longleftrightarrow> pos * 2 ^ h < n"
proof -
  have p: "(0 :: nat) < 2 ^ h" by simp
  have "pos < CalcTreeWidth n h \<longleftrightarrow> Suc pos * 2 ^ h \<le> n + 2 ^ h - 1"
    unfolding CalcTreeWidth_def Suc_le_eq [symmetric] by (rule less_eq_div_iff_mult_less_eq [OF p])
  also have "Suc pos * 2 ^ h = pos * 2 ^ h + 2 ^ h" by simp
  also have "pos * 2 ^ h + 2 ^ h \<le> n + 2 ^ h - 1 \<longleftrightarrow> pos * 2 ^ h < n" using p by linarith
  finally show ?thesis .
qed

lemma upt_split: "i \<le> j \<Longrightarrow> j \<le> k \<Longrightarrow> [i..<k] = [i..<j] @ [j..<k]"
  using upt_add_eq_append [of i j "k - j"] by simp

lemma leaves_below_Suc:
  "leaves_below n (Suc h) pos =
    leaves_below n h (pos * 2) @ (if pos * 2 + 1 < CalcTreeWidth n h then leaves_below n h (pos * 2 + 1) else [])"
proof (cases "pos * 2 + 1 < CalcTreeWidth n h")
  case True
  then have lt: "(pos * 2 + 1) * 2 ^ h < n" by (simp only: less_width_iff)
  have "[pos * 2 ^ Suc h ..< min ((pos + 1) * 2 ^ Suc h) n] =
      [pos * 2 ^ Suc h ..< (pos * 2 + 1) * 2 ^ h] @ [(pos * 2 + 1) * 2 ^ h ..< min ((pos + 1) * 2 ^ Suc h) n]"
    using lt by (intro upt_split) (simp_all add: algebra_simps)
  moreover have "min ((pos * 2 + 1) * 2 ^ h) n = (pos * 2 + 1) * 2 ^ h" using lt by simp
  ultimately show ?thesis using True by (simp add: leaves_below_def algebra_simps)
next
  case False
  then have "n \<le> (pos * 2 + 1) * 2 ^ h" by (simp only: less_width_iff not_less)
  moreover from this have "n \<le> (pos + 1) * 2 ^ Suc h" by (simp add: algebra_simps)
  ultimately show ?thesis using False by (simp add: leaves_below_def min_absorb2 algebra_simps)
qed

lemma parent_iff: "parent_of_match n vMatch h pos \<longleftrightarrow> filter ((!) vMatch) (leaves_below n h pos) \<noteq> []"
  by (simp add: parent_of_match_def leaves_below_def filter_empty_conv list_ex_iff)

lemma build_append:
  "TraverseAndBuild H n vTxid vMatch h pos (bs, hs) =
    (bs @ fst (TraverseAndBuild H n vTxid vMatch h pos ([], [])), hs @ snd (TraverseAndBuild H n vTxid vMatch h pos ([], [])))"
proof (induction h arbitrary: pos bs hs)
  case (Suc h)
  show ?case
    using Suc.IH [of "pos * 2" "bs @ [True]" hs] Suc.IH [of "pos * 2" "[True]" "[]"]
      Suc.IH [of "pos * 2 + 1" "fst (TraverseAndBuild H n vTxid vMatch h (pos * 2) (bs @ [True], hs))"
         "snd (TraverseAndBuild H n vTxid vMatch h (pos * 2) (bs @ [True], hs))"]
      Suc.IH [of "pos * 2 + 1" "fst (TraverseAndBuild H n vTxid vMatch h (pos * 2) ([True], []))"
         "snd (TraverseAndBuild H n vTxid vMatch h (pos * 2) ([True], []))"]
    by (simp add: Let_def)
qed simp

definition built :: "(bytes \<Rightarrow> uint256) \<Rightarrow> uint256 list \<Rightarrow> bool list \<Rightarrow> nat \<Rightarrow> nat \<Rightarrow> bool list \<times> uint256 list" where
  "built H vTxid vMatch h pos = TraverseAndBuild H (length vTxid) vTxid vMatch h pos ([], [])"

lemma built_0: "built H vTxid vMatch 0 pos = ([parent_of_match (length vTxid) vMatch 0 pos], [CalcHash H (length vTxid) vTxid 0 pos])"
  by (simp add: built_def)

lemma built_Suc:
  "built H vTxid vMatch (Suc h) pos =
    (if \<not> parent_of_match (length vTxid) vMatch (Suc h) pos then ([False], [CalcHash H (length vTxid) vTxid (Suc h) pos])
     else
       let l = built H vTxid vMatch h (pos * 2);
           r = (if pos * 2 + 1 < CalcTreeWidth (length vTxid) h then built H vTxid vMatch h (pos * 2 + 1) else ([], []))
       in (True # fst l @ fst r, snd l @ snd r))"
  using build_append [of H "length vTxid" vTxid vMatch h "pos * 2" "[True]" "[]"]
    build_append [of H "length vTxid" vTxid vMatch h "pos * 2 + 1"
       "True # fst (built H vTxid vMatch h (pos * 2))" "snd (built H vTxid vMatch h (pos * 2))"]
  by (simp add: built_def Let_def)

lemma built_bounds:
  "pos < CalcTreeWidth (length vTxid) h \<Longrightarrow>
    0 < length (snd (built H vTxid vMatch h pos)) \<and>
    length (snd (built H vTxid vMatch h pos)) \<le> length (leaves_below (length vTxid) h pos) \<and>
    length (snd (built H vTxid vMatch h pos)) \<le> length (fst (built H vTxid vMatch h pos))"
proof (induction h arbitrary: pos)
  case 0
  then show ?case by (simp add: built_0 leaves_below_def)
next
  case (Suc h)
  let ?n = "length vTxid"
  have p2: "pos * 2 < CalcTreeWidth ?n h" using Suc.prems unfolding width_Suc by linarith
  have "pos * 2 ^ Suc h < ?n" using Suc.prems by (simp only: less_width_iff)
  then have ne: "0 < length (leaves_below ?n (Suc h) pos)" by (simp add: leaves_below_def)
  show ?case
  proof (cases "parent_of_match ?n vMatch (Suc h) pos")
    case True
    with Suc.IH [OF p2] Suc.IH [of "pos * 2 + 1"] show ?thesis by (auto simp: built_Suc leaves_below_Suc Let_def)
  next
    case False
    then show ?thesis using ne by (simp add: built_Suc Suc_le_eq)
  qed
qed

definition matches :: "uint256 list \<Rightarrow> bool list \<Rightarrow> nat \<Rightarrow> nat \<Rightarrow> nat list" where
  "matches vTxid vMatch h pos = filter ((!) vMatch) (leaves_below (length vTxid) h pos)"

definition extracted :: "uint256 list \<Rightarrow> bool list \<times> uint256 list \<Rightarrow> nat list \<Rightarrow> extract_state \<Rightarrow> extract_state" where
  "extracted vTxid bh js st =
     st\<lparr>ex_nBitsUsed := ex_nBitsUsed st + length (fst bh), ex_nHashUsed := ex_nHashUsed st + length (snd bh),
        ex_vMatch := ex_vMatch st @ map ((!) vTxid) js, ex_vnIndex := ex_vnIndex st @ js\<rparr>"

lemma extracted_simps [simp]:
  "ex_nBitsUsed (extracted vTxid bh js st) = ex_nBitsUsed st + length (fst bh)"
  "ex_nHashUsed (extracted vTxid bh js st) = ex_nHashUsed st + length (snd bh)"
  "ex_fBad (extracted vTxid bh js st) = ex_fBad st"
  by (simp_all add: extracted_def)

lemma siblings_differ:
  assumes "\<not> mutated H vTxid" "h < tree_height (length vTxid) 0" "pos * 2 + 1 < CalcTreeWidth (length vTxid) h"
  shows "CalcHash H (length vTxid) vTxid h (pos * 2 + 1) \<noteq> CalcHash H (length vTxid) vTxid h (pos * 2)"
proof
  assume e: "CalcHash H (length vTxid) vTxid h (pos * 2 + 1) = CalcHash H (length vTxid) vTxid h (pos * 2)"
  have "level H vTxid h ! (2 * pos) = level H vTxid h ! (2 * pos + 1)"
    using assms(3) e by (simp add: mult.commute)
  then have "equal_pairs (level H vTxid h)"
    unfolding equal_pairs_iff using assms(3) by (intro exI [of _ pos]) (simp add: mult.commute)
  with assms(1,2) show False by (auto simp: mutated_def)
qed

lemma extract_built:
  assumes n: "pmt_nTransactions t = length vTxid" and nm: "\<not> mutated H vTxid"
  shows "h \<le> tree_height (length vTxid) 0 \<Longrightarrow> pos < CalcTreeWidth (length vTxid) h \<Longrightarrow>
    pmt_vBits t = Bl @ fst (built H vTxid vMatch h pos) @ Br \<Longrightarrow> pmt_vHash t = Hl @ snd (built H vTxid vMatch h pos) @ Hr \<Longrightarrow>
    ex_nBitsUsed st = length Bl \<Longrightarrow> ex_nHashUsed st = length Hl \<Longrightarrow>
    TraverseAndExtract H t h pos st =
      (CalcHash H (length vTxid) vTxid h pos,
       extracted vTxid (built H vTxid vMatch h pos) (matches vTxid vMatch h pos) st)"
proof (induction h arbitrary: pos Bl Br Hl Hr st)
  case 0
  have l: "leaves_below (length vTxid) 0 pos = [pos]" using 0(2) by (simp add: leaves_below_def)
  have b: "pmt_vBits t ! length Bl = parent_of_match (length vTxid) vMatch 0 pos" "length Bl < length (pmt_vBits t)"
      "pmt_vHash t ! length Hl = vTxid ! pos" "length Hl < length (pmt_vHash t)"
    using 0(3,4) by (simp_all add: built_0 nth_append)
  have "parent_of_match (length vTxid) vMatch 0 pos \<longleftrightarrow> vMatch ! pos" by (simp add: parent_iff l)
  then show ?case using b 0(5,6)
    by (subst TraverseAndExtract.simps) (auto simp: built_0 matches_def l extracted_def Let_def)
next
  case (Suc h)
  let ?n = "length vTxid" let ?b = "built H vTxid vMatch"
  let ?st = "st\<lparr>ex_nBitsUsed := ex_nBitsUsed st + 1\<rparr>"
  show ?case
  proof (cases "parent_of_match ?n vMatch (Suc h) pos")
    case False
    then have bb: "?b (Suc h) pos = ([False], [CalcHash H ?n vTxid (Suc h) pos])" by (simp add: built_Suc)
    then have b: "\<not> pmt_vBits t ! length Bl" "length Bl < length (pmt_vBits t)"
        "pmt_vHash t ! length Hl = CalcHash H ?n vTxid (Suc h) pos" "length Hl < length (pmt_vHash t)"
      using Suc.prems(3,4) by (simp_all add: nth_append)
    have "matches vTxid vMatch (Suc h) pos = []" using False by (simp add: parent_iff matches_def)
    then show ?thesis using b bb Suc.prems(5,6)
      by (subst TraverseAndExtract.simps) (simp add: extracted_def Let_def)
  next
    case True
    have h: "h \<le> tree_height ?n 0" "h < tree_height ?n 0" using Suc.prems(1) by simp_all
    have p2: "pos * 2 < CalcTreeWidth ?n h" using Suc.prems(2) unfolding width_Suc by linarith
    define r where "r = (if pos * 2 + 1 < CalcTreeWidth ?n h then ?b h (pos * 2 + 1) else ([], []))"
    have bb: "?b (Suc h) pos = (True # fst (?b h (pos * 2)) @ fst r, snd (?b h (pos * 2)) @ snd r)"
      using True by (simp add: built_Suc Let_def r_def)
    have b: "pmt_vBits t ! length Bl" "length Bl < length (pmt_vBits t)"
      using Suc.prems(3) bb by (simp_all add: nth_append)
    let ?s1 = "extracted vTxid (?b h (pos * 2)) (matches vTxid vMatch h (pos * 2)) ?st"
    have l: "TraverseAndExtract H t h (pos * 2) ?st = (CalcHash H ?n vTxid h (pos * 2), ?s1)"
      by (rule Suc.IH [OF h(1) p2, where Bl = "Bl @ [True]" and Br = "fst r @ Br" and Hl = Hl and Hr = "snd r @ Hr"])
        (use Suc.prems(3-6) bb in simp_all)
    have step: "TraverseAndExtract H t (Suc h) pos st =
        (if pos * 2 + 1 < CalcTreeWidth ?n h then
           (case TraverseAndExtract H t h (pos * 2 + 1) ?s1 of
              (right, st2) \<Rightarrow> (hash2 H (CalcHash H ?n vTxid h (pos * 2)) right,
                if right = CalcHash H ?n vTxid h (pos * 2) then st2\<lparr>ex_fBad := True\<rparr> else st2))
         else (hash2 H (CalcHash H ?n vTxid h (pos * 2)) (CalcHash H ?n vTxid h (pos * 2)), ?s1))"
      using b Suc.prems(5) n l by (subst TraverseAndExtract.simps) (simp add: Let_def)
    show ?thesis
    proof (cases "pos * 2 + 1 < CalcTreeWidth ?n h")
      case R: True
      let ?s2 = "extracted vTxid (?b h (pos * 2 + 1)) (matches vTxid vMatch h (pos * 2 + 1)) ?s1"
      have "TraverseAndExtract H t h (pos * 2 + 1) ?s1 = (CalcHash H ?n vTxid h (pos * 2 + 1), ?s2)"
        by (rule Suc.IH [OF h(1) R, where Bl = "Bl @ True # fst (?b h (pos * 2))" and Br = Br
              and Hl = "Hl @ snd (?b h (pos * 2))" and Hr = Hr])
          (use Suc.prems(3-6) bb R in \<open>simp_all add: r_def\<close>)
      moreover have "extracted vTxid (?b (Suc h) pos) (matches vTxid vMatch (Suc h) pos) st = ?s2"
        using R by (simp add: bb r_def extracted_def matches_def leaves_below_Suc)
      ultimately show ?thesis
        unfolding step using R siblings_differ [OF nm h(2) R] by (simp add: Let_def)
    next
      case R: False
      then have "extracted vTxid (?b (Suc h) pos) (matches vTxid vMatch (Suc h) pos) st = ?s1"
        by (simp add: bb r_def extracted_def matches_def leaves_below_Suc)
      then show ?thesis unfolding step using R by (simp add: Let_def)
    qed
  qed
qed

section \<open>The packed flag bits\<close>

lemma pack_byte_bit: "p < 8 \<Longrightarrow> bit (pack_byte bits) p \<longleftrightarrow> p < length bits \<and> bits ! p"
proof -
  assume p: "p < 8"
  have "set ps \<subseteq> {..<8} \<Longrightarrow> bit (foldr (\<lambda>p b. b OR (if bits ! p then push_bit p 1 else 0)) ps (0 :: byte)) p \<longleftrightarrow>
      p \<in> set ps \<and> bits ! p" for ps
    using p by (induction ps) (auto simp: bit_or_iff bit_exp_iff)
  moreover have "set [0..<min 8 (length bits)] \<subseteq> {..<8}" by auto
  ultimately have "bit (pack_byte bits) p \<longleftrightarrow> p \<in> set [0..<min 8 (length bits)] \<and> bits ! p" by (simp only: pack_byte_def)
  with p show ?thesis by auto
qed

lemma unpack_Cons: "unpack_bits (b # bs) = map (bit b) [0..<8] @ unpack_bits bs"
proof (rule nth_equalityI)
  fix i assume "i < length (unpack_bits (b # bs))"
  then have i: "i < 8 + 8 * length bs" by (simp add: unpack_bits_def)
  have m: "(x AND 2 ^ k \<noteq> 0) \<longleftrightarrow> bit x k" for x :: byte and k
    using and_exp_eq_0_iff_not_bit [of x k] by simp
  show "unpack_bits (b # bs) ! i = (map (bit b) [0..<8] @ unpack_bits bs) ! i"
  proof (cases "i < 8")
    case True
    then show ?thesis using i by (simp add: unpack_bits_def nth_append m)
  next
    case False
    then obtain j where j: "i = j + 8" by (metis add.commute le_Suc_ex not_less)
    have d: "(j + 8) div 8 = Suc (j div 8)" by simp
    show ?thesis using i by (simp add: j unpack_bits_def nth_append m d del: add_Suc_right div_add_self2)
  qed
qed (simp add: unpack_bits_def)

lemma unpack_pack: "\<exists>k < 8. unpack_bits (pack_bits bits) = bits @ replicate k False"
proof (induction bits rule: pack_bits.induct)
  case (1 bits)
  show ?case
  proof (cases "bits = []")
    case True
    then show ?thesis by (intro exI [of _ 0]) (simp add: pack_bits.simps unpack_bits_def)
  next
    case False
    obtain k where k: "k < 8" "unpack_bits (pack_bits (drop 8 bits)) = drop 8 bits @ replicate k False"
      using 1 [OF False] by blast
    have e: "unpack_bits (pack_bits bits) = map (bit (pack_byte bits)) [0..<8] @ drop 8 bits @ replicate k False"
      using False k(2) by (subst pack_bits.simps) (simp add: unpack_Cons)
    have m: "map (bit (pack_byte bits)) [0..<8] = map (\<lambda>p. p < length bits \<and> bits ! p) [0..<8]"
      by (rule map_cong) (auto simp: pack_byte_bit)
    show ?thesis
    proof (cases "8 \<le> length bits")
      case True
      then have "map (\<lambda>p. p < length bits \<and> bits ! p) [0..<8] = take 8 bits"
        by (intro nth_equalityI) simp_all
      then show ?thesis using e m k(1) by auto
    next
      case short: False
      have "drop 8 bits = []" using short by simp
      then have k0: "k = 0" using k(2) by (simp add: pack_bits.simps unpack_bits_def)
      have "map (\<lambda>p. p < length bits \<and> bits ! p) [0..<8] = bits @ replicate (8 - length bits) False"
        using short by (intro nth_equalityI) (auto simp: nth_append)
      moreover have "8 - length bits < 8" using False by simp
      ultimately show ?thesis using e m k0 short by auto
    qed
  qed
qed

lemma length_unpack_pack: "length (unpack_bits (pack_bits bits)) = 8 * ((length bits + 7) div 8)"
proof -
  obtain k where k: "k < 8" "unpack_bits (pack_bits bits) = bits @ replicate k False" using unpack_pack by blast
  have "length (unpack_bits (pack_bits bits)) = 8 * length (pack_bits bits)" by (simp add: unpack_bits_def)
  then have e: "length bits + k = 8 * length (pack_bits bits)" using k(2) by simp
  then have "length (pack_bits bits) = (length bits + 7) div 8" using k(1) by linarith
  then show ?thesis using e k(2) by simp
qed

section \<open>Proofs of inclusion are complete\<close>

lemma tree_height_ge: "k \<le> tree_height n k"
  by (induction n k rule: tree_height.induct) (subst tree_height.simps, fastforce)

lemma tree_height_below: "h < tree_height n h \<Longrightarrow> 1 < CalcTreeWidth n (tree_height n h - 1)"
proof (induction n h rule: tree_height.induct)
  case (1 n h)
  then have w: "CalcTreeWidth n h > 1" by (subst (asm) (2) tree_height.simps) (auto split: if_splits)
  then have t: "tree_height n h = tree_height n (h + 1)" by (subst tree_height.simps) simp
  show ?case
  proof (cases "h + 1 < tree_height n (h + 1)")
    case True
    with 1(1) [OF w] t show ?thesis by simp
  next
    case False
    then have "tree_height n (h + 1) = h + 1" using tree_height_ge [of "h + 1" n] by simp
    with t w show ?thesis by simp
  qed
qed

lemma tree_height_exp: "0 < n \<Longrightarrow> 2 ^ tree_height n 0 < 2 * n"
proof (cases "tree_height n 0")
  case (Suc k)
  then have "1 < CalcTreeWidth n k" using tree_height_below [of 0 n] by simp
  then have "1 * 2 ^ k < n" by (simp only: less_width_iff)
  with Suc show ?thesis by simp
qed simp

lemma length_built: "length (fst (built H vTxid vMatch h pos)) < 2 ^ Suc h"
proof (induction h arbitrary: pos)
  case (Suc h)
  from Suc [of "pos * 2"] Suc [of "pos * 2 + 1"] show ?case by (auto simp: built_Suc Let_def)
qed (simp add: built_0)

lemma max_transactions_less: "max_transactions sizes < 2 ^ 25"
proof -
  have "unat (dgpMaxBlockSize sizes * of_nat WITNESS_SCALE_FACTOR) < 2 ^ 32"
    using unsigned_less [of "dgpMaxBlockSize sizes * of_nat WITNESS_SCALE_FACTOR"] by simp
  then show ?thesis by (simp add: max_transactions_def MIN_TRANSACTION_WEIGHT_def WITNESS_SCALE_FACTOR_def less_mult_imp_div_less)
qed

lemma ExtractMatches_built:
  assumes ne: "vTxid \<noteq> []" and mx: "length vTxid \<le> max_transactions sizes" and nm: "\<not> mutated H vTxid"
    and b: "built H vTxid vMatch (tree_height (length vTxid) 0) 0 = (bits, hashes)"
    and pad: "(length bits + 7) div 8 = (length (bits @ padding) + 7) div 8"
  shows "ExtractMatches H sizes
      \<lparr>pmt_nTransactions = length vTxid, pmt_vBits = bits @ padding, pmt_vHash = hashes, pmt_fBad = False\<rparr> vnIndex =
    (fst (ComputeMerkleRoot H vTxid), map ((!) vTxid) (filter ((!) vMatch) [0..<length vTxid]),
     vnIndex @ filter ((!) vMatch) [0..<length vTxid])"
proof -
  let ?n = "length vTxid" let ?T = "tree_height ?n 0"
  let ?t = "\<lparr>pmt_nTransactions = ?n, pmt_vBits = bits @ padding, pmt_vHash = hashes, pmt_fBad = False\<rparr>"
  let ?st = "\<lparr>ex_fBad = False, ex_nBitsUsed = 0, ex_nHashUsed = 0, ex_vMatch = [], ex_vnIndex = vnIndex\<rparr>"
  have w: "CalcTreeWidth ?n ?T = 1" using ne by (intro top_width) simp
  then have "\<not> 1 * 2 ^ ?T < ?n" unfolding less_width_iff [symmetric] by simp
  then have leaves: "leaves_below ?n ?T 0 = [0..<?n]" by (simp add: leaves_below_def)
  have bd: "length hashes \<le> ?n" "length hashes \<le> length bits"
    using built_bounds [of 0 vTxid ?T H vMatch] w b leaves by simp_all
  have "TraverseAndExtract H ?t ?T 0 ?st =
      (CalcHash H ?n vTxid ?T 0, extracted vTxid (bits, hashes) (matches vTxid vMatch ?T 0) ?st)"
    by (subst b [symmetric], rule extract_built [OF _ nm order_refl, where Bl = "[]" and Br = padding and Hl = "[]" and Hr = "[]"])
      (use w b in simp_all)
  then show ?thesis
    using ne mx bd pad ComputeMerkleRoot_CalcHash [OF ne, of H]
    by (simp add: ExtractMatches_def Let_def extracted_def matches_def leaves)
qed

text \<open>
  C28. A proof of inclusion survives the wire (\<^verbatim>\<open>CPartialMerkleTree\<close>): for a block that fits the
  size limit and whose Merkle tree is not reported as mutated, the partial tree built for any
  selection of its transactions can be written, read back, and \<^verbatim>\<open>ExtractMatches\<close> then returns the
  Merkle root \<^verbatim>\<open>ComputeMerkleRoot\<close> computes, the selected hashes and their positions; the padding of
  the flag bits to whole bytes does no harm.
\<close>

theorem partial_tree_roundtrip:
  assumes "vTxid \<noteq> []" "length vTxid \<le> max_transactions sizes" "ComputeMerkleRoot H vTxid = (root, False)"
  shows "\<exists>t t'. make_CPartialMerkleTree H vTxid vMatch = Some t \<and>
    Unserialize_CPartialMerkleTree (Serialize_CPartialMerkleTree t @ rest) = Inr (t', rest) \<and>
    ExtractMatches H sizes t' [] =
      (root, map ((!) vTxid) (filter ((!) vMatch) [0..<length vTxid]), filter ((!) vMatch) [0..<length vTxid])"
proof -
  let ?n = "length vTxid" let ?T = "tree_height ?n 0"
  obtain bits hashes where b: "built H vTxid vMatch ?T 0 = (bits, hashes)" by (metis prod.exhaust)
  let ?t = "\<lparr>pmt_nTransactions = ?n, pmt_vBits = bits, pmt_vHash = hashes, pmt_fBad = False\<rparr>"
  have t: "make_CPartialMerkleTree H vTxid vMatch = Some ?t"
    using assms(1) b by (simp add: make_CPartialMerkleTree_def built_def Let_def)
  have nm: "\<not> mutated H vTxid" using ComputeMerkleRoot_CalcHash [OF assms(1), of H] assms(3) by simp
  obtain k where k: "k < 8" "unpack_bits (pack_bits bits) = bits @ replicate k False" using unpack_pack by blast
  have pad: "(length bits + 7) div 8 = (length (bits @ replicate k False) + 7) div 8"
    using length_unpack_pack [of bits] k by simp
  have n: "?n < 2 ^ 25" using assms(2) max_transactions_less [of sizes] by linarith
  have "CalcTreeWidth ?n ?T = 1" using assms(1) by (intro top_width) simp
  then have hs: "length hashes \<le> length (leaves_below ?n ?T 0)" using built_bounds [of 0 vTxid ?T H vMatch] b by simp
  have "length (leaves_below ?n ?T 0) \<le> ?n" by (simp add: leaves_below_def)
  then have so: "size_ok hashes" using hs n by (simp add: size_ok_def MAX_SIZE_def)
  have "length bits < 2 * 2 ^ ?T" using length_built [of H vTxid vMatch ?T 0] b by simp
  then have "length bits < 2 ^ 27" using tree_height_exp [of ?n] assms(1) n by simp
  then have sb: "size_ok (pack_bits bits)"
    using length_unpack_pack [of bits] by (simp add: size_ok_def MAX_SIZE_def unpack_bits_def)
  have un: "unat (of_nat ?n :: uint32) = ?n" using n by (simp add: unsigned_of_nat take_bit_nat_eq_self)
  let ?t' = "?t\<lparr>pmt_vBits := bits @ replicate k False\<rparr>"
  have "Unserialize_CPartialMerkleTree (Serialize_CPartialMerkleTree ?t @ rest) = Inr (?t', rest)"
    by (simp add: Unserialize_CPartialMerkleTree_def Serialize_CPartialMerkleTree_def ser32.dec_enc
        ser256.vector_dec_enc [OF so] bytes_codec.dec_enc sb un k(2) list_all_iff)
  moreover have "ExtractMatches H sizes ?t' [] =
      (root, map ((!) vTxid) (filter ((!) vMatch) [0..<?n]), filter ((!) vMatch) [0..<?n])"
    using ExtractMatches_built [OF assms(1,2) nm b pad, of "[]"] assms(3) by simp
  ultimately show ?thesis using t by blast
qed

lemma max_transactions_initial: "max_transactions initial_block_size_params = 33333"
  by (simp add: max_transactions_def initial_block_size_params_def MIN_TRANSACTION_WEIGHT_def WITNESS_SCALE_FACTOR_def)

theorem partial_tree_roundtrip_witness:
  "\<exists>t t'. make_CPartialMerkleTree toy_hash [1, 2] [False, True] = Some t \<and>
    Unserialize_CPartialMerkleTree (Serialize_CPartialMerkleTree t @ []) = Inr (t', []) \<and>
    ExtractMatches toy_hash initial_block_size_params t' [] = (5, [2], [1])"
proof -
  have u: "[0..<length [1, 2 :: uint256]] = [0, 1]" by simp
  have r: "ComputeMerkleRoot toy_hash [1, 2] = (5, False)" by (simp add: two_leaves hash2_toy)
  show ?thesis
    using partial_tree_roundtrip [of "[1, 2]" initial_block_size_params, OF _ _ r, of "[False, True]" "[]"]
    unfolding u by (simp add: max_transactions_initial)
qed

end
