(* ===== verification/VersionBits.thy ===== *)
theory VersionBits
  imports Chain Params
begin

text \<open>
  Deployment of rule changes by version bits (\<^verbatim>\<open>src/versionbits.cpp\<close>, \<^verbatim>\<open>src/versionbits.h\<close>). The
  abstract class is a record of its virtual functions; the cache is a map from the parent of the
  first block of a period, \<open>None\<close> for the null pointer, to the state of the period.
\<close>

datatype ThresholdState = DEFINED | STARTED | LOCKED_IN | ACTIVE | FAILED

record ThresholdChecker =
  tc_Condition :: "store \<Rightarrow> addr \<Rightarrow> bool"
  tc_BeginTime :: int
  tc_EndTime :: int
  tc_Period :: nat
  tc_Threshold :: nat

type_synonym ThresholdConditionCache = "addr option \<Rightarrow> ThresholdState option"

text \<open>A failed assertion and a null dereference are errors.\<close>

datatype vb_error = Vb_chain chain_error | Vb_assert | Vb_null

definition ALWAYS_ACTIVE :: int where "ALWAYS_ACTIVE = - 1"

definition vb_ancestor :: "store \<Rightarrow> addr \<Rightarrow> int \<Rightarrow> vb_error + addr option" where
  "vb_ancestor s a h = (case GetAncestor s a h of Inl e \<Rightarrow> Inl (Vb_chain e) | Inr q \<Rightarrow> Inr q)"

section \<open>The state of a block\<close>

text \<open>The loop that counts the blocks of a period that satisfy the condition.\<close>

fun count_loop :: "ThresholdChecker \<Rightarrow> store \<Rightarrow> nat \<Rightarrow> addr option \<Rightarrow> nat \<Rightarrow> vb_error + nat" where
  "count_loop tc s 0 pindexCount count = Inr count"
| "count_loop tc s (Suc i) None count = Inl Vb_null"
| "count_loop tc s (Suc i) (Some a) count =
     count_loop tc s i (bi_pprev (s a)) (if tc_Condition tc s a then count + 1 else count)"

definition state_next :: "ThresholdChecker \<Rightarrow> store \<Rightarrow> addr \<Rightarrow> ThresholdState \<Rightarrow> vb_error + ThresholdState" where
  "state_next tc s a state =
     (case state of
        DEFINED \<Rightarrow>
          Inr (if GetMedianTimePast s a \<ge> tc_EndTime tc then FAILED
               else if GetMedianTimePast s a \<ge> tc_BeginTime tc then STARTED
               else DEFINED)
      | STARTED \<Rightarrow>
          if GetMedianTimePast s a \<ge> tc_EndTime tc then Inr FAILED
          else bind_res (count_loop tc s (tc_Period tc) (Some a) 0)
                 (\<lambda>count. Inr (if count \<ge> tc_Threshold tc then LOCKED_IN else STARTED))
      | LOCKED_IN \<Rightarrow> Inr ACTIVE
      | FAILED \<Rightarrow> Inr FAILED
      | ACTIVE \<Rightarrow> Inr ACTIVE)"

text \<open>
  The walk back in steps of a period to an entry whose state is known; the list is
  \<^verbatim>\<open>vToCompute\<close>, its last element first.
\<close>

partial_function (option) state_back ::
  "ThresholdChecker \<Rightarrow> store \<Rightarrow> addr option \<Rightarrow> ThresholdConditionCache \<Rightarrow> addr list \<Rightarrow>
   (vb_error, addr option \<times> ThresholdConditionCache \<times> addr list) run" where
  "state_back tc s pindexPrev cache vToCompute =
     (if cache pindexPrev \<noteq> None then Some (Inr (pindexPrev, cache, vToCompute))
      else
        case pindexPrev of
          None \<Rightarrow> Some (Inr (None, cache(None \<mapsto> DEFINED), vToCompute))
        | Some a \<Rightarrow>
            if GetMedianTimePast s a < tc_BeginTime tc
            then Some (Inr (Some a, cache(Some a \<mapsto> DEFINED), vToCompute))
            else
              (case vb_ancestor s a (int (bi_nHeight (s a)) - int (tc_Period tc)) of
                 Inl e \<Rightarrow> Some (Inl e)
               | Inr q \<Rightarrow> state_back tc s q cache (a # vToCompute)))"

fun state_forward ::
  "ThresholdChecker \<Rightarrow> store \<Rightarrow> addr list \<Rightarrow> ThresholdState \<Rightarrow> ThresholdConditionCache \<Rightarrow>
   vb_error + ThresholdState \<times> ThresholdConditionCache" where
  "state_forward tc s [] state cache = Inr (state, cache)"
| "state_forward tc s (a # vToCompute) state cache =
     bind_res (state_next tc s a state)
       (\<lambda>stateNext. state_forward tc s vToCompute stateNext (cache(Some a \<mapsto> stateNext)))"

text \<open>The parent of the first block of the period in which the child of an entry is.\<close>

definition period_parent :: "ThresholdChecker \<Rightarrow> store \<Rightarrow> addr option \<Rightarrow> vb_error + addr option" where
  "period_parent tc s pindexPrev =
     (case pindexPrev of
        None \<Rightarrow> Inr None
      | Some a \<Rightarrow> vb_ancestor s a (int (bi_nHeight (s a)) - int ((bi_nHeight (s a) + 1) mod tc_Period tc)))"

definition GetStateFor ::
  "ThresholdChecker \<Rightarrow> store \<Rightarrow> addr option \<Rightarrow> ThresholdConditionCache \<Rightarrow>
   (vb_error, ThresholdState \<times> ThresholdConditionCache) run" where
  "GetStateFor tc s pindexPrev cache =
     (if tc_BeginTime tc = ALWAYS_ACTIVE then Some (Inr (ACTIVE, cache))
      else
        run_bind (Some (period_parent tc s pindexPrev)) (\<lambda>p.
        run_bind (state_back tc s p cache []) (\<lambda>(p, cache, vToCompute).
        case cache p of
          None \<Rightarrow> Some (Inl Vb_assert)
        | Some state \<Rightarrow> Some (state_forward tc s vToCompute state cache))))"

section \<open>Statistics of the current period\<close>

record BIP9Stats =
  st_period :: nat
  st_threshold :: nat
  st_elapsed :: nat
  st_count :: nat
  st_possible :: bool

partial_function (option) stats_loop ::
  "ThresholdChecker \<Rightarrow> store \<Rightarrow> nat \<Rightarrow> addr option \<Rightarrow> nat \<Rightarrow> (vb_error, nat) run" where
  "stats_loop tc s endHeight currentIndex count =
     (case currentIndex of
        None \<Rightarrow> Some (Inl Vb_null)
      | Some a \<Rightarrow>
          if endHeight \<noteq> bi_nHeight (s a)
          then stats_loop tc s endHeight (bi_pprev (s a)) (if tc_Condition tc s a then count + 1 else count)
          else Some (Inr count))"

definition GetStateStatisticsFor :: "ThresholdChecker \<Rightarrow> store \<Rightarrow> addr option \<Rightarrow> (vb_error, BIP9Stats) run" where
  "GetStateStatisticsFor tc s pindex =
     (case pindex of
        None \<Rightarrow> returns \<lparr>st_period = tc_Period tc, st_threshold = tc_Threshold tc, st_elapsed = 0, st_count = 0, st_possible = False\<rparr>
      | Some a \<Rightarrow>
          run_bind (Some (period_parent tc s pindex)) (\<lambda>p.
            case p of
              None \<Rightarrow> Some (Inl Vb_null)
            | Some e \<Rightarrow>
                let elapsed = bi_nHeight (s a) - bi_nHeight (s e)
                in run_bind (stats_loop tc s (bi_nHeight (s e)) (Some a) 0)
                     (\<lambda>count. returns
                        \<lparr>st_period = tc_Period tc, st_threshold = tc_Threshold tc, st_elapsed = elapsed, st_count = count,
                         st_possible = (int (tc_Period tc) - int (tc_Threshold tc) \<ge> int elapsed - int count)\<rparr>)))"

section \<open>The height at which a state began\<close>

partial_function (option) since_loop ::
  "ThresholdChecker \<Rightarrow> store \<Rightarrow> ThresholdState \<Rightarrow> addr \<Rightarrow> ThresholdConditionCache \<Rightarrow>
   (vb_error, addr \<times> ThresholdConditionCache) run" where
  "since_loop tc s initialState pindexPrev cache =
     (case vb_ancestor s pindexPrev (int (bi_nHeight (s pindexPrev)) - int (tc_Period tc)) of
        Inl e \<Rightarrow> Some (Inl e)
      | Inr None \<Rightarrow> Some (Inr (pindexPrev, cache))
      | Inr (Some previousPeriodParent) \<Rightarrow>
          (case GetStateFor tc s (Some previousPeriodParent) cache of
             None \<Rightarrow> None
           | Some (Inl e) \<Rightarrow> Some (Inl e)
           | Some (Inr (state, cache)) \<Rightarrow>
               if state = initialState then since_loop tc s initialState previousPeriodParent cache
               else Some (Inr (pindexPrev, cache))))"

definition GetStateSinceHeightFor ::
  "ThresholdChecker \<Rightarrow> store \<Rightarrow> addr option \<Rightarrow> ThresholdConditionCache \<Rightarrow>
   (vb_error, nat \<times> ThresholdConditionCache) run" where
  "GetStateSinceHeightFor tc s pindexPrev cache =
     (if tc_BeginTime tc = ALWAYS_ACTIVE then Some (Inr (0, cache))
      else
        run_bind (GetStateFor tc s pindexPrev cache) (\<lambda>(initialState, cache).
          if initialState = DEFINED then Some (Inr (0, cache))
          else case pindexPrev of
                 None \<Rightarrow> Some (Inl Vb_null)
               | Some a \<Rightarrow>
                   run_bind (Some (period_parent tc s (Some a))) (\<lambda>p.
                     case p of
                       None \<Rightarrow> Some (Inl Vb_null)
                     | Some b \<Rightarrow>
                         run_bind (since_loop tc s initialState b cache)
                           (\<lambda>(c, cache). Some (Inr (bi_nHeight (s c) + 1, cache))))))"

section \<open>Version bits\<close>

record BIP9Deployment =
  dep_bit :: nat
  dep_nStartTime :: int
  dep_nTimeout :: int

definition VERSIONBITS_TOP_BITS :: uint32 where "VERSIONBITS_TOP_BITS = 0x20000000"
definition VERSIONBITS_TOP_MASK :: uint32 where "VERSIONBITS_TOP_MASK = 0xE0000000"

definition VersionBits_Mask :: "BIP9Deployment \<Rightarrow> uint32" where
  "VersionBits_Mask dep = push_bit (dep_bit dep) 1"

definition VersionBitsConditionChecker :: "Consensus_Params \<Rightarrow> BIP9Deployment \<Rightarrow> ThresholdChecker" where
  "VersionBitsConditionChecker params dep =
     \<lparr>tc_Condition = (\<lambda>s a. bi_nVersion (s a) AND VERSIONBITS_TOP_MASK = VERSIONBITS_TOP_BITS \<and>
                             bi_nVersion (s a) AND VersionBits_Mask dep \<noteq> 0),
      tc_BeginTime = dep_nStartTime dep, tc_EndTime = dep_nTimeout dep,
      tc_Period = nMinerConfirmationWindow params,
      tc_Threshold = nRuleChangeActivationThreshold params\<rparr>"

text \<open>\<^verbatim>\<open>ComputeBlockVersion\<close> of \<^verbatim>\<open>validation.cpp\<close>: one cache per deployment.\<close>

fun compute_version ::
  "Consensus_Params \<Rightarrow> store \<Rightarrow> addr option \<Rightarrow> (BIP9Deployment \<times> ThresholdConditionCache) list \<Rightarrow> uint32 \<Rightarrow>
   (vb_error, uint32 \<times> (BIP9Deployment \<times> ThresholdConditionCache) list) run" where
  "compute_version params s pindexPrev [] nVersion = Some (Inr (nVersion, []))"
| "compute_version params s pindexPrev ((dep, cache) # deps) nVersion =
     run_bind (GetStateFor (VersionBitsConditionChecker params dep) s pindexPrev cache) (\<lambda>(state, cache).
     run_bind (compute_version params s pindexPrev deps
         (if state = LOCKED_IN \<or> state = STARTED then nVersion OR VersionBits_Mask dep else nVersion))
       (\<lambda>(nVersion, deps). Some (Inr (nVersion, (dep, cache) # deps))))"

definition ComputeBlockVersion ::
  "Consensus_Params \<Rightarrow> store \<Rightarrow> addr option \<Rightarrow> (BIP9Deployment \<times> ThresholdConditionCache) list \<Rightarrow>
   (vb_error, uint32 \<times> (BIP9Deployment \<times> ThresholdConditionCache) list) run" where
  "ComputeBlockVersion params s pindexPrev deps = compute_version params s pindexPrev deps VERSIONBITS_TOP_BITS"

section \<open>Reference: the states of the periods, from the genesis block on\<close>

definition signals :: "ThresholdChecker \<Rightarrow> store \<Rightarrow> addr \<Rightarrow> nat \<Rightarrow> nat" where
  "signals tc s b k =
     length (filter (tc_Condition tc s) (map (\<lambda>i. the (naive_ancestor s b (bi_nHeight (s b) - i))) [0..<k]))"

definition period_next :: "ThresholdChecker \<Rightarrow> store \<Rightarrow> addr \<Rightarrow> ThresholdState \<Rightarrow> ThresholdState" where
  "period_next tc s b state =
     (case state of
        DEFINED \<Rightarrow>
          if GetMedianTimePast s b \<ge> tc_EndTime tc then FAILED
          else if GetMedianTimePast s b \<ge> tc_BeginTime tc then STARTED else DEFINED
      | STARTED \<Rightarrow>
          if GetMedianTimePast s b \<ge> tc_EndTime tc then FAILED
          else if signals tc s b (tc_Period tc) \<ge> tc_Threshold tc then LOCKED_IN else STARTED
      | LOCKED_IN \<Rightarrow> ACTIVE
      | FAILED \<Rightarrow> FAILED
      | ACTIVE \<Rightarrow> ACTIVE)"

text \<open>The state of the blocks of period \<open>k\<close> on the chain that ends in \<open>a\<close>.\<close>

fun period_state :: "ThresholdChecker \<Rightarrow> store \<Rightarrow> addr \<Rightarrow> nat \<Rightarrow> ThresholdState" where
  "period_state tc s a 0 = DEFINED"
| "period_state tc s a (Suc k) =
     period_next tc s (the (naive_ancestor s a (Suc k * tc_Period tc - 1))) (period_state tc s a k)"

definition later_than_median :: "store \<Rightarrow> addr set \<Rightarrow> bool" where
  "later_than_median s A \<longleftrightarrow>
     (\<forall>a \<in> A. \<forall>p. bi_pprev (s a) = Some p \<longrightarrow> GetBlockTime (s a) > GetMedianTimePast s p)"

lemma count_loop_ok:
  assumes ok: "tree_ok s A"
  shows "a \<in> A \<Longrightarrow> k \<le> bi_nHeight (s a) + 1 \<Longrightarrow> count_loop tc s k (Some a) c = Inr (c + signals tc s a k)"
proof (induction k arbitrary: a c)
  case 0
  then show ?case by (simp add: signals_def)
next
  case (Suc k)
  let ?h = "bi_nHeight (s a)"
  have sig: "signals tc s a (Suc k) = (if tc_Condition tc s a then 1 else 0) +
      length (filter (tc_Condition tc s) (map (\<lambda>i. the (naive_ancestor s a (?h - Suc i))) [0..<k]))"
    by (simp add: signals_def upt_conv_Cons map_Suc_upt [symmetric] o_def del: upt_Suc)
  show ?case
  proof (cases "bi_pprev (s a)")
    case None
    then have "?h = 0" using ok Suc.prems(1) by (auto simp: tree_ok_def)
    then have "k = 0" using Suc.prems(2) by simp
    then show ?thesis using sig by simp
  next
    case (Some p)
    then have p: "p \<in> A" "?h = Suc (bi_nHeight (s p))" using ok Suc.prems(1) by (auto simp: tree_ok_def)
    have "the (naive_ancestor s a (?h - Suc i)) = the (naive_ancestor s p (bi_nHeight (s p) - i))" for i
      using naive_ancestor_pprev [OF ok Suc.prems(1) Some, of "?h - Suc i"] p(2) by simp
    then have "signals tc s a (Suc k) = (if tc_Condition tc s a then 1 else 0) + signals tc s p k"
      unfolding sig by (simp add: signals_def)
    then show ?thesis using Suc.IH [OF p(1)] Suc.prems(2) p(2) Some by simp
  qed
qed

lemma state_next_ok:
  assumes "tree_ok s A" "b \<in> A" "tc_Period tc \<le> bi_nHeight (s b) + 1"
  shows "state_next tc s b st = Inr (period_next tc s b st)"
  using count_loop_ok [OF assms, of tc 0] by (simp add: state_next_def period_next_def split: ThresholdState.split)

lemma median_time_ancestor:
  assumes ok: "tree_ok s A" and m: "later_than_median s A"
  shows "a \<in> A \<Longrightarrow> naive_ancestor s a h = Some b \<Longrightarrow> GetMedianTimePast s b \<le> GetMedianTimePast s a"
proof (induction "bi_nHeight (s a)" arbitrary: a rule: less_induct)
  case less
  have h: "h \<le> bi_nHeight (s a)" using naive_ancestor_le [OF less.prems(2)] .
  show ?case
  proof (cases "h = bi_nHeight (s a)")
    case True
    then show ?thesis using less.prems(2) by simp
  next
    case False
    then have "bi_pprev (s a) \<noteq> None" using ok less.prems(1) h by (auto simp: tree_ok_def)
    then obtain p where p: "bi_pprev (s a) = Some p" by auto
    then have pA: "p \<in> A" "bi_nHeight (s a) = Suc (bi_nHeight (s p))" using ok less.prems(1) by (auto simp: tree_ok_def)
    have "naive_ancestor s p h = Some b"
      using naive_ancestor_pprev [OF ok less.prems(1) p] less.prems(2) False h by simp
    then have "GetMedianTimePast s b \<le> GetMedianTimePast s p" using less.hyps [of p] pA by simp
    also have "\<dots> \<le> GetMedianTimePast s a"
      using m less.prems(1) p by (intro median_time_mono) (auto simp: later_than_median_def)
    finally show ?thesis .
  qed
qed

lemma period_state_ancestor:
  assumes ok: "tree_ok s A" "a \<in> A" and b: "naive_ancestor s a h = Some b"
  shows "k * tc_Period tc \<le> h + 1 \<Longrightarrow> period_state tc s b k = period_state tc s a k"
proof (induction k)
  case (Suc k)
  have "naive_ancestor s b (Suc k * tc_Period tc - 1) = naive_ancestor s a (Suc k * tc_Period tc - 1)"
    by (rule naive_ancestor_trans [OF ok b]) (use Suc.prems in simp)
  then show ?case using Suc by simp
qed simp

lemma period_state_early:
  assumes ok: "tree_ok s A" "a \<in> A" and m: "later_than_median s A" and t: "tc_BeginTime tc \<le> tc_EndTime tc"
    and P: "0 < tc_Period tc"
  shows "naive_ancestor s a h = Some b \<Longrightarrow> GetMedianTimePast s b < tc_BeginTime tc \<Longrightarrow> k * tc_Period tc \<le> h + 1 \<Longrightarrow>
    period_state tc s a k = DEFINED"
proof (induction k)
  case (Suc k)
  let ?i = "Suc k * tc_Period tc - 1"
  have hb: "b \<in> A" "bi_nHeight (s b) = h"
    using naive_ancestor_ok [OF ok naive_ancestor_le [OF Suc.prems(1)]] Suc.prems(1) by auto
  have i: "?i \<le> h" using Suc.prems(3) by simp
  obtain c where c: "naive_ancestor s b ?i = Some c" using naive_ancestor_ok [OF ok(1) hb(1), of ?i] i hb(2) by auto
  then have ca: "naive_ancestor s a ?i = Some c" using naive_ancestor_trans [OF ok Suc.prems(1) i] by simp
  have "GetMedianTimePast s c < tc_BeginTime tc"
    using median_time_ancestor [OF ok(1) m hb(1) c] Suc.prems(2) by linarith
  moreover have "period_state tc s a k = DEFINED" using Suc by simp
  ultimately show ?case using ca t by (simp add: period_next_def)
qed simp

section \<open>The cached computation\<close>

definition state_of :: "ThresholdChecker \<Rightarrow> store \<Rightarrow> addr option \<Rightarrow> ThresholdState" where
  "state_of tc s p =
     (case p of None \<Rightarrow> DEFINED | Some b \<Rightarrow> period_state tc s b ((bi_nHeight (s b) + 1) div tc_Period tc))"

definition boundary :: "ThresholdChecker \<Rightarrow> store \<Rightarrow> addr set \<Rightarrow> addr option \<Rightarrow> bool" where
  "boundary tc s A p \<longleftrightarrow> (case p of None \<Rightarrow> True | Some b \<Rightarrow> b \<in> A \<and> tc_Period tc dvd bi_nHeight (s b) + 1)"

text \<open>A cache that agrees with the reference.\<close>

definition cache_ok :: "ThresholdChecker \<Rightarrow> store \<Rightarrow> addr set \<Rightarrow> ThresholdConditionCache \<Rightarrow> bool" where
  "cache_ok tc s A cache \<longleftrightarrow> (\<forall>p st. boundary tc s A p \<longrightarrow> cache p = Some st \<longrightarrow> st = state_of tc s p)"

definition period_pred :: "ThresholdChecker \<Rightarrow> store \<Rightarrow> addr \<Rightarrow> addr option" where
  "period_pred tc s b =
     (if bi_nHeight (s b) < tc_Period tc then None else naive_ancestor s b (bi_nHeight (s b) - tc_Period tc))"

lemma cache_ok_upd: "cache_ok tc s A cache \<Longrightarrow> st = state_of tc s p \<Longrightarrow> cache_ok tc s A (cache(p \<mapsto> st))"
  by (auto simp: cache_ok_def)

lemma vb_ancestor_ok:
  assumes "tree_ok s A" "a \<in> A"
  shows "vb_ancestor s a (int h) = Inr (naive_ancestor s a h)" "x < 0 \<Longrightarrow> vb_ancestor s a x = Inr None"
  using GetAncestor_ok [OF assms, of h] by (simp_all add: vb_ancestor_def GetAncestor_def)

lemma vb_pred:
  assumes "tree_ok s A" "b \<in> A"
  shows "vb_ancestor s b (int (bi_nHeight (s b)) - int (tc_Period tc)) = Inr (period_pred tc s b)"
proof (cases "bi_nHeight (s b) < tc_Period tc")
  case True
  then show ?thesis using vb_ancestor_ok(2) [OF assms] by (simp add: period_pred_def)
next
  case False
  then have "int (bi_nHeight (s b)) - int (tc_Period tc) = int (bi_nHeight (s b) - tc_Period tc)" by simp
  then show ?thesis using vb_ancestor_ok(1) [OF assms] False by (simp only: period_pred_def if_False)
qed

lemma period_pred_ok:
  assumes ok: "tree_ok s A" and b: "b \<in> A" "tc_Period tc dvd bi_nHeight (s b) + 1" and P: "0 < tc_Period tc"
  shows "boundary tc s A (period_pred tc s b)"
    and "\<And>c. period_pred tc s b = Some c \<Longrightarrow> bi_nHeight (s c) < bi_nHeight (s b)"
    and "state_of tc s (Some b) = period_next tc s b (state_of tc s (period_pred tc s b))"
    and "tc_Period tc \<le> bi_nHeight (s b) + 1"
proof -
  let ?P = "tc_Period tc" and ?h = "bi_nHeight (s b)"
  show le: "?P \<le> ?h + 1" using b(2) by (simp add: dvd_imp_le)
  obtain k where k: "?h + 1 = Suc k * ?P"
    using b(2) by (metis add_is_1 dvd_def less_irrefl mult.commute mult_0_right not0_implies_Suc add_eq_0_iff_both_eq_0 one_neq_zero)
  have dk: "(?h + 1) div ?P = Suc k" using k P by simp
  have top: "naive_ancestor s b (Suc k * ?P - 1) = Some b" using k naive_ancestor_self [of s b] by (metis add_diff_cancel_right')
  have st: "state_of tc s (Some b) = period_next tc s b (period_state tc s b k)"
    using dk top by (simp add: state_of_def)
  have "boundary tc s A (period_pred tc s b) \<and> (\<forall>c. period_pred tc s b = Some c \<longrightarrow> bi_nHeight (s c) < ?h) \<and>
      period_state tc s b k = state_of tc s (period_pred tc s b)"
  proof (cases "?h < ?P")
    case True
    then have "k = 0" using k le P by (cases k) auto
    then show ?thesis using True by (simp add: period_pred_def boundary_def state_of_def)
  next
    case False
    then obtain c where c: "naive_ancestor s b (?h - ?P) = Some c" "c \<in> A" "bi_nHeight (s c) = ?h - ?P"
      using naive_ancestor_ok [OF ok b(1), of "?h - ?P"] by auto
    have hc: "bi_nHeight (s c) + 1 = k * ?P" using c(3) k False by simp
    then have dc: "(bi_nHeight (s c) + 1) div ?P = k" using P by simp
    have "period_state tc s c k = period_state tc s b k"
      by (rule period_state_ancestor [OF ok b(1) c(1)]) (use hc c(3) in simp)
    then show ?thesis using False c hc dc P by (simp add: period_pred_def boundary_def state_of_def)
  qed
  then show "boundary tc s A (period_pred tc s b)" "\<And>c. period_pred tc s b = Some c \<Longrightarrow> bi_nHeight (s c) < ?h"
      "state_of tc s (Some b) = period_next tc s b (state_of tc s (period_pred tc s b))"
    using st by auto
qed

text \<open>The entries to compute, from the known one to the target.\<close>

fun pending :: "ThresholdChecker \<Rightarrow> store \<Rightarrow> addr set \<Rightarrow> addr option \<Rightarrow> addr list \<Rightarrow> addr option \<Rightarrow> bool" where
  "pending tc s A q [] p \<longleftrightarrow> q = p"
| "pending tc s A q (a # v) p \<longleftrightarrow> boundary tc s A (Some a) \<and> period_pred tc s a = q \<and> pending tc s A (Some a) v p"

lemma pending_snoc: "pending tc s A q v (period_pred tc s a) \<Longrightarrow> boundary tc s A (Some a) \<Longrightarrow> pending tc s A q (v @ [a]) (Some a)"
  by (induction v arbitrary: q) auto

lemma state_back_ok:
  assumes ok: "tree_ok s A" and m: "later_than_median s A" and t: "tc_BeginTime tc \<le> tc_EndTime tc" and P: "0 < tc_Period tc"
  shows "boundary tc s A p \<Longrightarrow> cache_ok tc s A cache \<Longrightarrow>
    \<exists>q cache' v. state_back tc s p cache v0 = Some (Inr (q, cache', v @ v0)) \<and> cache_ok tc s A cache' \<and>
      cache' q = Some (state_of tc s q) \<and> pending tc s A q v p"
proof (induction "case p of None \<Rightarrow> 0 | Some b \<Rightarrow> Suc (bi_nHeight (s b))" arbitrary: p v0 rule: less_induct)
  case less
  show ?case
  proof (cases "cache p")
    case (Some st)
    then have "st = state_of tc s p" using less.prems by (simp add: cache_ok_def)
    with Some less.prems(2) show ?thesis
      by (intro exI [of _ p] exI [of _ cache] exI [of _ "[]"]) (simp add: state_back.simps)
  next
    case unknown: None
    show ?thesis
    proof (cases p)
      case None
      let ?c = "cache(None \<mapsto> DEFINED)"
      have "state_back tc s p cache v0 = Some (Inr (None, ?c, [] @ v0))"
        using unknown None by (subst state_back.simps) simp
      moreover have "cache_ok tc s A ?c" by (rule cache_ok_upd [OF less.prems(2)]) (simp add: state_of_def)
      ultimately show ?thesis using None
        by (intro exI [of _ None] exI [of _ ?c] exI [of _ "[]"]) (simp add: state_of_def)
    next
      case (Some a)
      then have a: "a \<in> A" "tc_Period tc dvd bi_nHeight (s a) + 1" using less.prems(1) by (simp_all add: boundary_def)
      note pp = period_pred_ok [OF ok a P]
      show ?thesis
      proof (cases "GetMedianTimePast s a < tc_BeginTime tc")
        case True
        let ?c = "cache(Some a \<mapsto> DEFINED)"
        have d: "state_of tc s (Some a) = DEFINED"
          unfolding state_of_def option.case
          by (rule period_state_early [OF ok a(1) m t P naive_ancestor_self True]) simp
        have "state_back tc s p cache v0 = Some (Inr (Some a, ?c, [] @ v0))"
          using unknown Some True by (subst state_back.simps) simp
        moreover have "cache_ok tc s A ?c" by (rule cache_ok_upd [OF less.prems(2)]) (simp add: d)
        ultimately show ?thesis using Some d
          by (intro exI [of _ "Some a"] exI [of _ ?c] exI [of _ "[]"]) simp
      next
        case False
        have step: "state_back tc s p cache v0 = state_back tc s (period_pred tc s a) cache (a # v0)"
          using unknown Some False vb_pred [OF ok a(1), of tc] by (subst state_back.simps) simp
        have lt: "(case period_pred tc s a of None \<Rightarrow> 0 | Some b \<Rightarrow> Suc (bi_nHeight (s b))) < Suc (bi_nHeight (s a))"
          using pp(2) by (auto split: option.split)
        obtain q c v where q: "state_back tc s (period_pred tc s a) cache (a # v0) = Some (Inr (q, c, v @ a # v0))"
            "cache_ok tc s A c" "c q = Some (state_of tc s q)" "pending tc s A q v (period_pred tc s a)"
          using less.hyps [of "period_pred tc s a" "a # v0"] pp(1) less.prems(2) lt Some by auto
        have "pending tc s A q (v @ [a]) p" using pending_snoc [OF q(4)] less.prems(1) Some by simp
        then show ?thesis unfolding step using q(1-3)
          by (intro exI [of _ q] exI [of _ c] exI [of _ "v @ [a]"]) simp
      qed
    qed
  qed
qed

lemma state_forward_ok:
  assumes ok: "tree_ok s A" and P: "0 < tc_Period tc"
  shows "pending tc s A q v p \<Longrightarrow> cache_ok tc s A cache \<Longrightarrow>
    \<exists>cache'. state_forward tc s v (state_of tc s q) cache = Inr (state_of tc s p, cache') \<and> cache_ok tc s A cache'"
proof (induction v arbitrary: q cache)
  case (Cons a v)
  then have a: "a \<in> A" "tc_Period tc dvd bi_nHeight (s a) + 1" and q: "period_pred tc s a = q"
    and pend: "pending tc s A (Some a) v p" by (simp_all add: boundary_def)
  note pp = period_pred_ok [OF ok a P]
  have n: "state_next tc s a (state_of tc s q) = Inr (state_of tc s (Some a))"
    using state_next_ok [OF ok a(1) pp(4)] pp(3) q by simp
  show ?case using Cons.IH [OF pend cache_ok_upd [OF Cons.prems(2) refl, of "Some a"]] n by (simp add: fun_upd_def)
qed simp

lemma GetStateFor_boundary:
  assumes ok: "tree_ok s A" and m: "later_than_median s A" and t: "tc_BeginTime tc \<le> tc_EndTime tc" and P: "0 < tc_Period tc"
    and na: "tc_BeginTime tc \<noteq> ALWAYS_ACTIVE" and c: "cache_ok tc s A cache"
    and p: "period_parent tc s pindexPrev = Inr p" "boundary tc s A p"
  shows "\<exists>cache'. GetStateFor tc s pindexPrev cache = returns (state_of tc s p, cache') \<and> cache_ok tc s A cache'"
proof -
  obtain q c1 v where q: "state_back tc s p cache [] = Some (Inr (q, c1, v))" "cache_ok tc s A c1"
      "c1 q = Some (state_of tc s q)" "pending tc s A q v p"
    using state_back_ok [OF ok m t P p(2) c, of "[]"] by auto
  obtain c2 where "state_forward tc s v (state_of tc s q) c1 = Inr (state_of tc s p, c2)" "cache_ok tc s A c2"
    using state_forward_ok [OF ok P q(4,2)] by blast
  then show ?thesis using na p(1) q by (simp add: GetStateFor_def returns_def)
qed

lemma period_parent_ok:
  assumes ok: "tree_ok s A" "a \<in> A" and P: "0 < tc_Period tc"
  shows "\<exists>p. period_parent tc s (Some a) = Inr p \<and> boundary tc s A p \<and>
    state_of tc s p = period_state tc s a ((bi_nHeight (s a) + 1) div tc_Period tc)"
proof -
  let ?P = "tc_Period tc" and ?h = "bi_nHeight (s a)"
  define k where "k = (?h + 1) div ?P"
  have e: "?h + 1 = k * ?P + (?h + 1) mod ?P" unfolding k_def by (rule div_mult_mod_eq [symmetric])
  show ?thesis
  proof (cases k)
    case 0
    then have "int ?h - int ((?h + 1) mod ?P) < 0" using e by simp
    then show ?thesis using vb_ancestor_ok(2) [OF ok] 0 unfolding k_def [symmetric]
      by (simp add: period_parent_def boundary_def state_of_def del: of_nat_mod)
  next
    case (Suc j)
    then have kp: "0 < k * ?P" using P by simp
    have h: "int ?h - int ((?h + 1) mod ?P) = int (k * ?P - 1)" using e kp by linarith
    have le: "k * ?P - 1 \<le> ?h" using e by linarith
    obtain b where b: "naive_ancestor s a (k * ?P - 1) = Some b" "b \<in> A" "bi_nHeight (s b) = k * ?P - 1"
      using naive_ancestor_ok [OF ok le] by auto
    have hb: "bi_nHeight (s b) + 1 = k * ?P" using b(3) kp by simp
    have "period_state tc s b k = period_state tc s a k"
      by (rule period_state_ancestor [OF ok b(1)]) (use kp in simp)
    moreover have "period_parent tc s (Some a) = Inr (Some b)"
      using vb_ancestor_ok(1) [OF ok, of "k * ?P - 1"] b(1) by (simp only: period_parent_def option.case h)
    ultimately show ?thesis using hb b(2) P unfolding k_def [symmetric] by (simp add: boundary_def state_of_def)
  qed
qed


definition sample_checker :: ThresholdChecker where
  "sample_checker = \<lparr>tc_Condition = (\<lambda>s a. True), tc_BeginTime = 0, tc_EndTime = 100, tc_Period = 1, tc_Threshold = 1\<rparr>"

lemma sample_later: "later_than_median (line_store 5) {..<3}"
proof -
  have "GetBlockTime (line_store 5 1) > GetMedianTimePast (line_store 5) 0"
    "GetBlockTime (line_store 5 2) > GetMedianTimePast (line_store 5) 1" by code_simp+
  moreover have "{..<3} = {0, 1, 2 :: nat}" by auto
  ultimately show ?thesis unfolding later_than_median_def by (simp del: One_nat_def) (simp add: numeral_2_eq_2)
qed

lemma sample_states:
  "period_state sample_checker (line_store 5) 2 3 = ACTIVE" "period_state sample_checker (line_store 5) 1 2 = LOCKED_IN"
  by code_simp+

lemma sample_hyps: "cache_ok sample_checker (line_store 5) {..<3} (\<lambda>_. None)"
    "tc_BeginTime sample_checker \<le> tc_EndTime sample_checker" "0 < tc_Period sample_checker"
    "tc_BeginTime sample_checker \<noteq> ALWAYS_ACTIVE"
  by (simp_all add: cache_ok_def sample_checker_def ALWAYS_ACTIVE_def)


section \<open>The life cycle of a deployment\<close>

inductive bip9_step :: "ThresholdState \<Rightarrow> ThresholdState \<Rightarrow> bool" where
  wait: "bip9_step DEFINED DEFINED"
| start: "bip9_step DEFINED STARTED"
| expired: "bip9_step DEFINED FAILED"
| voting: "bip9_step STARTED STARTED"
| lock_in: "bip9_step STARTED LOCKED_IN"
| timeout: "bip9_step STARTED FAILED"
| activate: "bip9_step LOCKED_IN ACTIVE"
| active: "bip9_step ACTIVE ACTIVE"
| failed: "bip9_step FAILED FAILED"

inductive_simps bip9_step_simps [simp]: "bip9_step DEFINED st" "bip9_step STARTED st" "bip9_step LOCKED_IN st" "bip9_step ACTIVE st" "bip9_step FAILED st"

lemma period_next_step: "bip9_step st (period_next tc s b st)"
  by (cases st) (simp_all add: period_next_def)

lemma period_state_steps: "(bip9_step ^^ n) (period_state tc s a k) (period_state tc s a (k + n))"
proof (induction n)
  case (Suc n)
  moreover have "bip9_step (period_state tc s a (k + n)) (period_state tc s a (k + Suc n))"
    using period_next_step by simp
  ultimately show ?case by auto
qed simp

lemma bip9_terminal: "(bip9_step ^^ n) st st' \<Longrightarrow> st = ACTIVE \<or> st = FAILED \<Longrightarrow> st' = st"
proof (induction n arbitrary: st')
  case (Suc n)
  then obtain u where "(bip9_step ^^ n) st u" "bip9_step u st'" by auto
  with Suc.IH [of u] Suc.prems(2) show ?case by auto
qed simp



end
