(* ===== verification/ChainSelect.thy ===== *)
theory ChainSelect
  imports Pow "HOL-Library.Product_Lexorder"
begin

text \<open>
  Selection of the best chain (\<^verbatim>\<open>CChainState\<close> of \<^verbatim>\<open>src/validation.cpp\<close>): the set of candidate tips,
  the comparator that orders it, finding the candidate with the most work, moving the active chain
  there step by step, and marking blocks that turn out to be invalid. What the checks of a block
  say of it is the argument \<open>bc\<close>. The effects on the memory pool, on the files and on listeners are
  not part of the state. The set \<^verbatim>\<open>setBlockIndexCandidates\<close> is a list without duplicates; the order
  in which the comparator keeps it is recomputed where it matters.
\<close>

section \<open>State\<close>

record chain_state =
  cs_index :: store
  cs_blocks :: "addr list"
  cs_candidates :: "addr list"
  cs_chain :: chain
  cs_unlinked :: "(addr \<times> addr) list"
  cs_bestInvalid :: "addr option"
  cs_bestHeader :: "addr option"
  cs_failed :: "addr list"
  cs_nBlockSequenceId :: int
  cs_nBlockReverseSequenceId :: int
  cs_nLastPreciousChainwork :: arith_uint256
  cs_setStakeSeen :: "(COutPoint \<times> uint32) list"

datatype cs_error = Cs_chain chain_error | Cs_uint uint_error | Cs_assert | Cs_null

text \<open>
  The outcome of connecting a block: \<^verbatim>\<open>ConnectBlock\<close> accepts it, or finds it invalid (the flag
  says whether corruption is possible), or a system error stops it before or after that verdict.
\<close>

datatype verdict = Block_ok | Block_invalid bool | Block_error | Flush_error

text \<open>
  What the blocks themselves say: \<^verbatim>\<open>hashGenesisBlock\<close>, the outcome of connecting a block, and
  whether it could be disconnected.
\<close>

record block_checks =
  bc_hashGenesisBlock :: uint256
  bc_connect :: "addr \<Rightarrow> verdict"
  bc_disconnect :: "addr \<Rightarrow> bool"

definition BLOCK_HAVE_DATA :: uint32 where "BLOCK_HAVE_DATA = 8"
definition BLOCK_HAVE_UNDO :: uint32 where "BLOCK_HAVE_UNDO = 16"
definition BLOCK_FAILED_VALID :: uint32 where "BLOCK_FAILED_VALID = 32"
definition BLOCK_FAILED_CHILD :: uint32 where "BLOCK_FAILED_CHILD = 64"

definition HaveTxsDownloaded :: "CBlockIndex \<Rightarrow> bool" where
  "HaveTxsDownloaded b \<longleftrightarrow> bi_nChainTx b \<noteq> 0"

definition set_status :: "addr \<Rightarrow> uint32 \<Rightarrow> chain_state \<Rightarrow> chain_state" where
  "set_status a st cs = cs\<lparr>cs_index := (cs_index cs)(a := (cs_index cs a)\<lparr>bi_nStatus := st\<rparr>)\<rparr>"

definition add_status :: "addr \<Rightarrow> uint32 \<Rightarrow> chain_state \<Rightarrow> chain_state" where
  "add_status a f cs = set_status a (bi_nStatus (cs_index cs a) OR f) cs"

definition erase_candidate :: "addr \<Rightarrow> chain_state \<Rightarrow> chain_state" where
  "erase_candidate a cs = cs\<lparr>cs_candidates := removeAll a (cs_candidates cs)\<rparr>"

section \<open>The order of candidates\<close>

definition CBlockIndexWorkComparator :: "store \<Rightarrow> addr \<Rightarrow> addr \<Rightarrow> bool" where
  "CBlockIndexWorkComparator s pa pb =
     (if CompareTo (bi_nChainWork (s pa)) (bi_nChainWork (s pb)) > 0 then False
      else if CompareTo (bi_nChainWork (s pa)) (bi_nChainWork (s pb)) < 0 then True
      else if bi_nSequenceId (s pa) < bi_nSequenceId (s pb) then False
      else if bi_nSequenceId (s pa) > bi_nSequenceId (s pb) then True
      else if pa < pb then False
      else if pa > pb then True
      else False)"

text \<open>\<^verbatim>\<open>*setBlockIndexCandidates.rbegin()\<close>: the last element in the order.\<close>

fun last_candidate :: "store \<Rightarrow> addr list \<Rightarrow> addr option" where
  "last_candidate s [] = None"
| "last_candidate s (c # cands) =
     (case last_candidate s cands of
        None \<Rightarrow> Some c
      | Some d \<Rightarrow> Some (if CBlockIndexWorkComparator s d c then c else d))"

section \<open>Finding the chain with the most work\<close>

text \<open>
  The walk from the candidate to the active chain: the first entry that cannot be used and
  whether that is because it failed.
\<close>

partial_function (option) test_path :: "store \<Rightarrow> chain \<Rightarrow> addr option \<Rightarrow> (cs_error, (addr \<times> bool) option) run" where
  "test_path s c pindexTest =
     (case pindexTest of
        None \<Rightarrow> Some (Inr None)
      | Some a \<Rightarrow>
          if Contains s c a then Some (Inr None)
          else if \<not> (HaveTxsDownloaded (s a) \<or> bi_nHeight (s a) = 0) then Some (Inl Cs_assert)
          else if bi_nStatus (s a) AND BLOCK_FAILED_MASK \<noteq> 0 then Some (Inr (Some (a, True)))
          else if bi_nStatus (s a) AND BLOCK_HAVE_DATA = 0 then Some (Inr (Some (a, False)))
          else test_path s c (bi_pprev (s a)))"

definition drop_failed :: "bool \<Rightarrow> addr \<Rightarrow> chain_state \<Rightarrow> (cs_error, chain_state) run" where
  "drop_failed fFailedChain a cs =
     (if fFailedChain then returns (erase_candidate a (add_status a BLOCK_FAILED_CHILD cs))
      else case bi_pprev (cs_index cs a) of
             None \<Rightarrow> Some (Inl Cs_null)
           | Some p \<Rightarrow> returns (erase_candidate a (cs\<lparr>cs_unlinked := cs_unlinked cs @ [(p, a)]\<rparr>)))"

partial_function (option) remove_path ::
  "addr \<Rightarrow> bool \<Rightarrow> addr \<Rightarrow> chain_state \<Rightarrow> (cs_error, chain_state) run" where
  "remove_path pindexTest fFailedChain pindexFailed cs =
     (if pindexTest \<noteq> pindexFailed then
        (case drop_failed fFailedChain pindexFailed cs of
           None \<Rightarrow> None
         | Some (Inl e) \<Rightarrow> Some (Inl e)
         | Some (Inr cs') \<Rightarrow>
             (case bi_pprev (cs_index cs pindexFailed) of
                None \<Rightarrow> Some (Inl Cs_null)
              | Some p \<Rightarrow> remove_path pindexTest fFailedChain p cs'))
      else Some (Inr cs))"

definition more_work :: "store \<Rightarrow> addr \<Rightarrow> addr option \<Rightarrow> bool" where
  "more_work s a best =
     (case best of None \<Rightarrow> True | Some b \<Rightarrow> CompareTo (bi_nChainWork (s a)) (bi_nChainWork (s b)) > 0)"

partial_function (option) FindMostWorkChain :: "chain_state \<Rightarrow> (cs_error, addr option \<times> chain_state) run" where
  "FindMostWorkChain cs =
     (case last_candidate (cs_index cs) (cs_candidates cs) of
        None \<Rightarrow> Some (Inr (None, cs))
      | Some pindexNew \<Rightarrow>
          (case test_path (cs_index cs) (cs_chain cs) (Some pindexNew) of
             None \<Rightarrow> None
           | Some (Inl e) \<Rightarrow> Some (Inl e)
           | Some (Inr None) \<Rightarrow> Some (Inr (Some pindexNew, cs))
           | Some (Inr (Some (pindexTest, fFailedChain))) \<Rightarrow>
               (case remove_path pindexTest fFailedChain pindexNew
                       (if fFailedChain \<and> more_work (cs_index cs) pindexNew (cs_bestInvalid cs)
                        then cs\<lparr>cs_bestInvalid := Some pindexNew\<rparr> else cs) of
                  None \<Rightarrow> None
                | Some (Inl e) \<Rightarrow> Some (Inl e)
                | Some (Inr cs') \<Rightarrow> FindMostWorkChain (erase_candidate pindexTest cs'))))"

definition PruneBlockIndexCandidates :: "chain_state \<Rightarrow> (cs_error, chain_state) run" where
  "PruneBlockIndexCandidates cs =
     (case Tip (cs_chain cs) of
        None \<Rightarrow> if cs_candidates cs = [] then Some (Inl Cs_assert) else Some (Inl Cs_null)
      | Some t \<Rightarrow>
          let left = filter (\<lambda>c. \<not> CBlockIndexWorkComparator (cs_index cs) c t) (cs_candidates cs)
          in if left = [] then Some (Inl Cs_assert) else returns (cs\<lparr>cs_candidates := left\<rparr>))"

section \<open>Connecting and disconnecting the tip\<close>

definition InvalidChainFound :: "addr \<Rightarrow> chain_state \<Rightarrow> (cs_error, chain_state) run" where
  "InvalidChainFound pindexNew cs =
     (let cs = (if more_work (cs_index cs) pindexNew (cs_bestInvalid cs)
                then cs\<lparr>cs_bestInvalid := Some pindexNew\<rparr> else cs)
      in if Tip (cs_chain cs) = None then Some (Inl Cs_assert) else returns cs)"

definition InvalidBlockFound :: "addr \<Rightarrow> bool \<Rightarrow> chain_state \<Rightarrow> (cs_error, chain_state) run" where
  "InvalidBlockFound pindex corruption cs =
     (if \<not> corruption then
        InvalidChainFound pindex
          (erase_candidate pindex
             ((add_status pindex BLOCK_FAILED_VALID cs)\<lparr>cs_failed := List.insert pindex (cs_failed cs)\<rparr>))
      else returns cs)"

definition set_tip :: "addr option \<Rightarrow> chain_state \<Rightarrow> (cs_error, chain_state) run" where
  "set_tip p cs = (case SetTip (cs_index cs) p (cs_chain cs) of None \<Rightarrow> None | Some c \<Rightarrow> returns (cs\<lparr>cs_chain := c\<rparr>))"

text \<open>\<^verbatim>\<open>DisconnectTip\<close>: the tip moves to the parent, unless the block could not be taken off.\<close>

definition DisconnectTip :: "block_checks \<Rightarrow> chain_state \<Rightarrow> (cs_error, bool \<times> chain_state) run" where
  "DisconnectTip bc cs =
     (case Tip (cs_chain cs) of
        None \<Rightarrow> Some (Inl Cs_assert)
      | Some pindexDelete \<Rightarrow>
          if \<not> bc_disconnect bc pindexDelete then returns (False, cs)
          else run_bind (set_tip (bi_pprev (cs_index cs pindexDelete)) cs) (\<lambda>cs. returns (True, cs)))"

text \<open>
  What an accepting \<^verbatim>\<open>ConnectBlock\<close> leaves in the status of the entry: the genesis block is not
  touched, any other block has undo data then and is raised to \<^verbatim>\<open>BLOCK_VALID_SCRIPTS\<close>.
\<close>

definition connected_status :: "uint256 \<Rightarrow> addr \<Rightarrow> chain_state \<Rightarrow> (cs_error, chain_state) run" where
  "connected_status hashGenesisBlock a cs =
     (if bi_hash (cs_index cs a) = hashGenesisBlock then returns cs
      else
        let cs = add_status a BLOCK_HAVE_UNDO cs
        in case IsValid 5 (cs_index cs a) of
             Inl e \<Rightarrow> Some (Inl (Cs_chain e))
           | Inr True \<Rightarrow> returns cs
           | Inr False \<Rightarrow>
               (case RaiseValidity 5 (cs_index cs a) of
                  Inl e \<Rightarrow> Some (Inl (Cs_chain e))
                | Inr (_, b) \<Rightarrow> returns (set_status a (bi_nStatus b) cs)))"

definition ConnectTip :: "block_checks \<Rightarrow> addr \<Rightarrow> chain_state \<Rightarrow> (cs_error, verdict \<times> chain_state) run" where
  "ConnectTip bc pindexNew cs =
     (if bi_pprev (cs_index cs pindexNew) \<noteq> Tip (cs_chain cs) then Some (Inl Cs_assert)
      else case bc_connect bc pindexNew of
             Block_ok \<Rightarrow>
               run_bind (connected_status (bc_hashGenesisBlock bc) pindexNew cs) (\<lambda>cs.
               run_bind (set_tip (Some pindexNew) cs) (\<lambda>cs. returns (Block_ok, cs)))
           | Block_invalid corruption \<Rightarrow>
               run_bind (InvalidBlockFound pindexNew corruption cs) (\<lambda>cs. returns (Block_invalid corruption, cs))
           | Block_error \<Rightarrow> returns (Block_error, cs)
           | Flush_error \<Rightarrow>
               run_bind (connected_status (bc_hashGenesisBlock bc) pindexNew cs) (\<lambda>cs. returns (Flush_error, cs)))"

section \<open>One step towards a candidate\<close>

partial_function (option) disconnect_loop ::
  "block_checks \<Rightarrow> addr option \<Rightarrow> chain_state \<Rightarrow> (cs_error, bool \<times> chain_state) run" where
  "disconnect_loop bc pindexFork cs =
     (if Tip (cs_chain cs) \<noteq> None \<and> Tip (cs_chain cs) \<noteq> pindexFork then
        (case DisconnectTip bc cs of
           None \<Rightarrow> None
         | Some (Inl e) \<Rightarrow> Some (Inl e)
         | Some (Inr (ok, cs)) \<Rightarrow> if ok then disconnect_loop bc pindexFork cs else Some (Inr (False, cs)))
      else Some (Inr (True, cs)))"

text \<open>The entries above \<open>nHeight\<close> on the way down from \<open>pindexIter\<close>, the highest first.\<close>

partial_function (option) to_connect :: "store \<Rightarrow> int \<Rightarrow> addr option \<Rightarrow> addr list option" where
  "to_connect s nHeight pindexIter =
     (case pindexIter of
        None \<Rightarrow> Some []
      | Some a \<Rightarrow>
          if int (bi_nHeight (s a)) \<noteq> nHeight
          then Option.bind (to_connect s nHeight (bi_pprev (s a))) (\<lambda>as. Some (a # as))
          else Some [])"

text \<open>How the loop over the blocks of a batch ends.\<close>

datatype batch_end = Go_on | Better | Invalid_found | System_error

fun connect_blocks ::
  "block_checks \<Rightarrow> addr option \<Rightarrow> addr \<Rightarrow> addr list \<Rightarrow> chain_state \<Rightarrow> (cs_error, batch_end \<times> chain_state) run" where
  "connect_blocks bc pindexOldTip front [] cs = returns (Go_on, cs)"
| "connect_blocks bc pindexOldTip front (pindexConnect # rest) cs =
     run_bind (ConnectTip bc pindexConnect cs) (\<lambda>(v, cs).
       case v of
         Block_invalid corruption \<Rightarrow>
           if \<not> corruption
           then run_bind (InvalidChainFound front cs) (\<lambda>cs. returns (Invalid_found, cs))
           else returns (Invalid_found, cs)
       | Block_error \<Rightarrow> returns (System_error, cs)
       | Flush_error \<Rightarrow> returns (System_error, cs)
       | Block_ok \<Rightarrow>
           run_bind (PruneBlockIndexCandidates cs) (\<lambda>cs.
             case Tip (cs_chain cs) of
               None \<Rightarrow> Some (Inl Cs_null)
             | Some t \<Rightarrow>
                 if more_work (cs_index cs) t pindexOldTip then returns (Better, cs)
                 else connect_blocks bc pindexOldTip front rest cs))"

text \<open>The loop over batches of at most 32 blocks.\<close>

partial_function (option) connect_batches ::
  "block_checks \<Rightarrow> addr option \<Rightarrow> addr \<Rightarrow> int \<Rightarrow> chain_state \<Rightarrow> (cs_error, batch_end \<times> chain_state) run" where
  "connect_batches bc pindexOldTip pindexMostWork nHeight cs =
     (if nHeight \<noteq> int (bi_nHeight (cs_index cs pindexMostWork)) then
        (let nTargetHeight = min (nHeight + 32) (int (bi_nHeight (cs_index cs pindexMostWork)))
         in case GetAncestor (cs_index cs) pindexMostWork nTargetHeight of
              Inl e \<Rightarrow> Some (Inl (Cs_chain e))
            | Inr pindexIter \<Rightarrow>
                (case to_connect (cs_index cs) nHeight pindexIter of
                   None \<Rightarrow> None
                 | Some vpindexToConnect \<Rightarrow>
                     (case connect_blocks bc pindexOldTip (hd vpindexToConnect) (rev vpindexToConnect) cs of
                        None \<Rightarrow> None
                      | Some (Inl e) \<Rightarrow> Some (Inl e)
                      | Some (Inr (r, cs)) \<Rightarrow>
                          if r = Go_on then connect_batches bc pindexOldTip pindexMostWork nTargetHeight cs
                          else Some (Inr (r, cs)))))
      else Some (Inr (Go_on, cs)))"

text \<open>The step: whether it succeeded, \<^verbatim>\<open>fInvalidFound\<close>, and the new state.\<close>

definition ActivateBestChainStep ::
  "block_checks \<Rightarrow> addr \<Rightarrow> chain_state \<Rightarrow> (cs_error, bool \<times> bool \<times> chain_state) run" where
  "ActivateBestChainStep bc pindexMostWork cs =
     (case FindFork (cs_index cs) (cs_chain cs) (Some pindexMostWork) of
        Inl e \<Rightarrow> Some (Inl (Cs_chain e))
      | Inr None \<Rightarrow> None
      | Inr (Some pindexFork) \<Rightarrow>
          run_bind (disconnect_loop bc pindexFork cs) (\<lambda>(ok, cs').
            if \<not> ok then returns (False, False, cs')
            else
              run_bind
                (connect_batches bc (Tip (cs_chain cs)) pindexMostWork
                   (case pindexFork of None \<Rightarrow> - 1 | Some f \<Rightarrow> int (bi_nHeight (cs_index cs' f))) cs')
                (\<lambda>(r, cs). returns (r \<noteq> System_error, r = Invalid_found, cs))))"

section \<open>Activating the best chain\<close>

text \<open>
  The inner loop of \<^verbatim>\<open>ActivateBestChain\<close>: it goes on until the tip is at least as good as the one
  it started from. The result is \<open>None\<close> if a step failed, otherwise \<^verbatim>\<open>pindexMostWork\<close>,
  \<^verbatim>\<open>pindexNewTip\<close> and \<^verbatim>\<open>blocks_connected\<close>.
\<close>

partial_function (option) activate_inner ::
  "block_checks \<Rightarrow> addr option \<Rightarrow> addr option \<Rightarrow> addr option \<Rightarrow> bool \<Rightarrow> chain_state \<Rightarrow>
   (cs_error, (addr option \<times> addr option \<times> bool) option \<times> chain_state) run" where
  "activate_inner bc starting_tip pindexMostWork pindexNewTip blocks_connected cs =
     (case (case pindexMostWork of None \<Rightarrow> FindMostWorkChain cs | Some m \<Rightarrow> returns (Some m, cs)) of
        None \<Rightarrow> None
      | Some (Inl e) \<Rightarrow> Some (Inl e)
      | Some (Inr (most, cs)) \<Rightarrow>
          if most = None \<or> most = Tip (cs_chain cs)
          then Some (Inr (Some (most, pindexNewTip, blocks_connected), cs))
          else
            (case ActivateBestChainStep bc (the most) cs of
               None \<Rightarrow> None
             | Some (Inl e) \<Rightarrow> Some (Inl e)
             | Some (Inr (ok, fInvalidFound, cs)) \<Rightarrow>
                 if \<not> ok then Some (Inr (None, cs))
                 else
                   (let most = (if fInvalidFound then None else most); tip = Tip (cs_chain cs)
                    in if tip = None \<or>
                          (starting_tip \<noteq> None \<and> CBlockIndexWorkComparator (cs_index cs) (the tip) (the starting_tip))
                       then activate_inner bc starting_tip most tip True cs
                       else Some (Inr (Some (most, tip, True), cs)))))"

text \<open>The outer loop, in a run that is not interrupted by a shutdown.\<close>

partial_function (option) activate_outer ::
  "block_checks \<Rightarrow> addr option \<Rightarrow> addr option \<Rightarrow> chain_state \<Rightarrow> (cs_error, bool \<times> chain_state) run" where
  "activate_outer bc pindexMostWork pindexNewTip cs =
     (case activate_inner bc (Tip (cs_chain cs)) pindexMostWork pindexNewTip False cs of
        None \<Rightarrow> None
      | Some (Inl e) \<Rightarrow> Some (Inl e)
      | Some (Inr (None, cs)) \<Rightarrow> Some (Inr (False, cs))
      | Some (Inr (Some (most, tip, blocks_connected), cs)) \<Rightarrow>
          if \<not> blocks_connected then Some (Inr (True, cs))
          else if tip \<noteq> most then activate_outer bc most tip cs
          else Some (Inr (True, cs)))"

definition ActivateBestChain ::
  "block_checks \<Rightarrow> chain_state \<Rightarrow> (cs_error, bool \<times> chain_state) run" where
  "ActivateBestChain bc cs = activate_outer bc None None cs"

section \<open>New blocks\<close>

text \<open>\<^verbatim>\<open>ComputeStakeModifier\<close> of \<^verbatim>\<open>pos.cpp\<close>; \<open>H\<close> is the double hash.\<close>

definition ComputeStakeModifier :: "(bytes \<Rightarrow> uint256) \<Rightarrow> store \<Rightarrow> addr option \<Rightarrow> uint256 \<Rightarrow> uint256" where
  "ComputeStakeModifier H s pindexPrev kernl =
     (case pindexPrev of
        None \<Rightarrow> 0
      | Some p \<Rightarrow> H (ser_uint256 kernl @ ser_uint256 (bi_nStakeModifier (s p))))"

definition find_block :: "chain_state \<Rightarrow> uint256 \<Rightarrow> addr option" where
  "find_block cs hash = List.find (\<lambda>a. bi_hash (cs_index cs a) = hash) (cs_blocks cs)"

definition CBlockIndex_of :: "CBlockHeader \<Rightarrow> uint256 \<Rightarrow> CBlockIndex" where
  "CBlockIndex_of h hash =
     \<lparr>bi_hash = hash, bi_pprev = None, bi_pskip = None, bi_nHeight = 0,
      bi_nChainWork = base_uint_of_uint64 0, bi_nTx = 0, bi_nChainTx = 0, bi_nStatus = 0,
      bi_nVersion = hdr_nVersion h, bi_nTime = hdr_nTime h, bi_nBits = hdr_nBits h, bi_nTimeMax = 0,
      bi_prevoutStake = hdr_prevoutStake h, bi_nStakeModifier = 0, bi_nSequenceId = 0\<rparr>"

text \<open>The new entry is linked to its parent, if that is known.\<close>

definition link_parent :: "addr \<Rightarrow> addr option \<Rightarrow> store \<Rightarrow> chain_error + store" where
  "link_parent a miPrev s =
     (case miPrev of
        None \<Rightarrow> Inr s
      | Some p \<Rightarrow> BuildSkip a (s(a := (s a)\<lparr>bi_pprev := Some p, bi_nHeight := bi_nHeight (s p) + 1\<rparr>)))"

text \<open>
  \<^verbatim>\<open>AddToBlockIndex\<close>: \<open>H\<close> is the double hash, \<open>hash\<close> the hash of the header, \<open>new\<close> the address of the
  new entry. The result is the entry of the hash.
\<close>

definition AddToBlockIndex ::
  "(bytes \<Rightarrow> uint256) \<Rightarrow> CBlockHeader \<Rightarrow> uint256 \<Rightarrow> addr \<Rightarrow> chain_state \<Rightarrow> cs_error + addr \<times> chain_state" where
  "AddToBlockIndex H block hash new cs =
     (case find_block cs hash of
        Some a \<Rightarrow> Inr (a, cs)
      | None \<Rightarrow>
          let b = CBlockIndex_of block hash;
              stakeSeen = (if Index_IsProofOfStake b
                           then List.insert (bi_prevoutStake b, bi_nTime b) (cs_setStakeSeen cs)
                           else cs_setStakeSeen cs);
              miPrev = List.find (\<lambda>a. bi_hash (((cs_index cs)(new := b)) a) = hdr_hashPrevBlock block)
                         (new # cs_blocks cs)
          in case link_parent new miPrev ((cs_index cs)(new := b)) of
               Inl e \<Rightarrow> Inl (Cs_chain e)
             | Inr s \<Rightarrow>
                 (case GetBlockProof (s new) of
                    Inl e \<Rightarrow> Inl (Cs_uint e)
                  | Inr proof \<Rightarrow>
                      (let pprev = bi_pprev (s new);
                           b = (s new)\<lparr>bi_nTimeMax := (case pprev of None \<Rightarrow> bi_nTime (s new)
                                         | Some p \<Rightarrow> max (bi_nTimeMax (s p)) (bi_nTime (s new))),
                                 bi_nChainWork := base_uint_add (case pprev of None \<Rightarrow> base_uint_of_uint64 0
                                         | Some p \<Rightarrow> bi_nChainWork (s p)) proof,
                                 bi_nStakeModifier := ComputeStakeModifier H s pprev
                                         (if IsProofOfStake block then outpoint_hash (hdr_prevoutStake block) else hash)\<rparr>
                       in case RaiseValidity 2 b of
                            Inl e \<Rightarrow> Inl (Cs_chain e)
                          | Inr (_, b) \<Rightarrow>
                              Inr (new, cs\<lparr>cs_index := s(new := b), cs_blocks := new # cs_blocks cs,
                                cs_setStakeSeen := stakeSeen,
                                cs_bestHeader := (case cs_bestHeader cs of
                                    None \<Rightarrow> Some new
                                  | Some h \<Rightarrow> if CompareTo (bi_nChainWork ((s(new := b)) h)) (bi_nChainWork b) < 0
                                             then Some new else Some h)\<rparr>))))"

definition BLOCK_OPT_WITNESS :: uint32 where "BLOCK_OPT_WITNESS = 128"

definition insert_candidate :: "addr \<Rightarrow> chain_state \<Rightarrow> chain_state" where
  "insert_candidate a cs = cs\<lparr>cs_candidates := List.insert a (cs_candidates cs)\<rparr>"

text \<open>One entry of the queue: its transactions are counted, it may become a candidate.\<close>

definition link_block :: "addr \<Rightarrow> chain_state \<Rightarrow> chain_state" where
  "link_block a cs =
     (let s = cs_index cs;
          b = (s a)\<lparr>bi_nChainTx := (case bi_pprev (s a) of None \<Rightarrow> 0 | Some p \<Rightarrow> bi_nChainTx (s p)) + bi_nTx (s a),
                bi_nSequenceId := cs_nBlockSequenceId cs\<rparr>;
          cs = cs\<lparr>cs_index := s(a := b), cs_nBlockSequenceId := cs_nBlockSequenceId cs + 1\<rparr>
      in case Tip (cs_chain cs) of
           None \<Rightarrow> insert_candidate a cs
         | Some t \<Rightarrow> if CBlockIndexWorkComparator (cs_index cs) a t then cs else insert_candidate a cs)"

partial_function (option) link_queue :: "addr list \<Rightarrow> chain_state \<Rightarrow> chain_state option" where
  "link_queue queue cs =
     (case queue of
        [] \<Rightarrow> Some cs
      | a # rest \<Rightarrow>
          (let cs = link_block a cs
           in link_queue (rest @ map snd (filter (\<lambda>(p, _). p = a) (cs_unlinked cs)))
                (cs\<lparr>cs_unlinked := filter (\<lambda>(p, _). p \<noteq> a) (cs_unlinked cs)\<rparr>)))"

text \<open>
  \<^verbatim>\<open>ReceivedBlockTransactions\<close> of a block with \<open>n\<close> transactions; \<open>witness\<close> is \<^verbatim>\<open>IsWitnessEnabled\<close> of its
  parent.
\<close>

definition ReceivedBlockTransactions :: "nat \<Rightarrow> bool \<Rightarrow> addr \<Rightarrow> chain_state \<Rightarrow> (cs_error, chain_state) run" where
  "ReceivedBlockTransactions n witness pindexNew cs =
     (let b = (cs_index cs pindexNew)\<lparr>bi_nTx := of_nat n, bi_nChainTx := 0\<rparr>;
          b = b\<lparr>bi_nStatus := bi_nStatus b OR BLOCK_HAVE_DATA OR (if witness then BLOCK_OPT_WITNESS else 0)\<rparr>
      in case RaiseValidity 3 b of
           Inl e \<Rightarrow> Some (Inl (Cs_chain e))
         | Inr (_, b) \<Rightarrow>
             (let s = (cs_index cs)(pindexNew := b); cs = cs\<lparr>cs_index := s\<rparr>
              in case bi_pprev b of
                   None \<Rightarrow> (case link_queue [pindexNew] cs of None \<Rightarrow> None | Some cs \<Rightarrow> returns cs)
                 | Some p \<Rightarrow>
                     if HaveTxsDownloaded (s p)
                     then (case link_queue [pindexNew] cs of None \<Rightarrow> None | Some cs \<Rightarrow> returns cs)
                     else (case IsValid 2 (s p) of
                             Inl e \<Rightarrow> Some (Inl (Cs_chain e))
                           | Inr valid \<Rightarrow>
                               returns (if valid then cs\<lparr>cs_unlinked := cs_unlinked cs @ [(p, pindexNew)]\<rparr> else cs))))"

section \<open>Requests of the operator\<close>

definition PreciousBlock :: "block_checks \<Rightarrow> addr \<Rightarrow> chain_state \<Rightarrow> (cs_error, bool \<times> chain_state) run" where
  "PreciousBlock bc pindex cs =
     (case Tip (cs_chain cs) of
        None \<Rightarrow> Some (Inl Cs_null)
      | Some t \<Rightarrow>
          let s = cs_index cs; work = bi_nChainWork (s t) in
          if CompareTo (bi_nChainWork (s pindex)) work < 0 then returns (True, cs)
          else
            let rev_id = (if CompareTo work (cs_nLastPreciousChainwork cs) > 0 then - 1 else cs_nBlockReverseSequenceId cs);
                cs = (erase_candidate pindex cs)\<lparr>cs_nLastPreciousChainwork := work,
                  cs_index := s(pindex := (s pindex)\<lparr>bi_nSequenceId := rev_id\<rparr>),
                  cs_nBlockReverseSequenceId := (if rev_id > - (2 ^ 31) then rev_id - 1 else rev_id)\<rparr>
            in case IsValid 3 (cs_index cs pindex) of
                 Inl e \<Rightarrow> Some (Inl (Cs_chain e))
               | Inr valid \<Rightarrow>
                   run_bind (if valid \<and> HaveTxsDownloaded (cs_index cs pindex)
                             then PruneBlockIndexCandidates (insert_candidate pindex cs) else returns cs)
                     (ActivateBestChain bc))"

text \<open>The loop of \<^verbatim>\<open>InvalidateBlock\<close>: \<open>None\<close> if the tip could not be disconnected, otherwise \<^verbatim>\<open>to_mark_failed\<close>.\<close>

partial_function (option) invalidate_loop ::
  "block_checks \<Rightarrow> addr \<Rightarrow> addr \<Rightarrow> chain_state \<Rightarrow> (cs_error, addr option \<times> chain_state) run" where
  "invalidate_loop bc pindex to_mark_failed cs =
     (if \<not> Contains (cs_index cs) (cs_chain cs) pindex then Some (Inr (Some to_mark_failed, cs))
      else
        (case Tip (cs_chain cs) of
           None \<Rightarrow> Some (Inl Cs_null)
         | Some invalid_walk_tip \<Rightarrow>
             (case DisconnectTip bc cs of
                None \<Rightarrow> None
              | Some (Inl e) \<Rightarrow> Some (Inl e)
              | Some (Inr (ok, cs)) \<Rightarrow>
                  if \<not> ok then Some (Inr (None, cs))
                  else if bi_pprev (cs_index cs invalid_walk_tip) \<noteq> Tip (cs_chain cs) then Some (Inl Cs_assert)
                  else
                    (case bi_pprev (cs_index cs invalid_walk_tip) of
                       None \<Rightarrow> Some (Inl Cs_null)
                     | Some pprev \<Rightarrow>
                         (let cs = insert_candidate pprev
                                (erase_candidate invalid_walk_tip (add_status invalid_walk_tip BLOCK_FAILED_VALID cs));
                              cs = (if pprev = to_mark_failed \<and>
                                       bi_nStatus (cs_index cs to_mark_failed) AND BLOCK_FAILED_VALID \<noteq> 0
                                    then set_status to_mark_failed
                                      ((bi_nStatus (cs_index cs to_mark_failed) XOR BLOCK_FAILED_VALID) OR BLOCK_FAILED_CHILD) cs
                                    else cs)
                          in invalidate_loop bc pindex invalid_walk_tip cs)))))"

definition candidate_again :: "chain_state \<Rightarrow> addr \<Rightarrow> (cs_error, bool) run" where
  "candidate_again cs a =
     (case IsValid 3 (cs_index cs a) of
        Inl e \<Rightarrow> Some (Inl (Cs_chain e))
      | Inr valid \<Rightarrow>
          if valid \<and> HaveTxsDownloaded (cs_index cs a) then
            (case Tip (cs_chain cs) of
               None \<Rightarrow> Some (Inl Cs_null)
             | Some t \<Rightarrow> returns (\<not> CBlockIndexWorkComparator (cs_index cs) a t))
          else returns False)"

fun candidates_again :: "addr list \<Rightarrow> chain_state \<Rightarrow> (cs_error, chain_state) run" where
  "candidates_again [] cs = returns cs"
| "candidates_again (a # as) cs =
     run_bind (candidate_again cs a) (\<lambda>again.
       candidates_again as (if again then insert_candidate a cs else cs))"

definition InvalidateBlock :: "block_checks \<Rightarrow> addr \<Rightarrow> chain_state \<Rightarrow> (cs_error, bool \<times> chain_state) run" where
  "InvalidateBlock bc pindex cs =
     run_bind (invalidate_loop bc pindex pindex cs) (\<lambda>(to_mark, cs).
       case to_mark of
         None \<Rightarrow> returns (False, cs)
       | Some to_mark_failed \<Rightarrow>
           if Contains (cs_index cs) (cs_chain cs) to_mark_failed then returns (False, cs)
           else
             let cs = erase_candidate to_mark_failed (add_status to_mark_failed BLOCK_FAILED_VALID cs);
                 cs = cs\<lparr>cs_failed := List.insert to_mark_failed (cs_failed cs)\<rparr>
             in run_bind (candidates_again (cs_blocks cs) cs) (\<lambda>cs.
                run_bind (InvalidChainFound to_mark_failed cs) (\<lambda>cs. returns (True, cs))))"

definition clear_failed :: "addr \<Rightarrow> chain_state \<Rightarrow> chain_state" where
  "clear_failed a cs = set_status a (bi_nStatus (cs_index cs a) AND NOT BLOCK_FAILED_MASK) cs"

text \<open>The first loop of \<^verbatim>\<open>ResetBlockFailureFlags\<close>: the entry and its descendants.\<close>

fun reset_descendants :: "addr \<Rightarrow> nat \<Rightarrow> addr list \<Rightarrow> chain_state \<Rightarrow> (cs_error, chain_state) run" where
  "reset_descendants pindex nHeight [] cs = returns cs"
| "reset_descendants pindex nHeight (a # as) cs =
     (case IsValid 3 (cs_index cs a) of
        Inl e \<Rightarrow> Some (Inl (Cs_chain e))
      | Inr valid \<Rightarrow>
          (case (if valid then Inr None else GetAncestor (cs_index cs) a (int nHeight)) of
             Inl e \<Rightarrow> Some (Inl (Cs_chain e))
           | Inr q \<Rightarrow>
               if valid \<or> q \<noteq> Some pindex then reset_descendants pindex nHeight as cs
               else
                 let cs = clear_failed a cs in
                 (case IsValid 3 (cs_index cs a) of
                    Inl e \<Rightarrow> Some (Inl (Cs_chain e))
                  | Inr valid \<Rightarrow>
                      if valid \<and> HaveTxsDownloaded (cs_index cs a) \<and> Tip (cs_chain cs) = None then Some (Inl Cs_null)
                      else
                        let cs = (if valid \<and> HaveTxsDownloaded (cs_index cs a) \<and>
                                     CBlockIndexWorkComparator (cs_index cs) (the (Tip (cs_chain cs))) a
                                  then insert_candidate a cs else cs);
                            cs = (if cs_bestInvalid cs = Some a then cs\<lparr>cs_bestInvalid := None\<rparr> else cs)
                        in reset_descendants pindex nHeight as (cs\<lparr>cs_failed := removeAll a (cs_failed cs)\<rparr>))))"

text \<open>The second loop: its ancestors.\<close>

partial_function (option) reset_ancestors :: "addr option \<Rightarrow> chain_state \<Rightarrow> chain_state option" where
  "reset_ancestors pindex cs =
     (case pindex of
        None \<Rightarrow> Some cs
      | Some a \<Rightarrow>
          reset_ancestors (bi_pprev (cs_index cs a))
            (if bi_nStatus (cs_index cs a) AND BLOCK_FAILED_MASK \<noteq> 0
             then (clear_failed a cs)\<lparr>cs_failed := removeAll a (cs_failed cs)\<rparr> else cs))"

definition ResetBlockFailureFlags :: "addr \<Rightarrow> chain_state \<Rightarrow> (cs_error, chain_state) run" where
  "ResetBlockFailureFlags pindex cs =
     run_bind (reset_descendants pindex (bi_nHeight (cs_index cs pindex)) (cs_blocks cs) cs) (\<lambda>cs.
       case reset_ancestors (Some pindex) cs of None \<Rightarrow> None | Some cs \<Rightarrow> returns cs)"

section \<open>The order of candidates is linear\<close>

text \<open>The key that the comparator orders by.\<close>

definition work_key :: "store \<Rightarrow> addr \<Rightarrow> int \<times> int \<times> int" where
  "work_key s a = (int (val (bi_nChainWork (s a))), - bi_nSequenceId (s a), - int a)"

lemma comparator_key:
  assumes "limbs_ok (bi_nChainWork (s a))" "limbs_ok (bi_nChainWork (s b))"
  shows "CBlockIndexWorkComparator s a b \<longleftrightarrow> work_key s a < work_key s b"
  using assms by (auto simp: CBlockIndexWorkComparator_def work_key_def CompareTo_order less_prod_def)

lemma work_key_eq [simp]: "work_key s a = work_key s b \<longleftrightarrow> a = b"
  by (auto simp: work_key_def)

lemma last_candidate_max:
  assumes "\<forall>c \<in> set cands. limbs_ok (bi_nChainWork (s c))"
  shows "case last_candidate s cands of None \<Rightarrow> cands = []
    | Some m \<Rightarrow> m \<in> set cands \<and> (\<forall>c \<in> set cands. work_key s c \<le> work_key s m)"
  using assms
proof (induction cands)
  case (Cons c cands)
  then show ?case
    by (cases "last_candidate s cands") (auto simp: comparator_key not_less intro: order.trans)
qed simp

section \<open>Changing the status keeps the tree\<close>

definition with_status :: "store \<Rightarrow> (addr \<Rightarrow> uint32) \<Rightarrow> store" where
  "with_status s st a = (s a)\<lparr>bi_nStatus := st a\<rparr>"

lemma with_status_fields [simp]:
  "bi_pprev (with_status s st a) = bi_pprev (s a)" "bi_pskip (with_status s st a) = bi_pskip (s a)"
  "bi_nHeight (with_status s st a) = bi_nHeight (s a)" "bi_nChainWork (with_status s st a) = bi_nChainWork (s a)"
  "bi_nSequenceId (with_status s st a) = bi_nSequenceId (s a)" "bi_nStatus (with_status s st a) = st a"
  "bi_nChainTx (with_status s st a) = bi_nChainTx (s a)" "bi_hash (with_status s st a) = bi_hash (s a)"
  by (simp_all add: with_status_def)

lemma with_status_upd [simp]:
  "(with_status s st)(a := (with_status s st a)\<lparr>bi_nStatus := x\<rparr>) = with_status s (st(a := x))"
  by (auto simp: with_status_def)

lemma with_status_self: "with_status s (\<lambda>a. bi_nStatus (s a)) = s"
  by (auto simp: with_status_def)

lemma go_back_with_status [simp]: "go_back (with_status s st) n a = go_back s n a"
  by (induction n arbitrary: a) (simp_all cong: bind_option_cong)

lemma naive_ancestor_with_status [simp]: "naive_ancestor (with_status s st) = naive_ancestor s"
  by (intro ext) (simp add: naive_ancestor_def)

lemma tree_ok_with_status [simp]: "tree_ok (with_status s st) A \<longleftrightarrow> tree_ok s A"
  by (simp add: tree_ok_def)

lemma path_to_with_status [simp]: "path_to (with_status s st) = path_to s"
  by (intro ext) (simp add: path_to_def)

lemma chain_ok_with_status [simp]: "chain_ok (with_status s st) A c \<longleftrightarrow> chain_ok s A c"
  by (simp add: chain_ok_def)

lemma Contains_with_status [simp]: "Contains (with_status s st) = Contains s"
  by (intro ext) (simp add: Contains_def)

lemma highest_with_status [simp]: "highest (with_status s st) p P r \<longleftrightarrow> highest s p P r"
  by (simp add: highest_def split: option.split)

lemma work_key_with_status [simp]: "work_key (with_status s st) = work_key s"
  by (intro ext) (simp add: work_key_def)

section \<open>Ancestors\<close>

definition ancestor :: "store \<Rightarrow> addr \<Rightarrow> addr \<Rightarrow> bool" where
  "ancestor s a x \<longleftrightarrow> naive_ancestor s a (bi_nHeight (s x)) = Some x"

lemma ancestor_with_status [simp]: "ancestor (with_status s st) = ancestor s"
  by (intro ext) (simp add: ancestor_def)

lemma ancestor_refl [simp]: "ancestor s a a"
  by (simp add: ancestor_def)

lemma ancestor_at:
  assumes "tree_ok s A" "a \<in> A" "naive_ancestor s a h = Some x"
  shows "ancestor s a x" "x \<in> A" "bi_nHeight (s x) = h"
  using naive_ancestor_ok [OF assms(1,2) naive_ancestor_le [OF assms(3)]] assms(3) by (auto simp: ancestor_def)

lemma ancestor_in: "tree_ok s A \<Longrightarrow> a \<in> A \<Longrightarrow> ancestor s a x \<Longrightarrow> x \<in> A"
  using ancestor_at(2) unfolding ancestor_def by blast

lemma ancestor_le: "ancestor s a x \<Longrightarrow> bi_nHeight (s x) \<le> bi_nHeight (s a)"
  using naive_ancestor_le unfolding ancestor_def by blast

lemma ancestor_trans:
  assumes "tree_ok s A" "a \<in> A" "ancestor s a b" "ancestor s b c"
  shows "ancestor s a c"
  using naive_ancestor_trans [OF assms(1,2), of "bi_nHeight (s b)" b "bi_nHeight (s c)"] assms(3,4) ancestor_le [OF assms(4)]
  by (simp add: ancestor_def)

lemma ancestor_pprev:
  assumes "tree_ok s A" "a \<in> A" "bi_pprev (s a) = Some p"
  shows "ancestor s a p" "ancestor s a x \<longleftrightarrow> x = a \<or> ancestor s p x"
proof -
  have h: "bi_nHeight (s a) = Suc (bi_nHeight (s p))" using tree_okD(3) [OF assms] .
  have eq: "naive_ancestor s a h = naive_ancestor s p h" if "h < bi_nHeight (s a)" for h
    using naive_ancestor_pprev [OF assms that] .
  show "ancestor s a p" using eq [of "bi_nHeight (s p)"] h by (simp add: ancestor_def)
  show "ancestor s a x \<longleftrightarrow> x = a \<or> ancestor s p x"
  proof (cases "bi_nHeight (s x) < bi_nHeight (s a)")
    case True
    then have "x \<noteq> a" by blast
    then show ?thesis unfolding ancestor_def eq [OF True] by simp
  next
    case False
    then have "\<not> ancestor s p x" using ancestor_le [of s p x] h by linarith
    moreover have "x = a" if "ancestor s a x"
    proof -
      have "bi_nHeight (s x) = bi_nHeight (s a)" using ancestor_le [OF that] False by linarith
      with that show ?thesis by (simp add: ancestor_def)
    qed
    ultimately show ?thesis by auto
  qed
qed

lemma ancestor_root:
  assumes "tree_ok s A" "a \<in> A" "bi_pprev (s a) = None"
  shows "ancestor s a x \<longleftrightarrow> x = a"
proof -
  have "bi_nHeight (s a) = 0" using tree_okD(1) [OF assms(1,2)] assms(3) by simp
  then show ?thesis by (auto simp: ancestor_def naive_ancestor_def)
qed

lemma ancestor_child:
  assumes ok: "tree_ok s A" "m \<in> A" and anc: "ancestor s m x" "ancestor s m p" and h: "bi_nHeight (s x) = Suc (bi_nHeight (s p))"
  shows "bi_pprev (s x) = Some p"
proof -
  have x: "x \<in> A" using ancestor_in [OF ok anc(1)] .
  obtain q where q: "bi_pprev (s x) = Some q" using tree_okD(1) [OF ok(1) x] h by (cases "bi_pprev (s x)") simp_all
  have hq: "bi_nHeight (s q) = bi_nHeight (s p)" using tree_okD(3) [OF ok(1) x q] h by linarith
  have aq: "ancestor s m q" using ancestor_trans [OF ok anc(1) ancestor_pprev(1) [OF ok(1) x q]] .
  show ?thesis using anc(2) aq unfolding ancestor_def hq q by simp
qed

lemma Contains_path: "Contains s (path_to s t) x \<longleftrightarrow> ancestor s t x"
proof (cases "bi_nHeight (s x) \<le> bi_nHeight (s t)")
  case True
  then show ?thesis by (simp add: Contains_def chain_at_def ancestor_def)
next
  case False
  then show ?thesis using ancestor_le [of s t x] by (auto simp: Contains_def chain_at_def)
qed

lemma Tip_path [simp]: "Tip (path_to s t) = Some t"
  by (simp add: Tip_def)

section \<open>What the selection starts from and keeps\<close>

definition failed :: "store \<Rightarrow> addr \<Rightarrow> bool" where
  "failed s a \<longleftrightarrow> bi_nStatus (s a) AND BLOCK_FAILED_MASK \<noteq> 0"

definition has_data :: "store \<Rightarrow> addr \<Rightarrow> bool" where
  "has_data s a \<longleftrightarrow> bi_nStatus (s a) AND BLOCK_HAVE_DATA \<noteq> 0"

text \<open>An index: a tree with one root, in which the work grows from a block to its children.\<close>

definition index_ok :: "store \<Rightarrow> addr set \<Rightarrow> bool" where
  "index_ok s A \<longleftrightarrow> finite A \<and> tree_ok s A \<and> (\<forall>a \<in> A. limbs_ok (bi_nChainWork (s a))) \<and>
     (\<forall>a \<in> A. \<forall>p. bi_pprev (s a) = Some p \<longrightarrow> val (bi_nChainWork (s p)) < val (bi_nChainWork (s a))) \<and>
     (\<forall>a \<in> A. \<forall>b \<in> A. bi_nHeight (s a) = 0 \<and> bi_nHeight (s b) = 0 \<longrightarrow> a = b)"

text \<open>The blocks up to \<open>a\<close> are stored and not marked; for a good block they are also valid.\<close>

definition usable :: "store \<Rightarrow> addr \<Rightarrow> bool" where
  "usable s a \<longleftrightarrow> (\<forall>x. ancestor s a x \<longrightarrow> \<not> failed s x \<and> has_data s x)"

definition good :: "block_checks \<Rightarrow> store \<Rightarrow> addr \<Rightarrow> bool" where
  "good bc s a \<longleftrightarrow> (\<forall>x. ancestor s a x \<longrightarrow> \<not> failed s x \<and> has_data s x \<and> bc_connect bc x = Block_ok)"

definition linked :: "store \<Rightarrow> addr \<Rightarrow> bool" where
  "linked s a \<longleftrightarrow> (\<forall>x. ancestor s a x \<longrightarrow> HaveTxsDownloaded (s x) \<or> bi_nHeight (s x) = 0)"

definition marked :: "addr set \<Rightarrow> chain_state \<Rightarrow> addr set" where
  "marked A cs = {a \<in> A. failed (cs_index cs) a}"

text \<open>
  The state while the selection runs, starting from the index \<open>s\<close>, with tip \<open>t\<close>: only the status
  has changed, and no good block has been marked.
\<close>

definition sel_inv :: "block_checks \<Rightarrow> store \<Rightarrow> addr set \<Rightarrow> chain_state \<Rightarrow> addr \<Rightarrow> bool" where
  "sel_inv bc s A cs t \<longleftrightarrow> (\<exists>st. cs_index cs = with_status s st) \<and> cs_chain cs = path_to s t \<and> t \<in> A \<and> good bc s t \<and>
     (\<forall>c \<in> set (cs_candidates cs). c \<in> A \<and> linked s c) \<and>
     (\<forall>a \<in> A. (has_data (cs_index cs) a \<longleftrightarrow> has_data s a) \<and> (failed s a \<longrightarrow> failed (cs_index cs) a) \<and>
        (good bc s a \<longrightarrow> \<not> failed (cs_index cs) a))"

text \<open>Every good block that is not worse than \<open>b\<close> and than the tip is a candidate.\<close>

definition kept :: "block_checks \<Rightarrow> store \<Rightarrow> addr set \<Rightarrow> addr \<Rightarrow> addr \<Rightarrow> chain_state \<Rightarrow> bool" where
  "kept bc s A b t cs \<longleftrightarrow> (\<forall>a \<in> A. good bc s a \<and> work_key s b \<le> work_key s a \<and> work_key s t \<le> work_key s a \<longrightarrow>
     a \<in> set (cs_candidates cs))"

text \<open>Only blocks that are not good stop being candidates, and marks are only added.\<close>

definition shrinks :: "block_checks \<Rightarrow> store \<Rightarrow> addr set \<Rightarrow> chain_state \<Rightarrow> chain_state \<Rightarrow> bool" where
  "shrinks bc s A cs cs' \<longleftrightarrow> set (cs_candidates cs') \<subseteq> set (cs_candidates cs) \<and>
     (\<forall>a \<in> set (cs_candidates cs). good bc s a \<longrightarrow> a \<in> set (cs_candidates cs')) \<and> marked A cs \<subseteq> marked A cs'"

lemma index_okD:
  assumes "index_ok s A"
  shows "finite A" "tree_ok s A" "a \<in> A \<Longrightarrow> limbs_ok (bi_nChainWork (s a))"
    "a \<in> A \<Longrightarrow> bi_pprev (s a) = Some p \<Longrightarrow> val (bi_nChainWork (s p)) < val (bi_nChainWork (s a))"
    "a \<in> A \<Longrightarrow> b \<in> A \<Longrightarrow> bi_nHeight (s a) = 0 \<Longrightarrow> bi_nHeight (s b) = 0 \<Longrightarrow> a = b"
  using assms by (auto simp: index_ok_def)

lemma shrinks_trans: "shrinks bc s A cs cs' \<Longrightarrow> shrinks bc s A cs' cs'' \<Longrightarrow> shrinks bc s A cs cs''"
  unfolding shrinks_def by blast

lemma shrinks_kept: "shrinks bc s A cs cs' \<Longrightarrow> kept bc s A b t cs \<Longrightarrow> kept bc s A b t cs'"
  unfolding shrinks_def kept_def by blast

lemma good_usable: "good bc s a \<Longrightarrow> usable s a"
  by (simp add: good_def usable_def)

lemma good_ancestor: "tree_ok s A \<Longrightarrow> a \<in> A \<Longrightarrow> good bc s a \<Longrightarrow> ancestor s a x \<Longrightarrow> good bc s x"
  using ancestor_trans unfolding good_def by blast

lemma tree_induct [consumes 2, case_names root step]:
  assumes ok: "tree_ok s A" and a: "a \<in> A"
    and root: "\<And>a. a \<in> A \<Longrightarrow> bi_pprev (s a) = None \<Longrightarrow> P a"
    and step: "\<And>a p. a \<in> A \<Longrightarrow> bi_pprev (s a) = Some p \<Longrightarrow> p \<in> A \<Longrightarrow> P p \<Longrightarrow> P a"
  shows "P a"
  using a
proof (induction "bi_nHeight (s a)" arbitrary: a rule: less_induct)
  case less
  show ?case
  proof (cases "bi_pprev (s a)")
    case None
    then show ?thesis by (rule root [OF less.prems])
  next
    case (Some p)
    have "p \<in> A" "bi_nHeight (s p) < bi_nHeight (s a)" using tree_okD(2,3) [OF ok less.prems Some] by simp_all
    then show ?thesis using step [OF less.prems Some] less.hyps by blast
  qed
qed

lemma ancestor_work:
  assumes ok: "index_ok s A" and a: "a \<in> A" and x: "ancestor s a x"
  shows "x = a \<or> val (bi_nChainWork (s x)) < val (bi_nChainWork (s a))"
  using index_okD(2) [OF ok] a x
proof (induction a rule: tree_induct)
  case (root a)
  then show ?case using ancestor_root [OF index_okD(2) [OF ok]] by blast
next
  case (step a p)
  then show ?case using ancestor_pprev(2) [OF index_okD(2) [OF ok] step.hyps(1,2)] index_okD(4) [OF ok step.hyps(1,2)]
    by fastforce
qed

lemma ancestor_key:
  assumes "index_ok s A" "a \<in> A" "ancestor s a x"
  shows "work_key s x \<le> work_key s a"
  using ancestor_work [OF assms] by (auto simp: work_key_def less_eq_prod_def)

text \<open>The bits of the status.\<close>

lemma or_failed:
  "f = BLOCK_FAILED_VALID \<or> f = BLOCK_FAILED_CHILD \<Longrightarrow> (st OR f) AND BLOCK_FAILED_MASK \<noteq> 0"
  "f = BLOCK_FAILED_VALID \<or> f = BLOCK_FAILED_CHILD \<Longrightarrow> (st OR f) AND BLOCK_HAVE_DATA = st AND BLOCK_HAVE_DATA"
  by (auto simp: BLOCK_FAILED_VALID_def BLOCK_FAILED_CHILD_def BLOCK_FAILED_MASK_def BLOCK_HAVE_DATA_def
      bit.conj_disj_distrib2 or_eq_0_iff)

lemma sel_inv_add_failed:
  assumes inv: "sel_inv bc s A cs t" and a: "\<not> good bc s a" and f: "f = BLOCK_FAILED_VALID \<or> f = BLOCK_FAILED_CHILD"
  shows "sel_inv bc s A (erase_candidate a (add_status a f cs)) t"
    "shrinks bc s A cs (erase_candidate a (add_status a f cs))"
    "a \<in> A \<Longrightarrow> a \<in> marked A (erase_candidate a (add_status a f cs))"
proof -
  obtain st where st: "cs_index cs = with_status s st" using inv by (auto simp: sel_inv_def)
  have idx: "cs_index (erase_candidate a (add_status a f cs)) = with_status s (st(a := st a OR f))"
    by (simp add: erase_candidate_def add_status_def set_status_def st)
  show "sel_inv bc s A (erase_candidate a (add_status a f cs)) t"
    using inv a f or_failed unfolding sel_inv_def idx
    by (auto simp: erase_candidate_def add_status_def set_status_def st failed_def has_data_def)
  show "shrinks bc s A cs (erase_candidate a (add_status a f cs))"
    using a f or_failed unfolding shrinks_def marked_def idx
    by (auto simp: erase_candidate_def add_status_def set_status_def st failed_def)
  show "a \<in> marked A (erase_candidate a (add_status a f cs))" if "a \<in> A"
    using that f or_failed(1) unfolding marked_def idx by (auto simp: failed_def)
qed

lemma sel_inv_erase:
  assumes "sel_inv bc s A cs t" "\<not> good bc s a"
  shows "sel_inv bc s A (erase_candidate a cs) t" "shrinks bc s A cs (erase_candidate a cs)"
  using assms by (auto simp: sel_inv_def shrinks_def marked_def erase_candidate_def)

section \<open>Finding the best candidate\<close>

lemma test_path_ok:
  assumes ok: "tree_ok s A" and t: "t \<in> A" and a: "a \<in> A" and l: "linked s a"
  shows "\<exists>r. test_path (with_status s st) (path_to s t) (Some a) = Some (Inr r) \<and>
    (case r of
       None \<Rightarrow> \<forall>x. ancestor s a x \<longrightarrow> ancestor s t x \<or> \<not> failed (with_status s st) x \<and> has_data (with_status s st) x
     | Some (x, f) \<Rightarrow> ancestor s a x \<and> (if f then failed (with_status s st) x else \<not> has_data (with_status s st) x))"
  using ok a l
proof (induction a rule: tree_induct)
  case (root a)
  have "HaveTxsDownloaded (s a) \<or> bi_nHeight (s a) = 0" using root.prems by (simp add: linked_def)
  moreover have "HaveTxsDownloaded (with_status s st a) = HaveTxsDownloaded (s a)" by (simp add: HaveTxsDownloaded_def)
  moreover have "test_path (with_status s st) (path_to s t) None = Some (Inr None)" by (subst test_path.simps) simp
  ultimately show ?case
    using ancestor_root [OF ok root.hyps] root.hyps(2)
    by (subst test_path.simps) (auto simp: Contains_path failed_def has_data_def)
next
  case (step a p)
  note anc = ancestor_pprev(2) [OF ok step.hyps(1,2)]
  have lp: "linked s p" using step.prems by (simp add: linked_def anc)
  have la: "HaveTxsDownloaded (with_status s st a) \<or> bi_nHeight (s a) = 0"
    using step.prems by (simp add: linked_def HaveTxsDownloaded_def)
  show ?case
  proof (cases "ancestor s t a \<or> failed (with_status s st) a \<or> \<not> has_data (with_status s st) a")
    case True
    then show ?thesis using la ancestor_trans [OF ok t, of a]
      by (subst test_path.simps) (auto simp: Contains_path failed_def has_data_def)
  next
    case False
    then have "test_path (with_status s st) (path_to s t) (Some a) = test_path (with_status s st) (path_to s t) (Some p)"
      using la step.hyps(2) by (subst test_path.simps) (simp add: Contains_path failed_def has_data_def)
    moreover obtain r where r: "test_path (with_status s st) (path_to s t) (Some p) = Some (Inr r)" and
      spec: "case r of
         None \<Rightarrow> \<forall>x. ancestor s p x \<longrightarrow> ancestor s t x \<or> \<not> failed (with_status s st) x \<and> has_data (with_status s st) x
       | Some (x, f) \<Rightarrow> ancestor s p x \<and> (if f then failed (with_status s st) x else \<not> has_data (with_status s st) x)"
      using step.IH [OF lp] by blast
    ultimately show ?thesis using False by (intro exI [of _ r]) (cases r; auto simp: anc)
  qed
qed

lemma drop_failed_ok:
  assumes inv: "sel_inv bc s A cs t" and a: "\<not> good bc s a" "bi_pprev (s a) = Some p"
  shows "\<exists>cs'. drop_failed f a cs = Some (Inr cs') \<and> sel_inv bc s A cs' t \<and> shrinks bc s A cs cs' \<and>
    a \<notin> set (cs_candidates cs')"
proof -
  have p: "bi_pprev (cs_index cs a) = Some p" using inv a(2) by (auto simp: sel_inv_def)
  show ?thesis
  proof (cases f)
    case True
    then show ?thesis using sel_inv_add_failed [OF inv a(1), of BLOCK_FAILED_CHILD]
      by (simp add: drop_failed_def returns_def) (simp add: erase_candidate_def)
  next
    case False
    then show ?thesis using inv a(1) p
      by (auto simp: drop_failed_def returns_def sel_inv_def shrinks_def marked_def erase_candidate_def)
  qed
qed

lemma remove_path_ok:
  assumes ok: "tree_ok s A" and x: "\<not> good bc s x" and a: "a \<in> A" and anc: "ancestor s a x" and inv: "sel_inv bc s A cs t"
  shows "\<exists>cs'. remove_path x f a cs = Some (Inr cs') \<and> sel_inv bc s A cs' t \<and> shrinks bc s A cs cs' \<and>
    (a \<noteq> x \<longrightarrow> a \<notin> set (cs_candidates cs'))"
  using ok a anc inv
proof (induction a arbitrary: cs rule: tree_induct)
  case (root a)
  then have "x = a" using ancestor_root [OF ok root.hyps] by simp
  then show ?case using root.prems(2) by (subst remove_path.simps) (simp add: shrinks_def)
next
  case (step a p)
  show ?case
  proof (cases "a = x")
    case True
    then show ?thesis using step.prems(2) by (subst remove_path.simps) (simp add: shrinks_def)
  next
    case False
    then have anc: "ancestor s p x" using step.prems(1) ancestor_pprev(2) [OF ok step.hyps(1,2)] by simp
    have na: "\<not> good bc s a" using good_ancestor [OF ok step.hyps(1)] step.prems(1) x by blast
    have pp: "bi_pprev (cs_index cs a) = Some p" using step.prems(2) step.hyps(2) by (auto simp: sel_inv_def)
    obtain cs1 where d: "drop_failed f a cs = Some (Inr cs1)" "sel_inv bc s A cs1 t" "shrinks bc s A cs cs1"
      "a \<notin> set (cs_candidates cs1)"
      using drop_failed_ok [OF step.prems(2) na step.hyps(2)] by blast
    obtain cs2 where r: "remove_path x f p cs1 = Some (Inr cs2)" "sel_inv bc s A cs2 t" "shrinks bc s A cs1 cs2"
      using step.IH [OF anc d(2)] by blast
    have "remove_path x f a cs = Some (Inr cs2)" using False d(1) r(1) pp by (subst remove_path.simps) simp
    moreover have "a \<notin> set (cs_candidates cs2)" using d(4) r(3) by (auto simp: shrinks_def)
    ultimately show ?thesis using r(2) shrinks_trans [OF d(3) r(3)] by blast
  qed
qed

lemma sel_inv_more [simp]:
  "sel_inv bc s A (cs\<lparr>cs_bestInvalid := x\<rparr>) t = sel_inv bc s A cs t"
  "sel_inv bc s A (cs\<lparr>cs_failed := y\<rparr>) t = sel_inv bc s A cs t"
  "shrinks bc s A (cs\<lparr>cs_bestInvalid := x\<rparr>) cs' = shrinks bc s A cs cs'"
  "shrinks bc s A cs (cs'\<lparr>cs_bestInvalid := x\<rparr>) = shrinks bc s A cs cs'"
  "shrinks bc s A cs (cs'\<lparr>cs_failed := y\<rparr>) = shrinks bc s A cs cs'"
  "marked A (cs\<lparr>cs_bestInvalid := x\<rparr>) = marked A cs"
  "marked A (cs\<lparr>cs_failed := y\<rparr>) = marked A cs"
  by (simp_all add: sel_inv_def shrinks_def marked_def)

lemma sel_invD:
  assumes "sel_inv bc s A cs t"
  obtains st where "cs_index cs = with_status s st" "cs_chain cs = path_to s t" "t \<in> A" "good bc s t"
    "\<And>c. c \<in> set (cs_candidates cs) \<Longrightarrow> c \<in> A \<and> linked s c"
    "\<And>a. a \<in> A \<Longrightarrow> (has_data (cs_index cs) a \<longleftrightarrow> has_data s a) \<and> (failed s a \<longrightarrow> failed (cs_index cs) a) \<and>
        (good bc s a \<longrightarrow> \<not> failed (cs_index cs) a)"
  using assms unfolding sel_inv_def by blast

lemma good_self: "good bc s a \<Longrightarrow> \<not> failed s a \<and> has_data s a \<and> bc_connect bc a = Block_ok"
  by (simp add: good_def)

text \<open>The last candidate is at least as good as every good block.\<close>

lemma best_candidate:
  assumes idx: "index_ok s A" and b: "b \<in> A" "good bc s b" "work_key s t \<le> work_key s b"
    and inv: "sel_inv bc s A cs t" and keep: "kept bc s A b t cs"
  obtains m where "last_candidate (cs_index cs) (cs_candidates cs) = Some m" "m \<in> set (cs_candidates cs)"
    "\<forall>a \<in> A. good bc s a \<longrightarrow> work_key s a \<le> work_key s m"
proof -
  obtain st where st: "cs_index cs = with_status s st" using inv by (auto simp: sel_inv_def)
  have bc: "b \<in> set (cs_candidates cs)" using keep b by (simp add: kept_def)
  have lim: "\<forall>c \<in> set (cs_candidates cs). limbs_ok (bi_nChainWork (cs_index cs c))"
    using inv index_okD(3) [OF idx] by (auto simp: sel_inv_def)
  obtain m where m: "last_candidate (cs_index cs) (cs_candidates cs) = Some m" "m \<in> set (cs_candidates cs)"
    "\<forall>c \<in> set (cs_candidates cs). work_key s c \<le> work_key s m"
    using last_candidate_max [OF lim] bc by (cases "last_candidate (cs_index cs) (cs_candidates cs)") (auto simp: st)
  have "work_key s a \<le> work_key s m" if "a \<in> A" "good bc s a" for a
  proof (cases "work_key s b \<le> work_key s a")
    case True
    then have "a \<in> set (cs_candidates cs)" using keep that order.trans [OF b(3) True] by (simp add: kept_def)
    then show ?thesis using m(3) by blast
  next
    case False
    then show ?thesis using m(3) bc by fastforce
  qed
  with m(1,2) that show thesis by blast
qed

text \<open>The walk down from a candidate: it is usable, or its chain contains a block that is not good.\<close>

lemma test_candidate:
  assumes ok: "tree_ok s A" and inv: "sel_inv bc s A cs t" and m: "m \<in> set (cs_candidates cs)"
  obtains (usable) "test_path (cs_index cs) (cs_chain cs) (Some m) = Some (Inr None)" "usable (cs_index cs) m"
    | (bad) x f where "test_path (cs_index cs) (cs_chain cs) (Some m) = Some (Inr (Some (x, f)))"
        "ancestor s m x" "\<not> good bc s x"
proof -
  obtain st where st: "cs_index cs = with_status s st" "cs_chain cs = path_to s t" "t \<in> A" "good bc s t"
    and cands: "\<And>c. c \<in> set (cs_candidates cs) \<Longrightarrow> c \<in> A \<and> linked s c"
    and bits: "\<And>a. a \<in> A \<Longrightarrow> (has_data (cs_index cs) a \<longleftrightarrow> has_data s a) \<and> (failed s a \<longrightarrow> failed (cs_index cs) a) \<and>
        (good bc s a \<longrightarrow> \<not> failed (cs_index cs) a)"
    using inv by (rule sel_invD) blast
  have mA: "m \<in> A" "linked s m" using cands [OF m] by simp_all
  obtain r where r: "test_path (cs_index cs) (cs_chain cs) (Some m) = Some (Inr r)" and
    spec: "case r of
       None \<Rightarrow> \<forall>x. ancestor s m x \<longrightarrow> ancestor s t x \<or> \<not> failed (cs_index cs) x \<and> has_data (cs_index cs) x
     | Some (x, f) \<Rightarrow> ancestor s m x \<and> (if f then failed (cs_index cs) x else \<not> has_data (cs_index cs) x)"
    using test_path_ok [OF ok st(3) mA, of st] unfolding st(1,2) by blast
  show thesis
  proof (cases r)
    case None
    have "\<not> failed (cs_index cs) x \<and> has_data (cs_index cs) x" if x: "ancestor s m x" for x
    proof (cases "ancestor s t x")
      case True
      then have "good bc s x" using good_ancestor [OF ok st(3,4)] by blast
      then show ?thesis using bits [OF ancestor_in [OF ok mA(1) x]] good_self by blast
    qed (use spec x None in auto)
    then show thesis using usable r None by (simp add: usable_def st(1))
  next
    case (Some xf)
    obtain x f where xf: "xf = (x, f)" by fastforce
    have x: "ancestor s m x" "if f then failed (cs_index cs) x else \<not> has_data (cs_index cs) x"
      using spec by (simp_all add: Some xf)
    have "\<not> good bc s x" using bits [OF ancestor_in [OF ok mA(1) x(1)]] x(2) good_self by (auto split: if_splits)
    then show thesis using bad r x(1) by (simp add: Some xf)
  qed
qed

lemma FindMostWorkChain_ok:
  assumes idx: "index_ok s A" and b: "b \<in> A" "good bc s b" "work_key s t \<le> work_key s b"
    and inv: "sel_inv bc s A cs t" and keep: "kept bc s A b t cs"
  shows "\<exists>m cs'. FindMostWorkChain cs = Some (Inr (Some m, cs')) \<and> sel_inv bc s A cs' t \<and> shrinks bc s A cs cs' \<and>
    m \<in> set (cs_candidates cs') \<and> usable (cs_index cs') m \<and> (\<forall>a \<in> A. good bc s a \<longrightarrow> work_key s a \<le> work_key s m)"
  using inv keep
proof (induction "card (set (cs_candidates cs))" arbitrary: cs rule: less_induct)
  case less
  note ok = index_okD(2) [OF idx]
  obtain m where m: "last_candidate (cs_index cs) (cs_candidates cs) = Some m" "m \<in> set (cs_candidates cs)"
    "\<forall>a \<in> A. good bc s a \<longrightarrow> work_key s a \<le> work_key s m"
    using best_candidate [OF idx b less.prems] by blast
  have mA: "m \<in> A" using m(2) less.prems(1) by (simp add: sel_inv_def)
  from ok less.prems(1) m(2) show ?case
  proof (cases rule: test_candidate)
    case usable
    then have "FindMostWorkChain cs = Some (Inr (Some m, cs))"
      using m(1) by (subst FindMostWorkChain.simps) simp
    then show ?thesis using less.prems(1) m(2,3) usable(2) by (auto simp: shrinks_def)
  next
    case (bad x f)
    let ?cs = "if f \<and> more_work (cs_index cs) m (cs_bestInvalid cs) then cs\<lparr>cs_bestInvalid := Some m\<rparr> else cs"
    have inv: "sel_inv bc s A ?cs t" using less.prems(1) by simp
    obtain cs1 where c1: "remove_path x f m ?cs = Some (Inr cs1)" "sel_inv bc s A cs1 t" "shrinks bc s A ?cs cs1"
      "m \<noteq> x \<longrightarrow> m \<notin> set (cs_candidates cs1)"
      using remove_path_ok [OF ok bad(3) mA bad(2) inv] by blast
    let ?cs2 = "erase_candidate x cs1"
    note e = sel_inv_erase [OF c1(2) bad(3)]
    have "shrinks bc s A cs cs1" using c1(3) by (simp split: if_splits)
    then have sh: "shrinks bc s A cs ?cs2" using shrinks_trans e(2) by blast
    have "m \<notin> set (cs_candidates ?cs2)" using c1(4) by (auto simp: erase_candidate_def)
    then have "set (cs_candidates ?cs2) \<subset> set (cs_candidates cs)" using sh m(2) by (auto simp: shrinks_def)
    then have "card (set (cs_candidates ?cs2)) < card (set (cs_candidates cs))" by (intro psubset_card_mono) simp_all
    then obtain m' cs' where "FindMostWorkChain ?cs2 = Some (Inr (Some m', cs'))" "sel_inv bc s A cs' t" "shrinks bc s A ?cs2 cs'"
      "m' \<in> set (cs_candidates cs')" "usable (cs_index cs') m'" "\<forall>a \<in> A. good bc s a \<longrightarrow> work_key s a \<le> work_key s m'"
      using less.hyps [OF _ e(1) shrinks_kept [OF sh less.prems(2)]] by blast
    moreover from this(1) have "FindMostWorkChain cs = Some (Inr (Some m', cs'))"
      using m(1) bad(1) c1(1) by (subst FindMostWorkChain.simps) simp
    ultimately show ?thesis using shrinks_trans [OF sh] by blast
  qed
qed

section \<open>Moving the tip\<close>

text \<open>Every block is found valid or invalid for good, and can be taken off again.\<close>

definition checks_ok :: "block_checks \<Rightarrow> addr set \<Rightarrow> bool" where
  "checks_ok bc A \<longleftrightarrow>
     (\<forall>a \<in> A. (bc_connect bc a = Block_ok \<or> bc_connect bc a = Block_invalid False) \<and> bc_disconnect bc a)"

lemma sel_inv_status:
  assumes inv: "sel_inv bc s A cs t"
    and st: "st AND BLOCK_FAILED_MASK = bi_nStatus (cs_index cs a) AND BLOCK_FAILED_MASK"
      "st AND BLOCK_HAVE_DATA = bi_nStatus (cs_index cs a) AND BLOCK_HAVE_DATA"
  shows "sel_inv bc s A (set_status a st cs) t" "marked A (set_status a st cs) = marked A cs"
proof -
  obtain st0 where i: "cs_index cs = with_status s st0" using inv by (auto simp: sel_inv_def)
  then have i': "cs_index (set_status a st cs) = with_status s (st0(a := st))" by (simp add: set_status_def)
  have eq: "failed (cs_index (set_status a st cs)) = failed (cs_index cs)" "has_data (cs_index (set_status a st cs)) = has_data (cs_index cs)"
    unfolding i' using st by (auto simp: i failed_def has_data_def fun_eq_iff)
  have "cs_chain (set_status a st cs) = cs_chain cs" "cs_candidates (set_status a st cs) = cs_candidates cs"
    by (simp_all add: set_status_def)
  then show "sel_inv bc s A (set_status a st cs) t" "marked A (set_status a st cs) = marked A cs"
    using inv i' unfolding sel_inv_def marked_def eq by auto
qed

lemma raise_bits:
  "((st AND NOT BLOCK_VALID_MASK) OR 5) AND BLOCK_FAILED_MASK = st AND BLOCK_FAILED_MASK"
  "((st AND NOT BLOCK_VALID_MASK) OR 5) AND BLOCK_HAVE_DATA = st AND BLOCK_HAVE_DATA"
  "(st OR BLOCK_HAVE_UNDO) AND BLOCK_FAILED_MASK = st AND BLOCK_FAILED_MASK"
  "(st OR BLOCK_HAVE_UNDO) AND BLOCK_HAVE_DATA = st AND BLOCK_HAVE_DATA"
  by (simp_all add: BLOCK_VALID_MASK_def BLOCK_FAILED_MASK_def BLOCK_HAVE_DATA_def BLOCK_HAVE_UNDO_def
      bit.conj_disj_distrib2 and.assoc)

lemma scripts_level: "5 AND NOT BLOCK_VALID_MASK = 0"
  by (simp add: BLOCK_VALID_MASK_def)

lemma RaiseValidity_scripts:
  obtains f b' where "RaiseValidity 5 b = Inr (f, b')"
    "bi_nStatus b' AND BLOCK_FAILED_MASK = bi_nStatus b AND BLOCK_FAILED_MASK"
    "bi_nStatus b' AND BLOCK_HAVE_DATA = bi_nStatus b AND BLOCK_HAVE_DATA"
proof (cases "bi_nStatus b AND BLOCK_FAILED_MASK = 0 \<and> bi_nStatus b AND BLOCK_VALID_MASK < 5")
  case True
  then show thesis using that raise_bits(1,2) [of "bi_nStatus b"] by (simp add: RaiseValidity_def scripts_level)
next
  case False
  then have "RaiseValidity 5 b = Inr (False, b)" by (auto simp: RaiseValidity_def scripts_level)
  then show thesis using that by blast
qed

lemma connected_status_ok:
  assumes inv: "sel_inv bc s A cs t"
  shows "\<exists>cs'. connected_status g a cs = Some (Inr cs') \<and> sel_inv bc s A cs' t \<and> marked A cs' = marked A cs \<and>
    cs_candidates cs' = cs_candidates cs"
proof (cases "bi_hash (cs_index cs a) = g")
  case True
  then show ?thesis using inv by (simp add: connected_status_def returns_def)
next
  case False
  let ?cs = "add_status a BLOCK_HAVE_UNDO cs"
  have u: "sel_inv bc s A ?cs t" "marked A ?cs = marked A cs"
    unfolding add_status_def by (intro sel_inv_status [OF inv] raise_bits)+
  have c: "cs_candidates ?cs = cs_candidates cs" by (simp add: add_status_def set_status_def)
  obtain f b where r: "RaiseValidity 5 (cs_index ?cs a) = Inr (f, b)" and
    b: "bi_nStatus b AND BLOCK_FAILED_MASK = bi_nStatus (cs_index ?cs a) AND BLOCK_FAILED_MASK"
      "bi_nStatus b AND BLOCK_HAVE_DATA = bi_nStatus (cs_index ?cs a) AND BLOCK_HAVE_DATA"
    by (rule RaiseValidity_scripts)
  have "IsValid 5 (cs_index ?cs a) \<noteq> Inl e" for e by (simp add: IsValid_def scripts_level)
  then obtain v where v: "IsValid 5 (cs_index ?cs a) = Inr v" by (cases "IsValid 5 (cs_index ?cs a)") auto
  have "connected_status g a cs = Some (Inr (if v then ?cs else set_status a (bi_nStatus b) ?cs))"
    using False r v by (simp add: connected_status_def returns_def Let_def)
  moreover have "cs_candidates (set_status a (bi_nStatus b) ?cs) = cs_candidates cs" using c by (simp add: set_status_def)
  ultimately show ?thesis using u c sel_inv_status [OF u(1) b] by auto
qed

lemma set_tip_ok:
  assumes ok: "tree_ok s A" and inv: "sel_inv bc s A cs t" and x: "x \<in> A" "good bc s x"
  shows "set_tip (Some x) cs = Some (Inr (cs\<lparr>cs_chain := path_to s x\<rparr>))" "sel_inv bc s A (cs\<lparr>cs_chain := path_to s x\<rparr>) x"
proof -
  obtain st where st: "cs_index cs = with_status s st" "cs_chain cs = path_to s t" "t \<in> A"
    using inv by (rule sel_invD) blast
  have "chain_ok s A (cs_chain cs)" using st by (auto simp: chain_ok_def)
  then show "set_tip (Some x) cs = Some (Inr (cs\<lparr>cs_chain := path_to s x\<rparr>))"
    using SetTip_ok [of "with_status s st" A x "cs_chain cs"] ok x(1) by (simp add: set_tip_def st(1) returns_def)
  show "sel_inv bc s A (cs\<lparr>cs_chain := path_to s x\<rparr>) x" using inv x by (auto simp: sel_inv_def)
qed

lemma InvalidChainFound_ok:
  assumes inv: "sel_inv bc s A cs t"
  shows "\<exists>cs'. InvalidChainFound a cs = Some (Inr cs') \<and> sel_inv bc s A cs' t \<and> shrinks bc s A cs cs' \<and> marked A cs' = marked A cs"
proof -
  have "Tip (cs_chain cs) = Some t" using inv by (simp add: sel_inv_def)
  moreover have "shrinks bc s A cs cs" by (simp add: shrinks_def)
  ultimately show ?thesis using inv by (auto simp: InvalidChainFound_def returns_def Let_def)
qed

text \<open>Connecting a block above the tip: a valid one becomes the tip, an invalid one is marked.\<close>

lemma ConnectTip_ok:
  assumes ok: "tree_ok s A" and inv: "sel_inv bc s A cs t" and x: "x \<in> A" "bi_pprev (s x) = Some t"
    and u: "x \<notin> marked A cs" "has_data s x"
  shows "bc_connect bc x = Block_ok \<Longrightarrow> \<exists>cs'. ConnectTip bc x cs = Some (Inr (Block_ok, cs')) \<and> sel_inv bc s A cs' x \<and>
      marked A cs' = marked A cs \<and> cs_candidates cs' = cs_candidates cs"
    "bc_connect bc x = Block_invalid False \<Longrightarrow> \<exists>cs'. ConnectTip bc x cs = Some (Inr (Block_invalid False, cs')) \<and>
      sel_inv bc s A cs' t \<and> shrinks bc s A cs cs' \<and> x \<in> marked A cs'"
proof -
  have tip: "bi_pprev (cs_index cs x) = Tip (cs_chain cs)" "t \<in> A" "good bc s t" using inv x(2) by (auto simp: sel_inv_def)
  {
    assume v: "bc_connect bc x = Block_ok"
    have "\<not> failed s x" using u(1) inv x(1) by (auto simp: marked_def sel_inv_def)
    then have g: "good bc s x" using tip(3) u(2) v by (auto simp: good_def ancestor_pprev(2) [OF ok x])
    obtain cs1 where c: "connected_status (bc_hashGenesisBlock bc) x cs = Some (Inr cs1)" "sel_inv bc s A cs1 t"
      "marked A cs1 = marked A cs" "cs_candidates cs1 = cs_candidates cs"
      using connected_status_ok [OF inv] by blast
    note s = set_tip_ok [OF ok c(2) x(1) g]
    have "ConnectTip bc x cs = Some (Inr (Block_ok, cs1\<lparr>cs_chain := path_to s x\<rparr>))"
      using tip(1) v by (simp add: ConnectTip_def c(1) s(1) returns_def)
    with s(2) c(3,4) show "\<exists>cs'. ConnectTip bc x cs = Some (Inr (Block_ok, cs')) \<and> sel_inv bc s A cs' x \<and>
      marked A cs' = marked A cs \<and> cs_candidates cs' = cs_candidates cs" by (simp add: marked_def)
  }
  {
    assume v: "bc_connect bc x = Block_invalid False"
    then have "\<not> good bc s x" using good_self by fastforce
    note f = sel_inv_add_failed [OF inv this, of BLOCK_FAILED_VALID, simplified]
    let ?cs = "erase_candidate x ((add_status x BLOCK_FAILED_VALID cs)\<lparr>cs_failed := List.insert x (cs_failed cs)\<rparr>)"
    have eq: "?cs = (erase_candidate x (add_status x BLOCK_FAILED_VALID cs))\<lparr>cs_failed := List.insert x (cs_failed cs)\<rparr>"
      by (simp add: erase_candidate_def)
    have i: "sel_inv bc s A ?cs t" "shrinks bc s A cs ?cs" "x \<in> marked A ?cs" unfolding eq using f x(1) by simp_all
    obtain cs' where "InvalidChainFound x ?cs = Some (Inr cs')" "sel_inv bc s A cs' t" "shrinks bc s A ?cs cs'"
      "marked A cs' = marked A ?cs"
      using InvalidChainFound_ok [OF i(1)] by blast
    moreover from this(1) have "ConnectTip bc x cs = Some (Inr (Block_invalid False, cs'))"
      using tip(1) v by (simp add: ConnectTip_def InvalidBlockFound_def returns_def)
    ultimately show "\<exists>cs'. ConnectTip bc x cs = Some (Inr (Block_invalid False, cs')) \<and>
      sel_inv bc s A cs' t \<and> shrinks bc s A cs cs' \<and> x \<in> marked A cs'"
      using shrinks_trans [OF i(2)] i(3) by auto
  }
qed

lemma Prune_ok:
  assumes idx: "index_ok s A" and inv: "sel_inv bc s A cs t" and m: "m \<in> set (cs_candidates cs)" "work_key s t \<le> work_key s m"
  shows "\<exists>cs'. PruneBlockIndexCandidates cs = Some (Inr cs') \<and> sel_inv bc s A cs' t \<and> marked A cs' = marked A cs \<and>
    m \<in> set (cs_candidates cs') \<and> (\<forall>b. kept bc s A b t cs \<longrightarrow> kept bc s A b t cs')"
proof -
  obtain st where st: "cs_index cs = with_status s st" "cs_chain cs = path_to s t" "t \<in> A"
    and cands: "\<And>c. c \<in> set (cs_candidates cs) \<Longrightarrow> c \<in> A \<and> linked s c"
    using inv by (rule sel_invD) blast
  let ?left = "filter (\<lambda>c. \<not> CBlockIndexWorkComparator (cs_index cs) c t) (cs_candidates cs)"
  have left: "set ?left = {c \<in> set (cs_candidates cs). work_key s t \<le> work_key s c}"
    using comparator_key [of "cs_index cs" _ t] index_okD(3) [OF idx] cands st(3) by (auto simp: st(1))
  have "m \<in> set ?left" unfolding left using m by simp
  then have "?left \<noteq> []" by (metis empty_iff list.set(1))
  then have "PruneBlockIndexCandidates cs = Some (Inr (cs\<lparr>cs_candidates := ?left\<rparr>))"
    by (simp add: PruneBlockIndexCandidates_def st(2) Let_def returns_def del: filter_empty_conv)
  moreover have "sel_inv bc s A (cs\<lparr>cs_candidates := ?left\<rparr>) t" using inv by (auto simp: sel_inv_def)
  moreover have "m \<in> set ?left" "\<forall>b. kept bc s A b t cs \<longrightarrow> kept bc s A b t (cs\<lparr>cs_candidates := ?left\<rparr>)"
    using m unfolding kept_def by (auto simp: left simp del: set_filter)
  ultimately show ?thesis by (intro exI [of _ "cs\<lparr>cs_candidates := ?left\<rparr>"]) (simp add: marked_def)
qed

section \<open>One step towards the best candidate\<close>

text \<open>
  The tip \<open>t\<close> is on the way to the candidate \<open>m\<close>, whose chain is stored and not marked; \<open>b\<close> is the
  tip that the selection started from.
\<close>

definition towards :: "block_checks \<Rightarrow> store \<Rightarrow> addr set \<Rightarrow> addr \<Rightarrow> addr \<Rightarrow> chain_state \<Rightarrow> addr \<Rightarrow> bool" where
  "towards bc s A b m cs t \<longleftrightarrow> sel_inv bc s A cs t \<and> kept bc s A b t cs \<and> ancestor s m t \<and> m \<in> set (cs_candidates cs) \<and>
     (\<forall>x. ancestor s m x \<longrightarrow> x \<notin> marked A cs \<and> has_data s x)"

text \<open>Blocks towards \<open>m\<close> were connected above \<open>t\<close>, as far as \<open>t'\<close>.\<close>

definition moved ::
  "block_checks \<Rightarrow> store \<Rightarrow> addr set \<Rightarrow> addr \<Rightarrow> addr \<Rightarrow> chain_state \<Rightarrow> addr \<Rightarrow> batch_end \<Rightarrow> chain_state \<Rightarrow> addr \<Rightarrow> bool" where
  "moved bc s A b m cs t r cs' t' \<longleftrightarrow> sel_inv bc s A cs' t' \<and> kept bc s A b t' cs' \<and> ancestor s m t' \<and>
     bi_nHeight (s t) \<le> bi_nHeight (s t') \<and> r \<noteq> System_error \<and>
     (r = Better \<longrightarrow> bi_nHeight (s t) < bi_nHeight (s t')) \<and>
     (if r = Invalid_found then marked A cs \<subset> marked A cs' else marked A cs' = marked A cs \<and> m \<in> set (cs_candidates cs'))"

lemma usable_iff:
  assumes "tree_ok s A" "sel_inv bc s A cs t" "m \<in> A"
  shows "usable (cs_index cs) m \<longleftrightarrow> (\<forall>x. ancestor s m x \<longrightarrow> x \<notin> marked A cs \<and> has_data s x)"
  using ancestor_in [OF assms(1,3)] assms(2) by (auto simp: usable_def marked_def sel_inv_def)

lemma towards_in: "towards bc s A b m cs t \<Longrightarrow> m \<in> A" "towards bc s A b m cs t \<Longrightarrow> t \<in> A"
  by (auto simp: towards_def sel_inv_def)

lemma moved_towards:
  "towards bc s A b m cs t \<Longrightarrow> moved bc s A b m cs t r cs' t' \<Longrightarrow> r \<noteq> Invalid_found \<Longrightarrow> towards bc s A b m cs' t'"
  by (simp add: towards_def moved_def)

lemma moved_trans:
  assumes "moved bc s A b m cs t Go_on cs' t'" "moved bc s A b m cs' t' r cs'' t''"
  shows "moved bc s A b m cs t r cs'' t''"
  using assms by (auto simp: moved_def split: if_splits)

lemma kept_mono: "kept bc s A b t cs \<Longrightarrow> work_key s t \<le> work_key s x \<Longrightarrow> kept bc s A b x cs"
  unfolding kept_def by (meson order.trans)

lemma kept_cong: "cs_candidates cs' = cs_candidates cs \<Longrightarrow> kept bc s A b t cs' = kept bc s A b t cs"
  by (simp add: kept_def)

lemma connect_block_ok:
  assumes idx: "index_ok s A" and bc: "checks_ok bc A" and tw: "towards bc s A b m cs t"
    and x: "ancestor s m x" "bi_nHeight (s x) = Suc (bi_nHeight (s t))"
  obtains (invalid) cs' where "connect_blocks bc old front (x # rest) cs = Some (Inr (Invalid_found, cs'))"
      "moved bc s A b m cs t Invalid_found cs' t"
    | (better) cs' where "connect_blocks bc old front (x # rest) cs = Some (Inr (Better, cs'))" "moved bc s A b m cs t Better cs' x"
    | (go_on) cs' where "connect_blocks bc old front (x # rest) cs = connect_blocks bc old front rest cs'"
      "moved bc s A b m cs t Go_on cs' x"
proof -
  note ok = index_okD(2) [OF idx] and mA = towards_in(1) [OF tw]
  have inv: "sel_inv bc s A cs t" "kept bc s A b t cs" "ancestor s m t" "m \<in> set (cs_candidates cs)"
    "x \<notin> marked A cs" "has_data s x" using tw x(1) by (auto simp: towards_def)
  have xA: "x \<in> A" "bi_pprev (s x) = Some t" using ancestor_in [OF ok mA x(1)] ancestor_child [OF ok mA x(1) inv(3) x(2)] by auto
  note con = ConnectTip_ok [OF ok inv(1) xA inv(5,6)]
  show thesis
  proof (cases "bc_connect bc x = Block_ok")
    case True
    obtain cs1 where c1: "ConnectTip bc x cs = Some (Inr (Block_ok, cs1))" "sel_inv bc s A cs1 x" "marked A cs1 = marked A cs"
      "cs_candidates cs1 = cs_candidates cs" using con(1) [OF True] by blast
    have "kept bc s A b x cs1"
      using kept_mono [OF inv(2) ancestor_key [OF idx xA(1) ancestor_pprev(1) [OF ok xA]]] c1(4) by (simp add: kept_def)
    moreover obtain cs2 where c2: "PruneBlockIndexCandidates cs1 = Some (Inr cs2)" "sel_inv bc s A cs2 x" "marked A cs2 = marked A cs1"
      "m \<in> set (cs_candidates cs2)" "\<forall>b. kept bc s A b x cs1 \<longrightarrow> kept bc s A b x cs2"
      using Prune_ok [OF idx c1(2), of m] c1(4) inv(4) ancestor_key [OF idx mA x(1)] by auto
    ultimately have mv: "moved bc s A b m cs t r cs2 x" if "r = Go_on \<or> r = Better" for r
      using that x c1(3) by (auto simp: moved_def)
    have tip: "Tip (cs_chain cs2) = Some x" using c2(2) by (simp add: sel_inv_def)
    have run: "connect_blocks bc old front (x # rest) cs =
      (if more_work (cs_index cs2) x old then returns (Better, cs2) else connect_blocks bc old front rest cs2)"
      using tip by (simp add: c1(1) c2(1))
    show thesis
    proof (cases "more_work (cs_index cs2) x old")
      case True
      then show thesis using better run mv by (simp add: returns_def)
    next
      case False
      then show thesis using go_on run mv by simp
    qed
  next
    case False
    then have v: "bc_connect bc x = Block_invalid False" using bc xA(1) by (auto simp: checks_ok_def)
    obtain cs1 where c1: "ConnectTip bc x cs = Some (Inr (Block_invalid False, cs1))" "sel_inv bc s A cs1 t" "shrinks bc s A cs cs1"
      "x \<in> marked A cs1" using con(2) [OF v] by blast
    obtain cs2 where c2: "InvalidChainFound front cs1 = Some (Inr cs2)" "sel_inv bc s A cs2 t" "shrinks bc s A cs1 cs2"
      "marked A cs2 = marked A cs1" using InvalidChainFound_ok [OF c1(2)] by blast
    have "marked A cs \<subset> marked A cs2" using c1(3,4) c2(4) inv(5) by (auto simp: shrinks_def)
    moreover have "kept bc s A b t cs2" using shrinks_kept [OF shrinks_trans [OF c1(3) c2(3)] inv(2)] .
    ultimately show thesis using invalid c2(2) inv(3) by (simp add: c1(1) c2(1) moved_def returns_def)
  qed
qed

text \<open>The entries of the chain of \<open>m\<close> from height \<open>i\<close> to height \<open>k\<close>.\<close>

definition between :: "store \<Rightarrow> addr \<Rightarrow> nat \<Rightarrow> nat \<Rightarrow> addr list" where
  "between s m i k = map (\<lambda>h. the (naive_ancestor s m h)) [i..<Suc k]"

lemma between_Cons:
  assumes ok: "tree_ok s A" "m \<in> A" and i: "i \<le> k" "k \<le> bi_nHeight (s m)"
  obtains x where "between s m i k = x # between s m (Suc i) k" "ancestor s m x" "bi_nHeight (s x) = i"
proof -
  obtain x where "naive_ancestor s m i = Some x" using naive_ancestor_ok [OF ok, of i] i by auto
  then show thesis using that ancestor_at [OF ok] i(1) by (simp add: between_def upt_conv_Cons del: upt_Suc)
qed

lemma connect_blocks_ok:
  assumes idx: "index_ok s A" and bc: "checks_ok bc A"
  shows "towards bc s A b m cs t \<Longrightarrow> bi_nHeight (s t) \<le> k \<Longrightarrow> k \<le> bi_nHeight (s m) \<Longrightarrow>
    \<exists>r cs' t'. connect_blocks bc old front (between s m (Suc (bi_nHeight (s t))) k) cs = Some (Inr (r, cs')) \<and>
      moved bc s A b m cs t r cs' t' \<and> (r = Go_on \<longrightarrow> bi_nHeight (s t') = k)"
proof (induction "k - bi_nHeight (s t)" arbitrary: cs t)
  case 0
  then have "k = bi_nHeight (s t)" by simp
  then have "connect_blocks bc old front (between s m (Suc (bi_nHeight (s t))) k) cs = Some (Inr (Go_on, cs))"
    by (simp add: between_def returns_def)
  moreover have "moved bc s A b m cs t Go_on cs t" using 0(2) by (simp add: towards_def moved_def)
  ultimately show ?case using \<open>k = _\<close> by blast
next
  case (Suc n)
  note ok = index_okD(2) [OF idx] and mA = towards_in(1) [OF Suc.prems(1)]
  have "Suc (bi_nHeight (s t)) \<le> k" using Suc.hyps(2) by simp
  then obtain x where x: "between s m (Suc (bi_nHeight (s t))) k = x # between s m (Suc (Suc (bi_nHeight (s t)))) k"
    "ancestor s m x" "bi_nHeight (s x) = Suc (bi_nHeight (s t))"
    using between_Cons [OF ok mA _ Suc.prems(3)] by blast
  from idx bc Suc.prems(1) x(2,3) show ?case
  proof (cases rule: connect_block_ok [where old = old and front = front and rest = "between s m (Suc (Suc (bi_nHeight (s t)))) k"])
    case (go_on cs1)
    have n: "n = k - bi_nHeight (s x)" "bi_nHeight (s x) \<le> k" using Suc.hyps(2) x(3) by simp_all
    have "towards bc s A b m cs1 x" using moved_towards [OF Suc.prems(1) go_on(2)] by simp
    then obtain r cs' t' where "connect_blocks bc old front (between s m (Suc (bi_nHeight (s x))) k) cs1 = Some (Inr (r, cs'))"
      "moved bc s A b m cs1 x r cs' t'" "r = Go_on \<longrightarrow> bi_nHeight (s t') = k"
      using Suc.hyps(1) [OF n(1) _ n(2) Suc.prems(3)] by blast
    moreover have "connect_blocks bc old front (between s m (Suc (bi_nHeight (s t))) k) cs = Some (Inr (r, cs'))"
      unfolding x(1) go_on(1) using calculation(1) x(3) by simp
    ultimately show ?thesis using moved_trans [OF go_on(2)] by blast
  qed (unfold x(1), blast+)
qed

lemma between_with_status [simp]: "between (with_status s st) = between s"
  by (intro ext) (simp add: between_def)

lemma between_ancestor:
  assumes "tree_ok s A" "m \<in> A" "naive_ancestor s m k = Some q"
  shows "between s q i k = between s m i k"
  using naive_ancestor_trans [OF assms] by (auto simp: between_def simp del: upt_Suc)

lemma to_connect_ok:
  assumes ok: "tree_ok s A" and q: "q \<in> A" "h \<le> bi_nHeight (s q)"
  shows "to_connect s (int h) (Some q) = Some (rev (between s q (Suc h) (bi_nHeight (s q))))"
  using ok q
proof (induction q rule: tree_induct)
  case (root q)
  then have "bi_nHeight (s q) = h" using tree_okD(1) [OF ok root.hyps(1)] by simp
  then show ?case by (subst to_connect.simps) (simp add: between_def)
next
  case (step q p)
  show ?case
  proof (cases "bi_nHeight (s q) = h")
    case True
    then show ?thesis by (subst to_connect.simps) (simp add: between_def)
  next
    case False
    have hq: "bi_nHeight (s q) = Suc (bi_nHeight (s p))" using tree_okD(3) [OF ok step.hyps(1,2)] .
    then have h: "h \<le> bi_nHeight (s p)" using step.prems False by simp
    have p: "naive_ancestor s q (bi_nHeight (s p)) = Some p"
      using ancestor_pprev(1) [OF ok step.hyps(1,2)] by (simp add: ancestor_def)
    have "naive_ancestor s q (Suc (bi_nHeight (s p))) = Some q" using naive_ancestor_self [of s q] hq by simp
    then have "between s q (Suc h) (bi_nHeight (s q)) = between s p (Suc h) (bi_nHeight (s p)) @ [q]"
      unfolding between_ancestor [OF ok step.hyps(1) p] hq using h by (simp add: between_def)
    then show ?thesis using False step.IH [OF h] step.hyps(2) by (subst to_connect.simps) simp
  qed
qed

lemma connect_batches_ok:
  assumes idx: "index_ok s A" and bc: "checks_ok bc A"
  shows "towards bc s A b m cs t \<Longrightarrow>
    \<exists>r cs' t'. connect_batches bc old m (int (bi_nHeight (s t))) cs = Some (Inr (r, cs')) \<and>
      moved bc s A b m cs t r cs' t' \<and> (r = Go_on \<longrightarrow> t' = m)"
proof (induction "bi_nHeight (s m) - bi_nHeight (s t)" arbitrary: cs t rule: less_induct)
  case less
  note ok = index_okD(2) [OF idx] and mA = towards_in(1) [OF less.prems]
  obtain st where st: "cs_index cs = with_status s st" using less.prems by (auto simp: towards_def sel_inv_def)
  have anc: "ancestor s m t" using less.prems by (simp add: towards_def)
  show ?case
  proof (cases "bi_nHeight (s t) = bi_nHeight (s m)")
    case True
    then have "t = m" using anc by (simp add: ancestor_def)
    moreover have "connect_batches bc old m (int (bi_nHeight (s t))) cs = Some (Inr (Go_on, cs))"
      using True by (subst connect_batches.simps) (simp add: st)
    moreover have "moved bc s A b m cs t Go_on cs t" using less.prems by (simp add: towards_def moved_def)
    ultimately show ?thesis by blast
  next
    case False
    define k where "k = min (bi_nHeight (s t) + 32) (bi_nHeight (s m))"
    have k: "bi_nHeight (s t) < k" "k \<le> bi_nHeight (s m)"
      using False ancestor_le [OF anc] by (auto simp: k_def)
    have ik: "min (int (bi_nHeight (s t)) + 32) (int (bi_nHeight (s m))) = int k" by (simp add: k_def)
    obtain q where q: "naive_ancestor s m k = Some q" "q \<in> A" "bi_nHeight (s q) = k" using naive_ancestor_ok [OF ok mA k(2)] by blast
    let ?xs = "between s m (Suc (bi_nHeight (s t))) k"
    have ga: "GetAncestor (cs_index cs) m (int k) = Inr (Some q)"
      using GetAncestor_ok [of "cs_index cs" A m k] ok mA q(1) by (simp add: st)
    have tc: "to_connect (cs_index cs) (int (bi_nHeight (s t))) (Some q) = Some (rev ?xs)"
      using to_connect_ok [of "cs_index cs" A q "bi_nHeight (s t)"] ok q k between_ancestor [OF ok mA q(1)] by (simp add: st)
    obtain r cs1 t1 where c: "connect_blocks bc old (hd (rev ?xs)) ?xs cs = Some (Inr (r, cs1))" "moved bc s A b m cs t r cs1 t1"
      "r = Go_on \<longrightarrow> bi_nHeight (s t1) = k"
      using connect_blocks_ok [OF idx bc less.prems less_imp_le [OF k(1)] k(2)] by blast
    have run: "connect_batches bc old m (int (bi_nHeight (s t))) cs =
      (if r = Go_on then connect_batches bc old m (int k) cs1 else Some (Inr (r, cs1)))"
      using False ga tc c(1) by (subst connect_batches.simps) (simp add: st ik)
    show ?thesis
    proof (cases "r = Go_on")
      case True
      have tw: "towards bc s A b m cs1 t1" using moved_towards [OF less.prems c(2)] True by simp
      have "bi_nHeight (s m) - bi_nHeight (s t1) < bi_nHeight (s m) - bi_nHeight (s t)" using k True c(3) by simp
      then obtain r' cs' t' where "connect_batches bc old m (int (bi_nHeight (s t1))) cs1 = Some (Inr (r', cs'))"
        "moved bc s A b m cs1 t1 r' cs' t'" "r' = Go_on \<longrightarrow> t' = m"
        using less.hyps [OF _ tw] by blast
      moreover have "moved bc s A b m cs t Go_on cs1 t1" "int k = int (bi_nHeight (s t1))" using c(2,3) True by simp_all
      ultimately show ?thesis using moved_trans run True by metis
    qed (use run c in auto)
  qed
qed

lemma disconnect_loop_ok:
  assumes ok: "tree_ok s A" and bc: "checks_ok bc A" and t: "t \<in> A" and f: "ancestor s t f" and inv: "sel_inv bc s A cs t"
  shows "disconnect_loop bc (Some f) cs = Some (Inr (True, cs\<lparr>cs_chain := path_to s f\<rparr>)) \<and>
    sel_inv bc s A (cs\<lparr>cs_chain := path_to s f\<rparr>) f"
proof -
  have stop: "disconnect_loop bc (Some f) cs = Some (Inr (True, cs\<lparr>cs_chain := path_to s f\<rparr>)) \<and>
    sel_inv bc s A (cs\<lparr>cs_chain := path_to s f\<rparr>) f" if "sel_inv bc s A cs f" for cs
  proof -
    have c: "cs_chain cs = path_to s f" using that by (simp add: sel_inv_def)
    then have eq: "cs\<lparr>cs_chain := path_to s f\<rparr> = cs" by simp
    show ?thesis unfolding eq using that c by (subst disconnect_loop.simps) simp
  qed
  show ?thesis using ok t f inv
  proof (induction t arbitrary: cs rule: tree_induct)
    case (root t)
    then have "f = t" using ancestor_root [OF ok root.hyps] by simp
    then show ?case using stop root.prems(2) by simp
  next
    case (step t p)
    show ?case
    proof (cases "t = f")
      case False
      then have pf: "ancestor s p f" using step.prems(1) ancestor_pprev(2) [OF ok step.hyps(1,2)] by simp
      have tip: "Tip (cs_chain cs) = Some t" "bi_pprev (cs_index cs t) = Some p" "good bc s t"
        using step.prems(2) step.hyps(2) by (auto simp: sel_inv_def)
      have g: "good bc s p" using good_ancestor [OF ok step.hyps(1) tip(3) ancestor_pprev(1) [OF ok step.hyps(1,2)]] .
      note s = set_tip_ok [OF ok step.prems(2) step.hyps(3) g]
      have "DisconnectTip bc cs = Some (Inr (True, cs\<lparr>cs_chain := path_to s p\<rparr>))"
        using tip bc step.hyps(1) by (simp add: DisconnectTip_def checks_ok_def s(1) returns_def)
      then have "disconnect_loop bc (Some f) cs = disconnect_loop bc (Some f) (cs\<lparr>cs_chain := path_to s p\<rparr>)"
        using tip(1) False by (subst disconnect_loop.simps) simp
      then show ?thesis using step.IH [OF pf s(2)] by simp
    qed (use stop step.prems(2) in blast)
  qed
qed

lemma marked_chain [simp]: "marked A (cs\<lparr>cs_chain := c\<rparr>) = marked A cs"
  by (simp add: marked_def)

lemma fork_of_tip:
  assumes idx: "index_ok s A" and m: "m \<in> A" and t: "t \<in> A"
  obtains f where "FindFork (with_status s st) (path_to s t) (Some m) = Inr (Some (Some f))"
    "ancestor s m f" "ancestor s t f" "ancestor s m t \<Longrightarrow> f = t"
proof -
  note ok = index_okD(2) [OF idx]
  have eq: "Contains s (path_to s t) = ancestor s t" by (intro ext) (simp add: Contains_path)
  obtain r where r: "FindFork (with_status s st) (path_to s t) (Some m) = Inr (Some r)"
    "highest s m (ancestor s t) r"
    using FindFork_highest [of "with_status s st" A m "path_to s t"] ok m by (auto simp: eq)
  obtain g where g: "naive_ancestor s m 0 = Some g" "g \<in> A" "bi_nHeight (s g) = 0" using naive_ancestor_ok [OF ok m] by blast
  obtain g' where g': "naive_ancestor s t 0 = Some g'" "g' \<in> A" "bi_nHeight (s g') = 0" using naive_ancestor_ok [OF ok t] by blast
  have "ancestor s t g" using index_okD(5) [OF idx g(2) g'(2) g(3) g'(3)] g' by (simp add: ancestor_def)
  then obtain f where f: "r = Some f" using r(2) g(1) by (cases r) (auto simp: highest_def)
  have a: "ancestor s m f" "ancestor s t f" and hi: "\<And>h x. bi_nHeight (s f) < h \<Longrightarrow> naive_ancestor s m h = Some x \<Longrightarrow> \<not> ancestor s t x"
    using r(2) f by (auto simp: highest_def ancestor_def)
  have "f = t" if "ancestor s m t"
  proof -
    have "\<not> bi_nHeight (s f) < bi_nHeight (s t)" using hi [of "bi_nHeight (s t)" t] that by (auto simp: ancestor_def)
    then have "bi_nHeight (s f) = bi_nHeight (s t)" using ancestor_le [OF a(2)] by simp
    with a(2) show ?thesis by (simp add: ancestor_def)
  qed
  with that r(1) f a show thesis by blast
qed

lemma ActivateBestChainStep_ok:
  assumes idx: "index_ok s A" and bc: "checks_ok bc A" and inv: "sel_inv bc s A cs t" "kept bc s A b t cs"
    and tb: "work_key s t \<le> work_key s b" and m: "m \<in> set (cs_candidates cs)"
    and us: "\<forall>x. ancestor s m x \<longrightarrow> x \<notin> marked A cs \<and> has_data s x"
  obtains r cs' t' f where "ActivateBestChainStep bc m cs = Some (Inr (True, r = Invalid_found, cs'))"
    "moved bc s A b m cs f r cs' t'" "ancestor s m t \<Longrightarrow> f = t" "r = Go_on \<Longrightarrow> t' = m"
proof -
  note ok = index_okD(2) [OF idx]
  obtain st where st: "cs_index cs = with_status s st" "cs_chain cs = path_to s t" "t \<in> A"
    and mA: "m \<in> A" using inv(1) m by (auto simp: sel_inv_def)
  obtain f where f: "FindFork (cs_index cs) (cs_chain cs) (Some m) = Inr (Some (Some f))"
    "ancestor s m f" "ancestor s t f" "ancestor s m t \<Longrightarrow> f = t"
    using fork_of_tip [OF idx mA st(3), of st] unfolding st(1,2) by blast
  let ?cs = "cs\<lparr>cs_chain := path_to s f\<rparr>"
  note d = disconnect_loop_ok [OF ok bc st(3) f(3) inv(1)]
  have "kept bc s A b f ?cs" using inv(2) tb by (auto simp: kept_def)
  then have "towards bc s A b m ?cs f" using d f(2) m us by (simp add: towards_def)
  then obtain r cs' t' where c: "connect_batches bc (Tip (cs_chain cs)) m (int (bi_nHeight (s f))) ?cs = Some (Inr (r, cs'))"
    "moved bc s A b m ?cs f r cs' t'" "r = Go_on \<longrightarrow> t' = m"
    using connect_batches_ok [OF idx bc] by blast
  have "r \<noteq> System_error" "moved bc s A b m cs f r cs' t'" using c(2) unfolding moved_def marked_chain by blast+
  moreover from this(1) have "ActivateBestChainStep bc m cs = Some (Inr (True, r = Invalid_found, cs'))"
    using f(1) d c(1) by (simp add: ActivateBestChainStep_def st(1) returns_def)
  ultimately show thesis using that f(4) c(3) by blast
qed

section \<open>The best chain is activated\<close>

definition best_of :: "block_checks \<Rightarrow> store \<Rightarrow> addr set \<Rightarrow> addr \<Rightarrow> bool" where
  "best_of bc s A m \<longleftrightarrow> (\<forall>a \<in> A. good bc s a \<longrightarrow> work_key s a \<le> work_key s m)"

text \<open>The state before a round, with the candidate that is remembered.\<close>

definition ready :: "block_checks \<Rightarrow> store \<Rightarrow> addr set \<Rightarrow> addr \<Rightarrow> addr option \<Rightarrow> chain_state \<Rightarrow> addr \<Rightarrow> bool" where
  "ready bc s A b most cs t \<longleftrightarrow> sel_inv bc s A cs t \<and> kept bc s A b t cs \<and> work_key s t \<le> work_key s b \<and>
     (case most of None \<Rightarrow> True | Some m \<Rightarrow> towards bc s A b m cs t \<and> best_of bc s A m)"

text \<open>
  What gets smaller in every round: the number of blocks that are not marked, then the way to the
  candidate.
\<close>

definition max_height :: "store \<Rightarrow> addr set \<Rightarrow> nat" where
  "max_height s A = Max ((\<lambda>a. bi_nHeight (s a)) ` A)"

definition weight :: "store \<Rightarrow> addr set \<Rightarrow> chain_state \<Rightarrow> addr option \<Rightarrow> addr \<Rightarrow> nat" where
  "weight s A cs most t = card (A - marked A cs) * (max_height s A + 2) +
     (case most of None \<Rightarrow> max_height s A + 1 | Some m \<Rightarrow> bi_nHeight (s m) - bi_nHeight (s t))"

lemma max_height_le: "finite A \<Longrightarrow> a \<in> A \<Longrightarrow> bi_nHeight (s a) \<le> max_height s A"
  by (simp add: max_height_def)

lemma weight_marked:
  assumes "finite A" "marked A cs \<subset> marked A cs'"
  shows "weight s A cs' None t' < weight s A cs most t"
proof -
  have "A - marked A cs' \<subset> A - marked A cs" using assms(2) by (auto simp: marked_def)
  then have "Suc (card (A - marked A cs')) \<le> card (A - marked A cs)" using assms(1) by (simp add: psubset_card_mono Suc_leI)
  then have "Suc (card (A - marked A cs')) * (max_height s A + 2) \<le> card (A - marked A cs) * (max_height s A + 2)"
    by (rule mult_le_mono1)
  then show ?thesis by (simp add: weight_def)
qed

lemma weight_closer:
  assumes "finite A" "m \<in> A" "marked A cs \<subseteq> marked A cs'" "case most of None \<Rightarrow> True | Some m' \<Rightarrow> m' = m \<and> bi_nHeight (s t) < bi_nHeight (s t')"
    and "bi_nHeight (s t') \<le> bi_nHeight (s m)"
  shows "weight s A cs' (Some m) t' < weight s A cs most t"
proof -
  have "card (A - marked A cs') \<le> card (A - marked A cs)" using assms(1,3) by (intro card_mono) auto
  then have "card (A - marked A cs') * (max_height s A + 2) \<le> card (A - marked A cs) * (max_height s A + 2)"
    by (rule mult_le_mono1)
  moreover have "bi_nHeight (s m) - bi_nHeight (s t') < (case most of None \<Rightarrow> max_height s A + 1 | Some m \<Rightarrow> bi_nHeight (s m) - bi_nHeight (s t))"
    using max_height_le [OF assms(1,2), of s] assms(4,5) by (cases most) auto
  ultimately show ?thesis by (simp add: weight_def)
qed

text \<open>A round finds a candidate that is at least as good as every good block.\<close>

lemma round_candidate:
  assumes idx: "index_ok s A" and b: "b \<in> A" "good bc s b" and rd: "ready bc s A b most cs t"
  obtains m cs1 where "(case most of None \<Rightarrow> FindMostWorkChain cs | Some m \<Rightarrow> returns (Some m, cs)) = Some (Inr (Some m, cs1))"
    "sel_inv bc s A cs1 t" "kept bc s A b t cs1" "m \<in> set (cs_candidates cs1)" "best_of bc s A m"
    "\<forall>x. ancestor s m x \<longrightarrow> x \<notin> marked A cs1 \<and> has_data s x" "marked A cs \<subseteq> marked A cs1"
    "case most of None \<Rightarrow> True | Some m' \<Rightarrow> m' = m \<and> ancestor s m t"
proof (cases most)
  case None
  have inv: "sel_inv bc s A cs t" "kept bc s A b t cs" "work_key s t \<le> work_key s b" using rd by (simp_all add: ready_def)
  obtain m cs1 where m: "FindMostWorkChain cs = Some (Inr (Some m, cs1))" "sel_inv bc s A cs1 t" "shrinks bc s A cs cs1"
    "m \<in> set (cs_candidates cs1)" "usable (cs_index cs1) m" "\<forall>a \<in> A. good bc s a \<longrightarrow> work_key s a \<le> work_key s m"
    using FindMostWorkChain_ok [OF idx b inv(3,1,2)] by blast
  have "m \<in> A" using m(2,4) by (simp add: sel_inv_def)
  then have "\<forall>x. ancestor s m x \<longrightarrow> x \<notin> marked A cs1 \<and> has_data s x"
    using usable_iff [OF index_okD(2) [OF idx] m(2)] m(5) by blast
  moreover have "marked A cs \<subseteq> marked A cs1" using m(3) by (simp add: shrinks_def)
  ultimately show thesis using that [of m cs1] m shrinks_kept [OF m(3) inv(2)] by (simp add: None best_of_def)
next
  case (Some m)
  then have "towards bc s A b m cs t" "best_of bc s A m" using rd by (simp_all add: ready_def)
  then show thesis using that [of m cs] Some by (simp add: towards_def returns_def)
qed

text \<open>A round that has something to do connects blocks, and the weight gets smaller.\<close>

lemma round_step:
  assumes idx: "index_ok s A" and bc: "checks_ok bc A" and b: "b \<in> A" "good bc s b" and rd: "ready bc s A b most cs t"
    and m: "(case most of None \<Rightarrow> FindMostWorkChain cs | Some m \<Rightarrow> returns (Some m, cs)) = Some (Inr (Some m, cs1))"
    and ne: "m \<noteq> t"
  obtains r cs2 t2 where "ActivateBestChainStep bc m cs1 = Some (Inr (True, r = Invalid_found, cs2))"
    "sel_inv bc s A cs2 t2" "kept bc s A b t2 cs2"
    "weight s A cs2 (if r = Invalid_found then None else Some m) t2 < weight s A cs most t"
    "r \<noteq> Invalid_found \<longrightarrow> best_of bc s A m \<and> towards bc s A b m cs2 t2"
proof -
  obtain m' cs1' where c0: "(case most of None \<Rightarrow> FindMostWorkChain cs | Some m \<Rightarrow> returns (Some m, cs)) = Some (Inr (Some m', cs1'))"
    "sel_inv bc s A cs1' t" "kept bc s A b t cs1'" "m' \<in> set (cs_candidates cs1')" "best_of bc s A m'"
    "\<forall>x. ancestor s m' x \<longrightarrow> x \<notin> marked A cs1' \<and> has_data s x" "marked A cs \<subseteq> marked A cs1'"
    "case most of None \<Rightarrow> True | Some m'' \<Rightarrow> m'' = m' \<and> ancestor s m' t"
    by (rule round_candidate [OF idx b rd])
  have eq: "m' = m" "cs1' = cs1" using c0(1) m by simp_all
  note c = c0(2-) [unfolded eq]
  have tb: "work_key s t \<le> work_key s b" using rd by (simp add: ready_def)
  have mA: "m \<in> A" using c(1,3) by (simp add: sel_inv_def)
  obtain r cs2 t2 f where st: "ActivateBestChainStep bc m cs1 = Some (Inr (True, r = Invalid_found, cs2))"
    "moved bc s A b m cs1 f r cs2 t2" "ancestor s m t \<Longrightarrow> f = t" "r = Go_on \<Longrightarrow> t2 = m"
    by (rule ActivateBestChainStep_ok [OF idx bc c(1,2) tb c(3,5)]) blast
  have mv: "sel_inv bc s A cs2 t2" "kept bc s A b t2 cs2" "ancestor s m t2" "r \<noteq> System_error"
    "r = Better \<longrightarrow> bi_nHeight (s f) < bi_nHeight (s t2)" using st(2) by (simp_all add: moved_def)
  have tw: "towards bc s A b m cs2 t2" if "r \<noteq> Invalid_found" using that st(2) c(5) by (simp add: moved_def towards_def)
  have "weight s A cs2 (if r = Invalid_found then None else Some m) t2 < weight s A cs most t"
  proof (cases "r = Invalid_found")
    case True
    then have "marked A cs \<subset> marked A cs2" using st(2) c(6) by (auto simp: moved_def)
    then show ?thesis using weight_marked [OF index_okD(1) [OF idx]] True by simp
  next
    case False
    then have "marked A cs \<subseteq> marked A cs2" using st(2) c(6) by (simp add: moved_def)
    moreover have "bi_nHeight (s t) < bi_nHeight (s t2)" if t: "ancestor s m t"
    proof (cases r)
      case Go_on
      have "bi_nHeight (s t) \<noteq> bi_nHeight (s m)" using t ne by (auto simp: ancestor_def)
      then show ?thesis using st(4) [OF Go_on] ancestor_le [OF t] by simp
    qed (use False mv(4,5) st(3) [OF t] in auto)
    then have "case most of None \<Rightarrow> True | Some m' \<Rightarrow> m' = m \<and> bi_nHeight (s t) < bi_nHeight (s t2)" using c(7) by (cases most) auto
    ultimately show ?thesis using weight_closer [OF index_okD(1) [OF idx] mA _ _ ancestor_le [OF mv(3)]] False by simp
  qed
  with that st(1) mv(1,2) tw c(4) show thesis by blast
qed

text \<open>How the inner loop ends: at the best candidate, or in a better position.\<close>

lemma activate_inner_ok:
  assumes idx: "index_ok s A" and bc: "checks_ok bc A" and b: "b \<in> A" "good bc s b"
  shows "ready bc s A b most cs t \<Longrightarrow> (con \<longrightarrow> new = Some t) \<Longrightarrow>
    \<exists>most' new' con' cs' t'. activate_inner bc (Some b) most new con cs = Some (Inr (Some (most', new', con'), cs')) \<and>
      sel_inv bc s A cs' t' \<and> (con' \<longrightarrow> new' = Some t') \<and>
      (most' = Some t' \<and> best_of bc s A t' \<or>
       con' \<and> ready bc s A t' most' cs' t' \<and> weight s A cs' most' t' < weight s A cs most t)"
proof (induction "weight s A cs most t" arbitrary: most new con cs t rule: less_induct)
  case less
  obtain m cs1 where m: "(case most of None \<Rightarrow> FindMostWorkChain cs | Some m \<Rightarrow> returns (Some m, cs)) = Some (Inr (Some m, cs1))"
    "sel_inv bc s A cs1 t" "best_of bc s A m"
    by (rule round_candidate [OF idx b less.prems(1)])
  have tip: "Tip (cs_chain cs1) = Some t" using m(2) by (simp add: sel_inv_def)
  show ?case
  proof (cases "m = t")
    case True
    then have "activate_inner bc (Some b) most new con cs = Some (Inr (Some (Some m, new, con), cs1))"
      using m(1) tip by (subst activate_inner.simps) simp
    then show ?thesis using m(2,3) True less.prems(2) by blast
  next
    case False
    obtain r cs2 t2 where r: "ActivateBestChainStep bc m cs1 = Some (Inr (True, r = Invalid_found, cs2))"
      "sel_inv bc s A cs2 t2" "kept bc s A b t2 cs2"
      "weight s A cs2 (if r = Invalid_found then None else Some m) t2 < weight s A cs most t"
      "r \<noteq> Invalid_found \<longrightarrow> best_of bc s A m \<and> towards bc s A b m cs2 t2"
      by (rule round_step [OF idx bc b less.prems(1) m(1) False])
    let ?most = "if r = Invalid_found then None else Some m"
    have tip2: "Tip (cs_chain cs2) = Some t2" and cmp: "CBlockIndexWorkComparator (cs_index cs2) t2 b \<longleftrightarrow> work_key s t2 < work_key s b"
      using r(2) b(1) index_okD(3) [OF idx] by (auto simp: sel_inv_def comparator_key)
    note sub = m(1) tip tip2 r(1) cmp False
    have run: "activate_inner bc (Some b) most new con cs =
      (if work_key s t2 < work_key s b then activate_inner bc (Some b) ?most (Some t2) True cs2
       else Some (Inr (Some (?most, Some t2, True), cs2)))"
      by (subst activate_inner.simps) (simp only: sub sum.case option.case prod.case option.distinct option.inject option.sel Let_def simp_thms if_False if_True)
    show ?thesis
    proof (cases "work_key s t2 < work_key s b")
      case True
      then have "ready bc s A b ?most cs2 t2" using r(2,3,5) by (auto simp: ready_def)
      then obtain most' new' con' cs' t' where
        "activate_inner bc (Some b) ?most (Some t2) True cs2 = Some (Inr (Some (most', new', con'), cs'))"
        "sel_inv bc s A cs' t'" "con' \<longrightarrow> new' = Some t'" "most' = Some t' \<and> best_of bc s A t' \<or>
          con' \<and> ready bc s A t' most' cs' t' \<and> weight s A cs' most' t' < weight s A cs2 ?most t2"
        using less.hyps [OF r(4), of True "Some t2"] by blast
      then show ?thesis using run True less_trans [OF _ r(4)] by (metis (no_types))
    next
      case False
      then have k: "kept bc s A t2 t2 cs2" using r(3) by (auto simp: kept_def)
      then have "ready bc s A t2 ?most cs2 t2" using r(2,5) by (simp add: ready_def towards_def)
      then show ?thesis using run False r(2,4) by (metis (no_types))
    qed
  qed
qed

lemma activate_outer_ok:
  assumes idx: "index_ok s A" and bc: "checks_ok bc A"
  shows "ready bc s A t most cs t \<Longrightarrow>
    \<exists>cs' t'. activate_outer bc most new cs = Some (Inr (True, cs')) \<and> sel_inv bc s A cs' t' \<and> best_of bc s A t'"
proof (induction "weight s A cs most t" arbitrary: most new cs t rule: less_induct)
  case less
  have t: "t \<in> A" "good bc s t" "Tip (cs_chain cs) = Some t" using less.prems by (simp_all add: ready_def sel_inv_def)
  obtain most' new' con' cs' t' where i: "activate_inner bc (Some t) most new False cs = Some (Inr (Some (most', new', con'), cs'))"
    "sel_inv bc s A cs' t'" "con' \<longrightarrow> new' = Some t'" "most' = Some t' \<and> best_of bc s A t' \<or>
       con' \<and> ready bc s A t' most' cs' t' \<and> weight s A cs' most' t' < weight s A cs most t"
    using activate_inner_ok [OF idx bc t(1,2) less.prems, of False new] by auto
  have run: "activate_outer bc most new cs =
    (if con' \<and> most' \<noteq> Some t' then activate_outer bc most' new' cs' else Some (Inr (True, cs')))"
    using i(1,3) t(3) by (subst activate_outer.simps) auto
  show ?case
  proof (cases "most' = Some t'")
    case True
    then have "best_of bc s A t'" using i(4) by (auto simp: ready_def)
    then show ?thesis unfolding run using True i(2) by auto
  next
    case False
    then have "con'" "ready bc s A t' most' cs' t'" "weight s A cs' most' t' < weight s A cs most t" using i(4) by auto
    with less.hyps show ?thesis unfolding run using False by simp
  qed
qed

text \<open>
  C5. \<^verbatim>\<open>ActivateBestChain\<close> activates the best chain. Let the index be a tree with one root and
  growing work, let the active chain be good and let the candidates contain every good block that
  is not worse than the tip, where a block is good if it and its ancestors are stored, not marked
  as failed, and valid. If no system error occurs, then, whatever candidates turn out to be invalid
  on the way and however often the chain is reorganised, no assertion fails, both loops end, the
  call succeeds, the active chain is again a chain of good blocks, no good block is better than its
  tip in the order of candidates, and no good block has been marked as failed.
\<close>

theorem ActivateBestChain_best:
  assumes idx: "index_ok (cs_index cs) A" and bc: "checks_ok bc A"
    and tip: "t \<in> A" "cs_chain cs = path_to (cs_index cs) t" "good bc (cs_index cs) t"
    and cands: "\<forall>c \<in> set (cs_candidates cs). c \<in> A \<and> linked (cs_index cs) c"
      "\<forall>a \<in> A. good bc (cs_index cs) a \<and> \<not> CBlockIndexWorkComparator (cs_index cs) a t \<longrightarrow> a \<in> set (cs_candidates cs)"
  shows "\<exists>cs' t'. ActivateBestChain bc cs = Some (Inr (True, cs')) \<and> t' \<in> A \<and> cs_chain cs' = path_to (cs_index cs) t' \<and>
    good bc (cs_index cs) t' \<and>
    (\<forall>a \<in> A. good bc (cs_index cs) a \<longrightarrow>
       \<not> CBlockIndexWorkComparator (cs_index cs) t' a \<and> \<not> failed (cs_index cs') a)"
proof -
  let ?s = "cs_index cs"
  have cmp: "CBlockIndexWorkComparator ?s a b \<longleftrightarrow> work_key ?s a < work_key ?s b" if "a \<in> A" "b \<in> A" for a b
    using comparator_key index_okD(3) [OF idx] that by blast
  have "sel_inv bc ?s A cs t"
    using tip cands(1) with_status_self [of ?s, symmetric] good_self by (auto simp: sel_inv_def)
  moreover have "kept bc ?s A t t cs" using cands(2) cmp tip(1) by (simp add: kept_def not_less)
  ultimately have "ready bc ?s A t None cs t" by (simp add: ready_def)
  then obtain cs' t' where r: "ActivateBestChain bc cs = Some (Inr (True, cs'))" "sel_inv bc ?s A cs' t'" "best_of bc ?s A t'"
    using activate_outer_ok [OF idx bc] unfolding ActivateBestChain_def by blast
  have "t' \<in> A" using r(2) by (simp add: sel_inv_def)
  then show ?thesis using r cmp by (intro exI [of _ cs'] exI [of _ t']) (auto simp: sel_inv_def best_of_def not_less)
qed

text \<open>
  A block tree for examples: the entries 1 and 2 are children of the root 0, the others follow 2
  in a line; the last one, 4, is invalid, and 1 is the tip.
\<close>

definition fork_store :: store where
  "fork_store a = (line_store 0 a)\<lparr>bi_pprev := (if a = 0 then None else if a \<le> 2 then Some 0 else Some (a - 1)),
     bi_pskip := None, bi_nHeight := (if a \<le> 1 then a else a - 1), bi_nChainWork := of_nat (a + 1) # replicate 7 0,
     bi_nTx := 1, bi_nChainTx := 1, bi_nStatus := 8\<rparr>"

definition fork_checks :: block_checks where
  "fork_checks = \<lparr>bc_hashGenesisBlock = 0, bc_connect = (\<lambda>a. if a = 4 then Block_invalid False else Block_ok),
     bc_disconnect = (\<lambda>_. True)\<rparr>"

definition fork_state :: chain_state where
  "fork_state = \<lparr>cs_index = fork_store, cs_blocks = [0, 1, 2, 3, 4], cs_candidates = [1, 2, 3, 4],
     cs_chain = [Some 0, Some 1], cs_unlinked = [], cs_bestInvalid = None, cs_bestHeader = Some 4, cs_failed = [],
     cs_nBlockSequenceId = 5, cs_nBlockReverseSequenceId = - 1, cs_nLastPreciousChainwork = replicate 8 0,
     cs_setStakeSeen = []\<rparr>"

lemma fork_store_fields:
  "bi_pprev (fork_store a) = (if a = 0 then None else if a \<le> 2 then Some 0 else Some (a - 1))"
  "bi_pskip (fork_store a) = None" "bi_nHeight (fork_store a) = (if a \<le> 1 then a else a - 1)"
  "bi_nChainWork (fork_store a) = of_nat (a + 1) # replicate 7 0" "\<not> failed fork_store a" "has_data fork_store a"
  "linked fork_store a"
  by (simp_all add: fork_store_def failed_def has_data_def BLOCK_FAILED_MASK_def BLOCK_HAVE_DATA_def linked_def
      HaveTxsDownloaded_def)

lemma fork_store_work:
  assumes "a < 5"
  shows "val (bi_nChainWork (fork_store a)) = a + 1"
proof -
  have "unat (of_nat (a + 1) :: uint32) = a + 1" using assms by (simp add: unsigned_of_nat take_bit_nat_eq_self del: of_nat_add of_nat_Suc)
  then show ?thesis by (simp add: fork_store_fields del: of_nat_add of_nat_Suc)
qed

lemma fork_store_ok: "index_ok fork_store {..<5}"
  unfolding index_ok_def
proof (intro conjI ballI allI impI)
  show "tree_ok fork_store {..<5}" by (auto simp: tree_ok_def fork_store_fields split: if_splits)
  fix a p assume "a \<in> {..<5 :: nat}" "bi_pprev (fork_store a) = Some p"
  then have "a < 5" "p < a" by (auto simp: fork_store_fields split: if_splits)
  then show "val (bi_nChainWork (fork_store p)) < val (bi_nChainWork (fork_store a))" using fork_store_work by simp
qed (auto simp: fork_store_fields limbs_ok_def WIDTH_def split: if_splits)

lemma fork_store_good: "good fork_checks fork_store a \<longleftrightarrow> \<not> ancestor fork_store a 4"
  by (auto simp: good_def fork_store_fields fork_checks_def)

theorem ActivateBestChain_best_witness:
  "\<exists>cs' t'. ActivateBestChain fork_checks fork_state = Some (Inr (True, cs')) \<and> t' \<in> {..<5} \<and>
    cs_chain cs' = path_to fork_store t' \<and> good fork_checks fork_store t' \<and>
    (\<forall>a \<in> {..<5}. good fork_checks fork_store a \<longrightarrow>
       \<not> CBlockIndexWorkComparator fork_store t' a \<and> \<not> failed (cs_index cs') a)"
proof -
  have s: "cs_index fork_state = fork_store" "cs_candidates fork_state = [1, 2, 3, 4]" by (simp_all add: fork_state_def)
  show ?thesis
  proof (rule ActivateBestChain_best [where cs = fork_state and t = 1, unfolded s])
    show "good fork_checks fork_store 1" using ancestor_le [of fork_store 1 4] by (auto simp: fork_store_good fork_store_fields)
    show "cs_chain fork_state = path_to fork_store 1"
      by (simp add: fork_state_def path_to_def naive_ancestor_def fork_store_fields upt_rec)
    show "\<forall>a \<in> {..<5}. good fork_checks fork_store a \<and> \<not> CBlockIndexWorkComparator fork_store a 1 \<longrightarrow> a \<in> set [1, 2, 3, 4]"
    proof (intro ballI impI)
      fix a assume a: "a \<in> {..<5 :: nat}" "good fork_checks fork_store a \<and> \<not> CBlockIndexWorkComparator fork_store a 1"
      then have "work_key fork_store 1 \<le> work_key fork_store a"
        using comparator_key [of fork_store a 1] index_okD(3) [OF fork_store_ok] by (simp add: not_less)
      then have "a \<noteq> 0" using fork_store_work [of 0] fork_store_work [of 1] by (cases "a = 0") (auto simp: work_key_def less_eq_prod_def)
      with a(1) show "a \<in> set [1, 2, 3, 4]" by auto
    qed
  qed (auto simp: fork_store_ok fork_store_fields checks_ok_def fork_checks_def)
qed

section \<open>Adding a block to the index\<close>

lemma go_back_links:
  assumes ok: "tree_ok s A" and eq: "\<And>a. a \<in> A \<Longrightarrow> bi_pprev (s' a) = bi_pprev (s a)"
  shows "a \<in> A \<Longrightarrow> go_back s' n a = go_back s n a"
proof (induction n arbitrary: a)
  case (Suc n)
  show ?case using Suc eq [OF Suc.prems] tree_okD(2) [OF ok Suc.prems] by (cases "bi_pprev (s a)") simp_all
qed simp

lemma tree_ok_links:
  assumes ok: "tree_ok s A" and eq: "\<And>a. a \<in> A \<Longrightarrow> bi_pprev (s' a) = bi_pprev (s a) \<and> bi_pskip (s' a) = bi_pskip (s a) \<and>
    bi_nHeight (s' a) = bi_nHeight (s a)"
  shows "tree_ok s' A"
proof -
  have gb: "go_back s' n a = go_back s n a" if "a \<in> A" for a n
    by (rule go_back_links [OF ok _ that]) (simp add: eq)
  have anc: "naive_ancestor s' a h = naive_ancestor s a h" if "a \<in> A" for a h
    unfolding naive_ancestor_def using gb [OF that] eq [OF that] by simp
  show ?thesis unfolding tree_ok_def
  proof
    fix a assume a: "a \<in> A"
    note e = eq [OF a]
    have "p \<in> A \<and> bi_nHeight (s a) = Suc (bi_nHeight (s' p))" if p: "bi_pprev (s a) = Some p" for p
      using tree_okD(2,3) [OF ok a p] eq [OF tree_okD(2) [OF ok a p]] by metis
    then show "(bi_pprev (s' a) = None) = (bi_nHeight (s' a) = 0) \<and>
         (\<forall>p. bi_pprev (s' a) = Some p \<longrightarrow> p \<in> A \<and> bi_nHeight (s' a) = Suc (bi_nHeight (s' p))) \<and>
         (\<forall>q. bi_pskip (s' a) = Some q \<longrightarrow> naive_ancestor s' a (GetSkipHeight (bi_nHeight (s' a))) = Some q)"
      unfolding anc [OF a] using e tree_okD(1,4) [OF ok a] by metis
  qed
qed

lemma BuildSkip_only_pskip:
  assumes "BuildSkip a s = Inr s'"
  obtains x where "s' = s(a := (s a)\<lparr>bi_pskip := x\<rparr>)"
proof (cases "bi_pprev (s a)")
  case None
  then show thesis using assms that [of "bi_pskip (s a)"] by (simp add: BuildSkip_def)
next
  case (Some p)
  then show thesis using assms that by (cases "GetAncestor s p (int (GetSkipHeight (bi_nHeight (s a))))") (auto simp: BuildSkip_def)
qed

lemma link_parent_ok:
  assumes ok: "tree_ok s A" and p: "p \<in> A" and new: "new \<notin> A"
  obtains x where "link_parent new (Some p) (s(new := b)) =
      Inr (s(new := b\<lparr>bi_pprev := Some p, bi_nHeight := Suc (bi_nHeight (s p)), bi_pskip := x\<rparr>))"
    "tree_ok (s(new := b\<lparr>bi_pprev := Some p, bi_nHeight := Suc (bi_nHeight (s p)), bi_pskip := x\<rparr>)) (insert new A)"
proof -
  let ?s = "s(new := b\<lparr>bi_pprev := Some p, bi_nHeight := Suc (bi_nHeight (s p))\<rparr>)"
  have ne: "p \<noteq> new" using p new by blast
  have "tree_ok ?s A" using new by (intro tree_ok_links [OF ok]) auto
  then obtain s' where s': "BuildSkip new ?s = Inr s'" "tree_ok s' (insert new A)"
    using BuildSkip_ok [of ?s A new p] p new ne by auto
  obtain x where "s' = ?s(new := (?s new)\<lparr>bi_pskip := x\<rparr>)" using BuildSkip_only_pskip [OF s'(1)] .
  then have "s' = s(new := b\<lparr>bi_pprev := Some p, bi_nHeight := Suc (bi_nHeight (s p)), bi_pskip := x\<rparr>)" by simp
  then show thesis using that s' ne by (simp add: link_parent_def)
qed

lemma target_of_less: "target_of nBits = Some t \<Longrightarrow> t + 1 < 2 ^ 256"
  using target_of_facts(2,3) [of nBits] by (cases "SetCompact nBits") (auto split: if_splits)

lemma tree_level: "2 AND NOT BLOCK_VALID_MASK = 0"
  by (simp add: BLOCK_VALID_MASK_def)

lemma RaiseValidity_tree:
  obtains f st where "RaiseValidity 2 b = Inr (f, b\<lparr>bi_nStatus := st\<rparr>)"
proof (cases "bi_nStatus b AND BLOCK_FAILED_MASK = 0 \<and> bi_nStatus b AND BLOCK_VALID_MASK < 2")
  case True
  then have "RaiseValidity 2 b = Inr (True, b\<lparr>bi_nStatus := (bi_nStatus b AND NOT BLOCK_VALID_MASK) OR 2\<rparr>)"
    by (simp add: RaiseValidity_def tree_level)
  then show thesis by (rule that)
next
  case False
  then have "RaiseValidity 2 b = Inr (False, b\<lparr>bi_nStatus := bi_nStatus b\<rparr>)" by (auto simp: RaiseValidity_def tree_level)
  then show thesis by (rule that)
qed

text \<open>The entry that \<^verbatim>\<open>AddToBlockIndex\<close> makes for a block with a known parent.\<close>

lemma AddToBlockIndex_run:
  assumes ok: "tree_ok (cs_index cs) A" and A: "set (cs_blocks cs) = A" and new: "new \<notin> A"
    and hash: "find_block cs hash = None" "hash \<noteq> hdr_hashPrevBlock block"
    and p: "find_block cs (hdr_hashPrevBlock block) = Some p"
  obtains b w cs' where "AddToBlockIndex H block hash new cs = Inr (new, cs')" "cs_index cs' = (cs_index cs)(new := b)"
    "cs_blocks cs' = new # cs_blocks cs" "tree_ok (cs_index cs') (insert new A)" "p \<in> A" "bi_hash b = hash" "bi_pprev b = Some p"
    "bi_nHeight b = Suc (bi_nHeight (cs_index cs p))" "bi_nChainWork b = base_uint_add (bi_nChainWork (cs_index cs p)) w"
    "limbs_ok w" "val w = (case target_of (hdr_nBits block) of None \<Rightarrow> 0 | Some t \<Rightarrow> 2 ^ 256 div (t + 1))"
    "\<And>h. cs_bestHeader cs = Some h \<Longrightarrow> h \<in> A \<Longrightarrow> cs_bestHeader cs' =
      (if CompareTo (bi_nChainWork (cs_index cs h)) (bi_nChainWork b) < 0 then Some new else Some h)"
proof -
  let ?s = "cs_index cs" and ?b = "CBlockIndex_of block hash"
  have pA: "p \<in> A" using p A by (auto simp: find_block_def find_Some_iff)
  have "List.find (\<lambda>a. bi_hash ((?s(new := ?b)) a) = hdr_hashPrevBlock block) (cs_blocks cs) =
      List.find (\<lambda>a. bi_hash (?s a) = hdr_hashPrevBlock block) (cs_blocks cs)"
    by (rule find_cong) (use new A in auto)
  then have prev: "List.find (\<lambda>a. bi_hash ((?s(new := ?b)) a) = hdr_hashPrevBlock block) (new # cs_blocks cs) = Some p"
    using hash(2) p by (simp add: CBlockIndex_of_def find_block_def)
  obtain x where l: "link_parent new (Some p) (?s(new := ?b)) =
      Inr (?s(new := ?b\<lparr>bi_pprev := Some p, bi_nHeight := Suc (bi_nHeight (?s p)), bi_pskip := x\<rparr>))"
    "tree_ok (?s(new := ?b\<lparr>bi_pprev := Some p, bi_nHeight := Suc (bi_nHeight (?s p)), bi_pskip := x\<rparr>)) (insert new A)"
    by (rule link_parent_ok [OF ok pA new])
  define b1 where "b1 = ?b\<lparr>bi_pprev := Some p, bi_nHeight := Suc (bi_nHeight (?s p)), bi_pskip := x\<rparr>"
  have b1: "bi_pprev b1 = Some p" "bi_hash b1 = hash" "bi_nHeight b1 = Suc (bi_nHeight (?s p))" "bi_nBits b1 = hdr_nBits block"
    by (simp_all add: b1_def CBlockIndex_of_def)
  obtain w where w: "GetBlockProof b1 = Inr w" "limbs_ok w"
    "val w = (case target_of (hdr_nBits block) of None \<Rightarrow> 0 | Some t \<Rightarrow> 2 ^ 256 div (t + 1))"
    using GetBlockProof_val [of b1] by (auto simp: b1(4))
  have np: "p \<noteq> new" using pA new by blast
  define b2 where "b2 = b1\<lparr>bi_nTimeMax := max (bi_nTimeMax (?s p)) (bi_nTime b1),
     bi_nChainWork := base_uint_add (bi_nChainWork (?s p)) w,
     bi_nStakeModifier := ComputeStakeModifier H (?s(new := b1)) (Some p)
       (if IsProofOfStake block then outpoint_hash (hdr_prevoutStake block) else hash)\<rparr>"
  obtain f st where r: "RaiseValidity 2 b2 = Inr (f, b2\<lparr>bi_nStatus := st\<rparr>)" by (rule RaiseValidity_tree)
  define b3 where "b3 = b2\<lparr>bi_nStatus := st\<rparr>"
  obtain cs' where run: "AddToBlockIndex H block hash new cs = Inr (new, cs')" and cs': "cs_index cs' = ?s(new := b3)"
    "cs_blocks cs' = new # cs_blocks cs" "cs_bestHeader cs' = (case cs_bestHeader cs of None \<Rightarrow> Some new
       | Some h \<Rightarrow> if CompareTo (bi_nChainWork ((?s(new := b3)) h)) (bi_nChainWork b3) < 0 then Some new else Some h)"
    using hash(1) prev l(1) w(1) r np b1
    by (simp add: AddToBlockIndex_def Let_def flip: b1_def b2_def b3_def cong: option.case_cong)
  have "tree_ok (cs_index cs') (insert new A)"
    unfolding cs'(1) by (rule tree_ok_links [OF l(2)]) (auto simp: b3_def b2_def b1_def)
  then show thesis
    using that [OF run cs'(1,2) _ pA] w(2,3) b1 cs'(3) new by (auto simp: b3_def b2_def)
qed

text \<open>
  C22. Adding a header to the index keeps it in order (\<^verbatim>\<open>AddToBlockIndex\<close>): let the hash be new, the
  parent known, the bits stand for a target, and the total work be representable. Then no
  assertion fails and nothing is raised, the old entries do not change, the new entry is found
  under its hash, is one above its parent and has exactly the parent's work plus the work of its
  target; the index is again a tree with consistent skip pointers and growing work, and the best
  header is again one with the most work.
\<close>

theorem AddToBlockIndex_keeps_index:
  assumes idx: "index_ok (cs_index cs) A" and A: "set (cs_blocks cs) = A" and new: "new \<notin> A"
    and hash: "find_block cs hash = None" "hash \<noteq> hdr_hashPrevBlock block"
    and p: "find_block cs (hdr_hashPrevBlock block) = Some p"
    and work: "target_of (hdr_nBits block) = Some target" "val (bi_nChainWork (cs_index cs p)) + 2 ^ 256 div (target + 1) < 2 ^ 256"
    and best: "cs_bestHeader cs = Some h" "h \<in> A" "\<forall>a \<in> A. val (bi_nChainWork (cs_index cs a)) \<le> val (bi_nChainWork (cs_index cs h))"
  shows "\<exists>cs'. AddToBlockIndex H block hash new cs = Inr (new, cs') \<and> index_ok (cs_index cs') (insert new A) \<and>
    set (cs_blocks cs') = insert new A \<and> (\<forall>a \<in> A. cs_index cs' a = cs_index cs a) \<and> find_block cs' hash = Some new \<and>
    bi_pprev (cs_index cs' new) = Some p \<and> bi_nHeight (cs_index cs' new) = Suc (bi_nHeight (cs_index cs p)) \<and>
    val (bi_nChainWork (cs_index cs' new)) = val (bi_nChainWork (cs_index cs p)) + 2 ^ 256 div (target + 1) \<and>
    (\<exists>h'. cs_bestHeader cs' = Some h' \<and> h' \<in> insert new A \<and>
      (\<forall>a \<in> insert new A. val (bi_nChainWork (cs_index cs' a)) \<le> val (bi_nChainWork (cs_index cs' h'))))"
proof -
  let ?s = "cs_index cs"
  obtain b w cs' where run: "AddToBlockIndex H block hash new cs = Inr (new, cs')" "cs_index cs' = ?s(new := b)"
    "cs_blocks cs' = new # cs_blocks cs" and tree: "tree_ok (cs_index cs') (insert new A)" and pA: "p \<in> A"
    and b: "bi_hash b = hash" "bi_pprev b = Some p" "bi_nHeight b = Suc (bi_nHeight (?s p))"
      "bi_nChainWork b = base_uint_add (bi_nChainWork (?s p)) w"
    and w: "limbs_ok w" "val w = (case target_of (hdr_nBits block) of None \<Rightarrow> 0 | Some t \<Rightarrow> 2 ^ 256 div (t + 1))"
    and hdr: "\<And>h. cs_bestHeader cs = Some h \<Longrightarrow> h \<in> A \<Longrightarrow> cs_bestHeader cs' =
      (if CompareTo (bi_nChainWork (?s h)) (bi_nChainWork b) < 0 then Some new else Some h)"
    by (rule AddToBlockIndex_run [OF index_okD(2) [OF idx] A new hash p]) blast
  have lim: "limbs_ok (bi_nChainWork b)" and val: "val (bi_nChainWork b) = val (bi_nChainWork (?s p)) + 2 ^ 256 div (target + 1)"
    using add_val [OF index_okD(3) [OF idx pA] w(1)] w(2) work by (simp_all add: b(4))
  have old: "cs_index cs' a = ?s a" if "a \<in> A" for a using that new by (auto simp: run(2))
  have "target + 1 < 2 ^ 256" using target_of_less [OF work(1)] .
  then have pos: "0 < 2 ^ 256 div (target + 1)" by (simp add: div_greater_zero_iff)
  have "index_ok (cs_index cs') (insert new A)"
    unfolding index_ok_def
  proof (intro conjI ballI allI impI)
    fix a q assume a: "a \<in> insert new A" "bi_pprev (cs_index cs' a) = Some q"
    show "val (bi_nChainWork (cs_index cs' q)) < val (bi_nChainWork (cs_index cs' a))"
    proof (cases "a = new")
      case True
      then show ?thesis using a(2) b(2) val pos old [OF pA] by (simp add: run(2))
    next
      case False
      then have aA: "a \<in> A" "bi_pprev (?s a) = Some q" using a old by auto
      then have "q \<in> A" using tree_okD(2) [OF index_okD(2) [OF idx]] by blast
      then show ?thesis using index_okD(4) [OF idx aA] old aA(1) by simp
    qed
  next
    fix a c assume "a \<in> insert new A" "c \<in> insert new A" "bi_nHeight (cs_index cs' a) = 0 \<and> bi_nHeight (cs_index cs' c) = 0"
    then show "a = c" using index_okD(5) [OF idx, of a c] b(3) by (auto simp: run(2) split: if_splits)
  qed (use index_okD [OF idx] tree lim in \<open>auto simp: run(2)\<close>)
  moreover have "\<exists>h'. cs_bestHeader cs' = Some h' \<and> h' \<in> insert new A \<and>
      (\<forall>a \<in> insert new A. val (bi_nChainWork (cs_index cs' a)) \<le> val (bi_nChainWork (cs_index cs' h')))"
    using hdr [OF best(1,2)] best(2,3) new CompareTo_order(4) [OF index_okD(3) [OF idx best(2)] lim]
    by (cases "val (bi_nChainWork (?s h)) < val (bi_nChainWork b)") (auto simp: run(2) intro: order.trans less_imp_le)
  ultimately show ?thesis using run b val A old by (auto simp: find_block_def)
qed

definition child_header :: CBlockHeader where
  "child_header = \<lparr>hdr_nVersion = 1, hdr_hashPrevBlock = 3, hdr_hashMerkleRoot = 0, hdr_nTime = 0, hdr_nBits = 0x207fffff,
     hdr_nNonce = 0, hdr_hashStateRoot = 0, hdr_hashUTXORoot = 0, hdr_prevoutStake = COutPoint_null, hdr_vchBlockSigDlgt = []\<rparr>"

lemma child_target: "target_of 0x207fffff = Some (0x7fffff * 2 ^ 232)"
proof -
  obtain t neg ov where s: "SetCompact 0x207fffff = (t, neg, ov)" by (metis prod_cases3)
  have "of_compact (unat (0x207fffff :: uint32)) = 0x7fffff * 2 ^ 232" by (simp add: of_compact_def)
  with SetCompact_val [OF s] have "\<not> ov" "\<not> neg" "val t = 0x7fffff * 2 ^ 232" by auto
  with target_of_facts(2) [OF s] show ?thesis by simp
qed

theorem AddToBlockIndex_keeps_index_witness:
  "\<exists>cs'. AddToBlockIndex (\<lambda>_. 0) child_header 100 5 fork_state = Inr (5, cs') \<and> index_ok (cs_index cs') (insert 5 {..<5}) \<and>
    bi_pprev (cs_index cs' 5) = Some 3 \<and> bi_nHeight (cs_index cs' 5) = 3 \<and> val (bi_nChainWork (cs_index cs' 5)) = 6"
proof -
  have s: "cs_index fork_state = fork_store" "cs_blocks fork_state = [0, 1, 2, 3, 4]" "cs_bestHeader fork_state = Some 4"
    by (simp_all add: fork_state_def)
  have h: "bi_hash (fork_store a) = of_nat a" for a by (simp add: fork_store_def line_store_def)
  have "find_block fork_state 100 = None" "find_block fork_state (hdr_hashPrevBlock child_header) = Some 3"
    by (simp_all add: find_block_def s h child_header_def)
  moreover have "\<forall>a \<in> {..<5}. val (bi_nChainWork (fork_store a)) \<le> val (bi_nChainWork (fork_store 4))"
    using fork_store_work by simp
  moreover have "target_of (hdr_nBits child_header) = Some (0x7fffff * 2 ^ 232)"
    using child_target by (simp add: child_header_def)
  moreover have "val (bi_nChainWork (fork_store 3)) + 2 ^ 256 div (0x7fffff * 2 ^ 232 + 1) < 2 ^ 256"
    using fork_store_work [of 3] by simp
  moreover have "set (cs_blocks fork_state) = {..<5}" by (auto simp: s)
  ultimately show ?thesis
    using AddToBlockIndex_keeps_index [of fork_state "{..<5}" 5 100 child_header 3 "0x7fffff * 2 ^ 232" 4 "\<lambda>_. 0"] fork_store_ok
    by (auto simp: s child_header_def fork_store_fields)
qed

section \<open>Receiving the transactions of a block\<close>

text \<open>The queue of blocks that can be linked now is worked off, whatever \<^verbatim>\<open>mapBlocksUnlinked\<close> holds.\<close>

lemma link_block_unlinked [simp]: "cs_unlinked (link_block a cs) = cs_unlinked cs"
  by (simp add: link_block_def insert_candidate_def Let_def split: option.split)

lemma link_queue_returns: "\<exists>cs'. link_queue queue cs = Some cs'"
proof (induction "length queue + 2 * length (cs_unlinked cs)" arbitrary: queue cs rule: less_induct)
  case less
  show ?case
  proof (cases queue)
    case Nil
    then show ?thesis by (subst link_queue.simps) simp
  next
    case (Cons a rest)
    let ?u = "cs_unlinked cs" and ?cs = "link_block a cs"
    let ?queue = "rest @ map snd (filter (\<lambda>(p, _). p = a) ?u)"
    let ?cs' = "?cs\<lparr>cs_unlinked := filter (\<lambda>(p, _). p \<noteq> a) ?u\<rparr>"
    have "length (filter (\<lambda>(p, _). p = a) ?u) + length (filter (\<lambda>(p, _). p \<noteq> a) ?u) = length ?u"
      using sum_length_filter_compl [of "\<lambda>(p, _). p = a" ?u] by (simp add: case_prod_unfold)
    then have "length ?queue + 2 * length (cs_unlinked ?cs') < length queue + 2 * length ?u" by (simp add: Cons)
    then have "\<exists>cs'. link_queue ?queue ?cs' = Some cs'" by (rule less.hyps)
    then show ?thesis by (subst link_queue.simps) (simp add: Cons Let_def)
  qed
qed

lemma ReceivedBlockTransactions_returns: "\<exists>cs'. ReceivedBlockTransactions n witness a cs = Some (Inr cs')"
proof -
  have l: "(3 :: uint32) AND NOT BLOCK_VALID_MASK = 0" by (simp add: BLOCK_VALID_MASK_def)
  have r: "\<exists>f b'. RaiseValidity 3 b = Inr (f, b')" for b by (auto simp: RaiseValidity_def l)
  have v: "\<exists>v. IsValid 2 b = Inr v" for b
    by (cases "bi_nStatus b AND BLOCK_FAILED_MASK = 0") (auto simp: IsValid_def tree_level)
  define b where "b = (cs_index cs a)\<lparr>bi_nTx := of_nat n, bi_nChainTx := 0\<rparr>"
  define b1 where "b1 = b\<lparr>bi_nStatus := bi_nStatus b OR BLOCK_HAVE_DATA OR (if witness then BLOCK_OPT_WITNESS else 0)\<rparr>"
  obtain f b2 where b2: "RaiseValidity 3 b1 = Inr (f, b2)" using r by blast
  obtain cs1 where cs1: "link_queue [a] (cs\<lparr>cs_index := (cs_index cs)(a := b2)\<rparr>) = Some cs1" using link_queue_returns by blast
  show ?thesis
  proof (cases "bi_pprev b2")
    case None
    then show ?thesis by (simp add: ReceivedBlockTransactions_def Let_def returns_def cs1 b2 flip: b_def b1_def)
  next
    case (Some p)
    obtain x where "IsValid 2 (((cs_index cs)(a := b2)) p) = Inr x" using v by blast
    with Some show ?thesis
      by (simp add: ReceivedBlockTransactions_def Let_def returns_def cs1 b2 del: fun_upd_apply flip: b_def b1_def)
  qed
qed

end
