(* ===== verification/Spec2Isabelle.thy ===== *)
theory Spec2Isabelle
  imports TxVerify Pow Merkle VersionBits ChainSelect
begin

text \<open>
  A verification of consensus code of the Hydra node (\<^verbatim>\<open>src/src/\<close>, C++ derived from Bitcoin
  Core and Qtum).

  \<^bold>\<open>The program.\<close> A node receives transactions and blocks as bytes (\<^verbatim>\<open>serialize.h\<close>,
  \<^verbatim>\<open>primitives/\<close>), places block headers in a tree of index entries and keeps the path to its
  best tip (\<^verbatim>\<open>chain.cpp\<close>), computes the difficulty the next header must have (\<^verbatim>\<open>pow.cpp\<close>,
  \<^verbatim>\<open>arith_uint256.cpp\<close>), checks each transaction of a block against the unspent outputs it
  refers to (\<^verbatim>\<open>consensus/tx_verify.cpp\<close>), runs the scripts of the outputs spent
  (\<^verbatim>\<open>script/interpreter.cpp\<close>), and applies the block to a stack of caches over a database of
  unspent outputs (\<^verbatim>\<open>coins.cpp\<close>, \<^verbatim>\<open>txdb.cpp\<close>, \<^verbatim>\<open>validation.cpp\<close>), from which it can be taken off
  again with the undo data recorded. Outputs may hold contract code and calls
  (\<^verbatim>\<open>script/standard.cpp\<close>, \<^verbatim>\<open>qtum/qtumtransaction.h\<close>).

  \<^bold>\<open>The theories\<close>, in the order in which they build on each other.

  \<^item> \<open>Prelude\<close>: bytes as lists, results as sums (\<open>Inl\<close> is an exception, an error code or a failed
    assertion), readers over byte streams, little-endian numbers; the fact collections.
  \<^item> \<open>Serialize\<close> (\<^verbatim>\<open>serialize.h\<close>, \<^verbatim>\<open>streams.h\<close>): integers, compact sizes, variable-length
    integers, vectors. The locales \<open>codec\<close> and \<open>canonical_codec\<close> are the contract between an
    encoder and a reader; every format of the development interprets one of them.
  \<^item> \<open>ScriptNum\<close>, \<open>Script\<close> (\<^verbatim>\<open>script/script.h\<close>, \<^verbatim>\<open>script/script.cpp\<close>): \<^verbatim>\<open>CScriptNum\<close>,
    instruction decoding, pushes, script templates, counts of signature operations, the
    parameters of contract scripts.
  \<^item> \<open>SigEncoding\<close>, \<open>ScriptOps\<close>, \<open>Interpreter\<close> (\<^verbatim>\<open>script/interpreter.cpp\<close>): encodings of
    signatures and keys, one definition per opcode group, \<^verbatim>\<open>EvalScript\<close>,
    \<^verbatim>\<open>VerifyWitnessProgram\<close>, \<^verbatim>\<open>VerifyScript\<close>. The state of the interpreter is the record
    \<open>estate\<close>; the signature checker and the hash functions are arguments.
  \<^item> \<open>Transaction\<close> (\<^verbatim>\<open>primitives/\<close>): transactions and blocks with both encodings, identifiers,
    block signatures and delegation.
  \<^item> \<open>Sighash\<close> (\<^verbatim>\<open>script/interpreter.cpp\<close>): the hashes that signatures sign and the checkers.
  \<^item> \<open>Standard\<close> (\<^verbatim>\<open>script/standard.cpp\<close>): \<^verbatim>\<open>Solver\<close> and destinations.
  \<^item> \<open>Coins\<close> (\<^verbatim>\<open>coins.cpp\<close>, \<^verbatim>\<open>txdb.cpp\<close>): the coin caches and the coin database. The locale
    \<open>coins_view\<close> is the contract of a view; it is interpreted for the database, for a cache over
    the database and again for a cache over that cache.
  \<^item> \<open>Utxo\<close> (\<^verbatim>\<open>validation.cpp\<close>): applying the transactions of a block to a view, and undoing it.
  \<^item> \<open>Chain\<close> (\<^verbatim>\<open>chain.cpp\<close>, \<^verbatim>\<open>chain.h\<close>): block index entries as a store of records, the skip
    list, the active chain, forks, locators.
  \<^item> \<open>Params\<close> (\<^verbatim>\<open>consensus/params.h\<close>, \<^verbatim>\<open>chainparams.cpp\<close>): consensus parameters.
  \<^item> \<open>TxVerify\<close> (\<^verbatim>\<open>consensus/tx_verify.cpp\<close>): finality, sequence locks, signature operation cost,
    \<^verbatim>\<open>CheckTransaction\<close>, the rules for contract transactions, \<^verbatim>\<open>CheckTxInputs\<close>.
  \<^item> \<open>Arith\<close> (\<^verbatim>\<open>arith_uint256.cpp\<close>): 256-bit numbers as eight 32-bit limbs, the compact format.
  \<^item> \<open>Pow\<close> (\<^verbatim>\<open>pow.cpp\<close>): retargeting, proof of work, the work of a block.
  \<^item> \<open>Merkle\<close> (\<^verbatim>\<open>consensus/merkle.cpp\<close>, \<^verbatim>\<open>merkleblock.cpp\<close>): Merkle roots, partial Merkle trees.
  \<^item> \<open>VersionBits\<close> (\<^verbatim>\<open>versionbits.cpp\<close>): the state machine by which rule changes are deployed.
  \<^item> \<open>ChainSelect\<close> (\<^verbatim>\<open>CChainState\<close> of \<^verbatim>\<open>validation.cpp\<close>): the candidates and their order, finding and
    activating the best chain, adding headers and received blocks to the index, marking and
    unmarking invalid blocks. The state is the record \<open>chain_state\<close>; what connecting a block says of
    it is the argument \<open>bc\<close>.

  \<^bold>\<open>What is proved.\<close> Formats: readers accept exactly what writers produce, for numbers, vectors,
  transactions and blocks. Scripts: no script makes the interpreter assert or overflow; removing
  flags never turns acceptance into rejection; \<^verbatim>\<open>OP_CHECKMULTISIG\<close> finds a matching if there is
  one; a payment to a key hash is spent exactly by the right key and signature; unspendable scripts
  fail. Signature hashes: the in-place serializer equals the reference on a modified copy, caching
  is transparent, signatures cover no signature. Coins: caches over caches over the database refine
  a map; a flush that is cut off leaves a database that says so; disconnecting a block undoes
  connecting it. Transactions: what the checks accept is applied without error and creates no
  value; lock times and sequence locks hold what the scripts demand. Block tree: skip pointers and
  step by step walks agree, the active chain is the path to the tip, forks and common ancestors are
  the highest ones. Difficulty: the limb loops refine arithmetic modulo \<open>2 ^ 256\<close>, the computation
  of the next difficulty always returns a target in range, work is the exact quotient. Merkle trees:
  roots commit to lists whose tree is not reported as mutated, proofs of inclusion are sound and
  complete. Deployment: the cached computation of states agrees with the reference, and the states
  follow the state machine. Chain selection: activating the best chain ends, without a failed
  assertion, at a chain of valid blocks that no other such chain beats, whatever blocks turn out
  invalid on the way; adding a header keeps the index in order.

  \<^bold>\<open>Integers, errors, loops.\<close> Stored integers are words of their width. \<^verbatim>\<open>CAmount\<close> is an \<open>int\<close>
  with the 64-bit range as an explicit condition wherever a sum could leave it. Heights and sizes
  are natural numbers. Exceptions, failed assertions and error codes are values. Loops are
  structural or have a termination proof; where the code follows pointers the loop is a
  \<^theory_text>\<open>partial_function (option)\<close> or has a bound on its rounds, and it is proved that on a block tree it
  returns (the bound of \<open>SetTip\<close> is the height of the new tip plus one, which is the number of
  entries on the path).

  \<^bold>\<open>Not modelled.\<close> Hash functions and signature verification are arguments, since the theorems need
  nothing of them but, where stated, that two given inputs do not collide. Contract execution wraps
  an Ethereum virtual machine whose code is not in the repository. The memory pool, block
  assembly, the network, the wallet, the remote procedure calls and the user interface are policy,
  input and output around the code verified here. Of \<^verbatim>\<open>validation.cpp\<close>, the
  checks that \<^verbatim>\<open>ConnectBlock\<close> and \<^verbatim>\<open>AcceptBlock\<close> make call the contract engine and are not modelled;
  in chain selection the effects on the memory pool, the files, the set of entries to write and the
  listeners are left out, and a run is not interrupted by a shutdown. Text encodings, memory accounting,
  logging and the disk layout of the key-value store are left out; the store is a map written by
  atomic batches.
\<close>

end
